(* ===== verification/Prelude.thy ===== *)
theory Prelude
  imports Main "HOL-Library.Monad_Syntax" "HOL-Library.Multiset"
begin

text \<open>
  Shared vocabulary of the development: the fragment of the Go language and of its
  standard library that the modelled sources use, and the generic lemmas on lists,
  finite sets and options that the component theories share.

  A Go function that can panic (index out of range, nil dereference) is modelled by a
  function into \<open>option\<close>: \<open>None\<close> is the panic, \<open>Some\<close> the returned value and state.
  Slices are lists; reading, writing and re-slicing them is \<open>go_nth\<close>, \<open>go_upd\<close>,
  \<open>slice_from\<close> and \<open>slice_to\<close>, each \<open>None\<close> where Go panics.  Re-slicing beyond the length but
  within the capacity, which Go allows, is counted as a panic as well: the theorems about
  the callers show that it does not happen.
\<close>

named_theorems go_simps \<open>unfolding of the Go slice operations inside their bounds\<close>

section \<open>Slices\<close>

definition go_nth :: "'a list \<Rightarrow> int \<Rightarrow> 'a option" where
  "go_nth xs i = (if 0 \<le> i \<and> i < int (length xs) then Some (xs ! nat i) else None)"

definition go_upd :: "'a list \<Rightarrow> int \<Rightarrow> 'a \<Rightarrow> 'a list option" where
  "go_upd xs i v = (if 0 \<le> i \<and> i < int (length xs) then Some (xs[nat i := v]) else None)"

definition slice_from :: "'a list \<Rightarrow> int \<Rightarrow> 'a list option" where
  "slice_from xs i = (if 0 \<le> i \<and> i \<le> int (length xs) then Some (drop (nat i) xs) else None)"

definition slice_to :: "'a list \<Rightarrow> int \<Rightarrow> 'a list option" where
  "slice_to xs i = (if 0 \<le> i \<and> i \<le> int (length xs) then Some (take (nat i) xs) else None)"

lemma go_nth_in [go_simps]:
  "0 \<le> i \<Longrightarrow> i < int (length xs) \<Longrightarrow> go_nth xs i = Some (xs ! nat i)"
  by (simp add: go_nth_def)

lemma go_nth_nat [go_simps]: "k < length xs \<Longrightarrow> go_nth xs (int k) = Some (xs ! k)"
  by (simp add: go_nth_def)

lemma go_upd_nat [go_simps]: "k < length xs \<Longrightarrow> go_upd xs (int k) v = Some (xs[k := v])"
  by (simp add: go_upd_def)

lemma slice_from_in [go_simps]:
  "0 \<le> i \<Longrightarrow> i \<le> int (length xs) \<Longrightarrow> slice_from xs i = Some (drop (nat i) xs)"
  by (simp add: slice_from_def)

lemma slice_to_in [go_simps]:
  "0 \<le> i \<Longrightarrow> i \<le> int (length xs) \<Longrightarrow> slice_to xs i = Some (take (nat i) xs)"
  by (simp add: slice_to_def)

lemma go_nth_Some_iff:
  "go_nth xs i = Some x \<longleftrightarrow> 0 \<le> i \<and> i < int (length xs) \<and> xs ! nat i = x"
  by (auto simp: go_nth_def)

lemma go_upd_Some_iff:
  "go_upd xs i v = Some ys \<longleftrightarrow> 0 \<le> i \<and> i < int (length xs) \<and> ys = xs[nat i := v]"
  by (auto simp: go_upd_def)

lemma slice_from_Some_iff:
  "slice_from xs i = Some ys \<longleftrightarrow> 0 \<le> i \<and> i \<le> int (length xs) \<and> ys = drop (nat i) xs"
  by (auto simp: slice_from_def)

lemma slice_to_Some_iff:
  "slice_to xs i = Some ys \<longleftrightarrow> 0 \<le> i \<and> i \<le> int (length xs) \<and> ys = take (nat i) xs"
  by (auto simp: slice_to_def)

lemmas go_Some_iff = go_nth_Some_iff go_upd_Some_iff slice_from_Some_iff slice_to_Some_iff

section \<open>sort.Search\<close>

text \<open>
  The binary search of Go's package sort: the loop keeps \<open>i \<le> j\<close>, probes the midpoint and
  halves the interval.  The probe may index a slice, so it may panic.
\<close>

function search_loop :: "(int \<Rightarrow> bool option) \<Rightarrow> int \<Rightarrow> int \<Rightarrow> int option" where
  "search_loop f i j =
     (if i < j then
        (case f ((i + j) div 2) of
           None \<Rightarrow> None
         | Some b \<Rightarrow> if b then search_loop f i ((i + j) div 2)
                    else search_loop f ((i + j) div 2 + 1) j)
      else Some i)"
  by pat_completeness auto
termination
  by (relation "measure (\<lambda>(f, i, j). nat (j - i))") auto

declare search_loop.simps [simp del]

definition sort_Search :: "int \<Rightarrow> (int \<Rightarrow> bool option) \<Rightarrow> int option" where
  "sort_Search n f = search_loop f 0 n"

lemma search_loop_done: "j \<le> i \<Longrightarrow> search_loop f i j = Some i"
  by (simp add: search_loop.simps [of f i j])

lemma search_loop_total:
  assumes "\<And>h. i \<le> h \<Longrightarrow> h < j \<Longrightarrow> f h \<noteq> None" and "i \<le> j"
  shows "\<exists>k. search_loop f i j = Some k \<and> i \<le> k \<and> k \<le> j"
  using assms
proof (induction f i j rule: search_loop.induct)
  case (1 f i j)
  show ?case
  proof (cases "i < j")
    case False
    then show ?thesis using "1.prems"(2) by (simp add: search_loop_done)
  next
    case True
    let ?h = "(i + j) div 2"
    have h: "i \<le> ?h" "?h < j" using True by auto
    then obtain b where b: "f ?h = Some b" using "1.prems"(1) by blast
    show ?thesis
    proof (cases b)
      case True
      then have "\<exists>k. search_loop f i ?h = Some k \<and> i \<le> k \<and> k \<le> ?h"
        using "1.IH"(1) [OF \<open>i < j\<close> b True] "1.prems"(1) h by auto
      then show ?thesis using h True b \<open>i < j\<close> by (auto simp: search_loop.simps [of f i j])
    next
      case False
      then have "\<exists>k. search_loop f (?h + 1) j = Some k \<and> ?h + 1 \<le> k \<and> k \<le> j"
        using "1.IH"(2) [OF \<open>i < j\<close> b False] "1.prems"(1) h by auto
      then show ?thesis using h False b \<open>i < j\<close> by (auto simp: search_loop.simps [of f i j])
    qed
  qed
qed

text \<open>On a monotone predicate the result is the least index where it holds.\<close>

lemma search_loop_least:
  assumes "search_loop f i j = Some k" and "i \<le> j"
    and "\<And>h. i \<le> h \<Longrightarrow> h < j \<Longrightarrow> f h = Some (p h)"
    and "\<And>g h. i \<le> g \<Longrightarrow> g \<le> h \<Longrightarrow> h < j \<Longrightarrow> p g \<Longrightarrow> p h"
  shows "i \<le> k \<and> k \<le> j \<and> (\<forall>h. i \<le> h \<and> h < k \<longrightarrow> \<not> p h) \<and> (\<forall>h. k \<le> h \<and> h < j \<longrightarrow> p h)"
  using assms
proof (induction f i j rule: search_loop.induct)
  case (1 f i j)
  show ?case
  proof (cases "i < j")
    case False
    then have "k = i" "i = j" using "1.prems"(1,2) by (simp_all add: search_loop_done)
    then show ?thesis by auto
  next
    case True
    define h where "h = (i + j) div 2"
    have h: "i \<le> h" "h < j" using True by (auto simp: h_def)
    have b: "f h = Some (p h)" using "1.prems"(3) h by blast
    have step: "search_loop f i j = (if p h then search_loop f i h else search_loop f (h + 1) j)"
      using True b by (simp add: search_loop.simps [of f i j] h_def)
    show ?thesis
    proof (cases "p h")
      case pT: True
      have sl: "search_loop f i h = Some k" using "1.prems"(1) step pT by simp
      have defd: "\<And>g. i \<le> g \<Longrightarrow> g < h \<Longrightarrow> f g = Some (p g)" using "1.prems"(3) h by simp
      have mono: "p g'" if "i \<le> g" "g \<le> g'" "g' < h" "p g" for g g'
        using "1.prems"(4) [OF that(1,2) _ that(4)] that(3) h(2) by linarith
      have "i \<le> k \<and> k \<le> h \<and> (\<forall>g. i \<le> g \<and> g < k \<longrightarrow> \<not> p g) \<and> (\<forall>g. k \<le> g \<and> g < h \<longrightarrow> p g)"
        using "1.IH"(1) [OF True, of "p h"] b pT sl h(1) defd mono unfolding h_def by blast
      moreover have "\<And>g. h \<le> g \<Longrightarrow> g < j \<Longrightarrow> p g"
        using "1.prems"(4) [OF h(1)] pT by blast
      ultimately show ?thesis using h by force
    next
      case pF: False
      have sl: "search_loop f (h + 1) j = Some k" using "1.prems"(1) step pF by simp
      have defd: "\<And>g. h + 1 \<le> g \<Longrightarrow> g < j \<Longrightarrow> f g = Some (p g)" using "1.prems"(3) h by simp
      have mono: "p g'" if "h + 1 \<le> g" "g \<le> g'" "g' < j" "p g" for g g'
        using "1.prems"(4) [OF _ that(2,3,4)] that(1) h(1) by linarith
      have "h + 1 \<le> k \<and> k \<le> j \<and> (\<forall>g. h + 1 \<le> g \<and> g < k \<longrightarrow> \<not> p g)
          \<and> (\<forall>g. k \<le> g \<and> g < j \<longrightarrow> p g)"
        using "1.IH"(2) [OF True, of "p h"] b pF sl zless_imp_add1_zle [OF h(2)] defd mono
        unfolding h_def by blast
      moreover have "\<And>g. i \<le> g \<Longrightarrow> g < h + 1 \<Longrightarrow> \<not> p g"
        using "1.prems"(4) [OF _ _ h(2)] pF by fastforce
      ultimately show ?thesis using h by force
    qed
  qed
qed

lemma sort_Search_total:
  "(\<And>h. 0 \<le> h \<Longrightarrow> h < n \<Longrightarrow> f h \<noteq> None) \<Longrightarrow> 0 \<le> n \<Longrightarrow>
     \<exists>k. sort_Search n f = Some k \<and> 0 \<le> k \<and> k \<le> n"
  unfolding sort_Search_def by (rule search_loop_total)

lemma sort_Search_neg: "n \<le> 0 \<Longrightarrow> sort_Search n f = Some 0"
  by (simp add: sort_Search_def search_loop_done)

section \<open>Finite sets: two majorities meet\<close>

lemma majorities_meet:
  assumes "A \<subseteq> {..<n::nat}" and "B \<subseteq> {..<n}"
    and "card A > n div 2" and "card B > n div 2"
  shows "\<exists>p. p \<in> A \<and> p \<in> B"
proof (rule ccontr)
  assume "\<not> ?thesis"
  then have "card (A \<union> B) = card A + card B"
    using assms(1,2) by (intro card_Un_disjoint) (auto intro: finite_subset)
  moreover have "card (A \<union> B) \<le> n"
    using assms(1,2) card_mono [of "{..<n}" "A \<union> B"] by simp
  ultimately show False using assms(3,4) by arith
qed

end
