(* ===== verification/Persister.thy ===== *)
theory Persister
  imports Prelude
begin

text \<open>
  The simulated disk of one server (src/src/tester1/persister.go): the encoded Raft state
  and the service snapshot, always saved together.  A byte slice is a list; the element
  type is left open, because an encoder writes a sequence of values whose bytes no caller
  looks into.
\<close>

record ('r, 'b) Persister =
  ps_raftstate :: "'r list"
  ps_snapshot :: "'b list"

definition MakePersister :: "('r, 'b) Persister" where
  "MakePersister = \<lparr>ps_raftstate = [], ps_snapshot = []\<rparr>"

definition clone :: "'a list \<Rightarrow> 'a list" where
  "clone orig = map (\<lambda>x. x) orig"

definition Copy :: "('r, 'b) Persister \<Rightarrow> ('r, 'b) Persister" where
  "Copy ps = MakePersister\<lparr>ps_raftstate := ps_raftstate ps, ps_snapshot := ps_snapshot ps\<rparr>"

definition ReadRaftState :: "('r, 'b) Persister \<Rightarrow> 'r list" where
  "ReadRaftState ps = clone (ps_raftstate ps)"

definition RaftStateSize :: "('r, 'b) Persister \<Rightarrow> nat" where
  "RaftStateSize ps = length (ps_raftstate ps)"

definition Save :: "'r list \<Rightarrow> 'b list \<Rightarrow> ('r, 'b) Persister \<Rightarrow> ('r, 'b) Persister" where
  "Save raftstate snapshot ps =
     ps\<lparr>ps_raftstate := clone raftstate, ps_snapshot := clone snapshot\<rparr>"

definition ReadSnapshot :: "('r, 'b) Persister \<Rightarrow> 'b list" where
  "ReadSnapshot ps = clone (ps_snapshot ps)"

definition SnapshotSize :: "('r, 'b) Persister \<Rightarrow> nat" where
  "SnapshotSize ps = length (ps_snapshot ps)"

lemma clone_id [simp]: "clone xs = xs"
  by (simp add: clone_def)

lemma read_simps [simp]:
  "ReadRaftState (Save r s ps) = r" "ReadSnapshot (Save r s ps) = s"
  "RaftStateSize (Save r s ps) = length r" "SnapshotSize (Save r s ps) = length s"
  "ReadRaftState MakePersister = []" "ReadSnapshot MakePersister = []"
  by (simp_all add: ReadRaftState_def ReadSnapshot_def RaftStateSize_def SnapshotSize_def
      Save_def MakePersister_def)

lemma Copy_id [simp]: "Copy ps = ps"
  by (simp add: Copy_def MakePersister_def)

end
