(* ===== verification/RaftUtil.thy ===== *)
theory RaftUtil
  imports Prelude
begin

text \<open>
  \<open>QuickSelect\<close> of src/src/raft1/util.go, on which the commit rule of the leader rests, and
  its correctness: for every valid \<open>k\<close> the loop returns, and it returns the element at
  position \<open>k\<close> of the sorted array.

  The indices \<open>left\<close>, \<open>right\<close>, \<open>i\<close>, \<open>j\<close> and \<open>k\<close> are naturals.  In Go they are ints, but
  \<open>right = i - 1\<close> runs only when \<open>k < i\<close>, so none becomes negative; an empty array, where
  \<open>right\<close> starts at -1 and the first access panics, is the first case of \<open>QuickSelect\<close>.
  The outer loop has no bound of its own: it is a \<open>partial_function\<close>, and \<open>None\<close> is a panic
  or a run that does not return.
\<close>

definition swap :: "nat \<Rightarrow> nat \<Rightarrow> 'a list \<Rightarrow> 'a list option" where
  "swap i j xs = do {
     x \<leftarrow> go_nth xs (int i);
     y \<leftarrow> go_nth xs (int j);
     ys \<leftarrow> go_upd xs (int i) y;
     go_upd ys (int j) x
   }"

text \<open>The inner loop: \<open>n\<close> is the number of iterations left, \<open>right - j\<close>.\<close>

primrec qs_partition :: "nat \<Rightarrow> nat \<Rightarrow> nat \<Rightarrow> int \<Rightarrow> int list \<Rightarrow> (nat \<times> int list) option" where
  "qs_partition 0 j i pivot xs = Some (i, xs)"
| "qs_partition (Suc n) j i pivot xs = do {
     x \<leftarrow> go_nth xs (int j);
     if x < pivot then do {
       ys \<leftarrow> swap i j xs;
       qs_partition n (Suc j) (Suc i) pivot ys
     }
     else qs_partition n (Suc j) i pivot xs
   }"

partial_function (option) qs_loop :: "nat \<Rightarrow> nat \<Rightarrow> nat \<Rightarrow> int list \<Rightarrow> int option" where
  "qs_loop left right k xs =
     (if left = right then go_nth xs (int left)
      else do {
        let idx = (left + right) div 2;
        pivot \<leftarrow> go_nth xs (int idx);
        ys \<leftarrow> swap idx right xs;
        (i, zs) \<leftarrow> qs_partition (right - left) left left pivot ys;
        ws \<leftarrow> swap i right zs;
        if k = i then go_nth ws (int i)
        else if k < i then qs_loop left (i - 1) k ws
        else qs_loop (i + 1) right k ws
      })"

definition QuickSelect :: "int list \<Rightarrow> nat \<Rightarrow> int option" where
  "QuickSelect array k = (if array = [] then None else qs_loop 0 (length array - 1) k array)"

section \<open>Swaps and the partition loop\<close>

lemma swap_in:
  "i < length xs \<Longrightarrow> j < length xs \<Longrightarrow> swap i j xs = Some (xs[i := xs ! j, j := xs ! i])"
  by (simp add: swap_def go_simps)

lemma mset_swap_in:
  "i < length xs \<Longrightarrow> j < length xs \<Longrightarrow> mset (xs[i := xs ! j, j := xs ! i]) = mset xs"
  by (rule mset_swap)

text \<open>
  What the partition loop establishes: a permutation that leaves everything outside
  \<open>[l, r)\<close> alone, with the elements below the pivot first.
\<close>

definition parted :: "nat \<Rightarrow> nat \<Rightarrow> nat \<Rightarrow> int \<Rightarrow> int list \<Rightarrow> bool" where
  "parted l i j pivot xs \<longleftrightarrow> l \<le> i \<and> i \<le> j \<and>
     (\<forall>p. l \<le> p \<and> p < i \<longrightarrow> xs ! p < pivot) \<and> (\<forall>p. i \<le> p \<and> p < j \<longrightarrow> pivot \<le> xs ! p)"

definition same_outside :: "nat \<Rightarrow> nat \<Rightarrow> int list \<Rightarrow> int list \<Rightarrow> bool" where
  "same_outside l r xs ys \<longleftrightarrow> mset ys = mset xs \<and> length ys = length xs \<and>
     (\<forall>p. p < l \<or> r \<le> p \<longrightarrow> ys ! p = xs ! p)"

lemma same_outside_refl [simp]: "same_outside l r xs xs"
  by (simp add: same_outside_def)

lemma same_outside_trans:
  "same_outside l r xs ys \<Longrightarrow> same_outside l r ys zs \<Longrightarrow> same_outside l r xs zs"
  by (auto simp: same_outside_def)

lemma same_outside_mono:
  "same_outside l r xs ys \<Longrightarrow> l' \<le> l \<Longrightarrow> r \<le> r' \<Longrightarrow> same_outside l' r' xs ys"
  by (auto simp: same_outside_def)

lemma same_outside_swap:
  "l \<le> i \<Longrightarrow> l \<le> j \<Longrightarrow> i < r \<Longrightarrow> j < r \<Longrightarrow> r \<le> length xs \<Longrightarrow>
     same_outside l r xs (xs[i := xs ! j, j := xs ! i])"
  by (auto simp: same_outside_def mset_swap nth_list_update)

lemma qs_partition_correct:
  assumes "parted l i j pivot xs" and "j + n < length xs"
  shows "\<exists>i' ys. qs_partition n j i pivot xs = Some (i', ys) \<and>
     parted l i' (j + n) pivot ys \<and> same_outside l (j + n) xs ys"
  using assms
proof (induction n arbitrary: j i xs)
  case 0
  then show ?case by simp
next
  case (Suc n)
  have j: "j < length xs" "i < length xs" "l \<le> i" "i \<le> j"
    using Suc.prems by (auto simp: parted_def)
  show ?case
  proof (cases "xs ! j < pivot")
    case True
    let ?ys = "xs[i := xs ! j, j := xs ! i]"
    have "parted l (Suc i) (Suc j) pivot ?ys"
      using Suc.prems(1) True j by (auto simp: parted_def nth_list_update less_Suc_eq)
    moreover have "Suc j + n < length ?ys" using Suc.prems(2) by simp
    ultimately obtain i' zs where
      z: "qs_partition n (Suc j) (Suc i) pivot ?ys = Some (i', zs)"
         "parted l i' (Suc j + n) pivot zs" "same_outside l (Suc j + n) ?ys zs"
      using Suc.IH by blast
    have "same_outside l (Suc j + n) xs ?ys"
      using j Suc.prems(2) by (intro same_outside_swap) auto
    then have "same_outside l (Suc j + n) xs zs" using z(3) by (rule same_outside_trans)
    then show ?thesis using z True j by (simp add: go_simps swap_in)
  next
    case False
    have "parted l i (Suc j) pivot xs"
      using Suc.prems(1) False by (auto simp: parted_def less_Suc_eq)
    then show ?thesis using Suc.IH [of i "Suc j" xs] Suc.prems(2) False j
      by (auto simp: go_simps)
  qed
qed

section \<open>The selection loop\<close>

text \<open>
  The loop invariant: everything left of \<open>l\<close> is at most everything from \<open>l\<close> on, everything up
  to \<open>r\<close> is at most everything right of \<open>r\<close>.
\<close>

definition window :: "nat \<Rightarrow> nat \<Rightarrow> int list \<Rightarrow> bool" where
  "window l r xs \<longleftrightarrow> l \<le> r \<and> r < length xs \<and>
     (\<forall>p q. p < l \<and> l \<le> q \<and> q < length xs \<longrightarrow> xs ! p \<le> xs ! q) \<and>
     (\<forall>p q. p \<le> r \<and> r < q \<and> q < length xs \<longrightarrow> xs ! p \<le> xs ! q)"

lemma select_nth:
  fixes xs :: "'a::linorder list"
  assumes "k < length xs" and "\<And>p. p < k \<Longrightarrow> xs ! p \<le> xs ! k"
    and "\<And>q. k < q \<Longrightarrow> q < length xs \<Longrightarrow> xs ! k \<le> xs ! q"
  shows "sort xs ! k = xs ! k"
proof -
  let ?ys = "sort (take k xs) @ xs ! k # sort (drop (Suc k) xs)"
  have lo: "\<forall>x \<in> set (take k xs). x \<le> xs ! k"
    using assms(1,2) by (auto simp: in_set_conv_nth)
  have hi: "\<forall>x \<in> set (drop (Suc k) xs). xs ! k \<le> x"
    using assms(3) by (auto simp: in_set_conv_nth)
  have "sorted ?ys" using lo hi by (fastforce simp: sorted_append)
  moreover have "mset ?ys = mset xs"
    using assms(1) by (metis id_take_nth_drop mset.simps(2) mset_append mset_sort)
  ultimately have "sort xs = ?ys" by (metis properties_for_sort)
  then show ?thesis using assms(1) by (simp add: nth_append)
qed

text \<open>Rearranging inside the window keeps the two bounds.\<close>

lemma window_same_outside:
  assumes w: "window l r xs" and s: "same_outside l (Suc r) xs ys"
  shows "window l r ys"
proof -
  have len: "length ys = length xs" and out: "\<And>p. p < l \<or> Suc r \<le> p \<Longrightarrow> ys ! p = xs ! p"
    using s by (auto simp: same_outside_def)
  have dec: "xs = take l xs @ take (Suc r - l) (drop l xs) @ drop (Suc r) xs" for xs :: "int list"
    by (metis append_take_drop_id drop_drop add_diff_inverse_nat take_add w window_def
        add.commute le_SucI not_less)
  have lr: "l \<le> r" "r < length xs" using w by (auto simp: window_def)
  have mid: "mset (take (Suc r - l) (drop l ys)) = mset (take (Suc r - l) (drop l xs))"
  proof -
    have "take l ys = take l xs" using len out lr by (intro nth_equalityI) auto
    moreover have "drop (Suc r) ys = drop (Suc r) xs"
      using len out lr by (intro nth_equalityI) auto
    moreover have "mset ys = mset xs" using s by (simp add: same_outside_def)
    ultimately show ?thesis
      using arg_cong [OF dec [of xs], of mset] arg_cong [OF dec [of ys], of mset] by simp
  qed
  have inside: "\<exists>p'. l \<le> p' \<and> p' \<le> r \<and> ys ! p = xs ! p'" if "l \<le> p" "p \<le> r" for p
  proof -
    have "ys ! p \<in> set (take (Suc r - l) (drop l ys))"
      using that lr len by (auto simp: in_set_conv_nth intro!: exI [of _ "p - l"])
    then have "ys ! p \<in> set (take (Suc r - l) (drop l xs))" using mid by (metis set_mset_mset)
    then obtain m where "m < Suc r - l" "ys ! p = xs ! (l + m)"
      using lr by (auto simp: in_set_conv_nth)
    then show ?thesis using lr by (intro exI [of _ "l + m"]) auto
  qed
  have any: "\<exists>q'. l \<le> q' \<and> q' < length xs \<and> ys ! q = xs ! q'" if "l \<le> q" "q < length xs" for q
    using inside [of q] out [of q] that lr
    by (cases "q \<le> r") (force, metis not_less_eq_eq)
  have anyr: "\<exists>p'. p' \<le> r \<and> ys ! p = xs ! p'" if "p \<le> r" for p
    using inside [of p] out [of p] that by (cases "l \<le> p") force+
  show ?thesis
    unfolding window_def len
  proof (intro conjI allI impI)
    show "l \<le> r" "r < length xs" using lr by auto
  next
    fix p q assume a: "p < l \<and> l \<le> q \<and> q < length xs"
    then obtain q' where "l \<le> q'" "q' < length xs" "ys ! q = xs ! q'" using any by blast
    then show "ys ! p \<le> ys ! q" using w a out [of p] by (auto simp: window_def)
  next
    fix p q assume a: "p \<le> r \<and> r < q \<and> q < length xs"
    then obtain p' where "p' \<le> r" "ys ! p = xs ! p'" using anyr by blast
    then show "ys ! p \<le> ys ! q" using w a out [of q] by (auto simp: window_def)
  qed
qed

text \<open>One round of the loop: the array after the pivot has reached its final spot \<open>i\<close>.\<close>

lemma qs_round:
  assumes w: "window l r xs" and "l < r"
  shows "\<exists>pivot ys i zs ws. go_nth xs (int ((l + r) div 2)) = Some pivot \<and>
     swap ((l + r) div 2) r xs = Some ys \<and> qs_partition (r - l) l l pivot ys = Some (i, zs) \<and>
     swap i r zs = Some ws \<and> l \<le> i \<and> i \<le> r \<and> window l r ws \<and> mset ws = mset xs \<and>
     (\<forall>p. l \<le> p \<and> p < i \<longrightarrow> ws ! p \<le> ws ! i) \<and> (\<forall>p. i < p \<and> p \<le> r \<longrightarrow> ws ! i \<le> ws ! p)"
proof -
  let ?m = "(l + r) div 2" and ?pivot = "xs ! ((l + r) div 2)"
  have m: "l \<le> ?m" "?m \<le> r" "r < length xs" using assms by (auto simp: window_def)
  let ?ys = "xs[?m := xs ! r, r := ?pivot]"
  have ys: "swap ?m r xs = Some ?ys" using m by (simp add: swap_in)
  have so1: "same_outside l (Suc r) xs ?ys" using m assms(2) by (intro same_outside_swap) auto
  have "parted l l l ?pivot ?ys" by (simp add: parted_def)
  moreover have "l + (r - l) < length ?ys" using m assms(2) by simp
  ultimately obtain i zs where z: "qs_partition (r - l) l l ?pivot ?ys = Some (i, zs)"
      "parted l i r ?pivot zs" "same_outside l r ?ys zs"
    using qs_partition_correct [of l l l ?pivot ?ys "r - l"] assms(2) by auto
  have i: "l \<le> i" "i \<le> r" "length zs = length xs" "zs ! r = ?pivot"
    using z(2,3) m by (auto simp: parted_def same_outside_def)
  let ?ws = "zs[i := zs ! r, r := zs ! i]"
  have ws: "swap i r zs = Some ?ws" using i m by (simp add: swap_in)
  have "same_outside l (Suc r) zs ?ws" using i m assms(2) by (intro same_outside_swap) auto
  moreover have "same_outside l (Suc r) ?ys zs" using z(3) by (rule same_outside_mono) auto
  ultimately have so: "same_outside l (Suc r) xs ?ws"
    using so1 by (blast intro: same_outside_trans)
  have ws_lo: "\<forall>p. l \<le> p \<and> p < i \<longrightarrow> ?ws ! p \<le> ?ws ! i"
    using z(2) i m by (auto simp: parted_def nth_list_update)
  have ws_hi: "\<forall>p. i < p \<and> p \<le> r \<longrightarrow> ?ws ! i \<le> ?ws ! p"
    using z(2) i m by (auto simp: parted_def nth_list_update)
  show ?thesis
    using m i ys z(1) ws ws_lo ws_hi window_same_outside [OF w so] so
    by (auto simp: go_simps same_outside_def intro!: exI)
qed

lemma qs_loop_correct:
  assumes "window l r xs" and "l \<le> k" and "k \<le> r"
  shows "qs_loop l r k xs = Some (sort xs ! k)"
  using assms
proof (induction "r - l" arbitrary: l r xs rule: less_induct)
  case less
  have kr: "k < length xs" using less.prems by (simp add: window_def)
  show ?case
  proof (cases "l = r")
    case True
    then have "sort xs ! k = xs ! k"
      using less.prems by (intro select_nth) (auto simp: window_def)
    then show ?thesis using True less.prems kr by (simp add: qs_loop.simps go_simps)
  next
    case False
    then have lr: "l < r" using less.prems(1) by (simp add: window_def)
    obtain pivot ys i zs ws where *: "go_nth xs (int ((l + r) div 2)) = Some pivot"
      "swap ((l + r) div 2) r xs = Some ys" "qs_partition (r - l) l l pivot ys = Some (i, zs)"
      "swap i r zs = Some ws" and i: "l \<le> i" "i \<le> r" and w: "window l r ws"
      and ms: "mset ws = mset xs"
      and lo: "\<And>p. l \<le> p \<Longrightarrow> p < i \<Longrightarrow> ws ! p \<le> ws ! i"
      and hi: "\<And>p. i < p \<Longrightarrow> p \<le> r \<Longrightarrow> ws ! i \<le> ws ! p"
      using qs_round [OF less.prems(1) lr] by blast
    have len: "r < length ws" using w by (simp add: window_def)
    have srt: "sort ws = sort xs" using ms by (metis mset_sort properties_for_sort sorted_sort)
    have below: "ws ! p \<le> ws ! i" if "p < i" for p
      using lo [of p] w i len that by (cases "l \<le> p") (auto simp: window_def)
    have above: "ws ! i \<le> ws ! q" if "i < q" "q < length ws" for q
      using hi [of q] w i that by (cases "q \<le> r") (auto simp: window_def)
    have step: "qs_loop l r k xs = (if k = i then go_nth ws (int i)
        else if k < i then qs_loop l (i - 1) k ws else qs_loop (i + 1) r k ws)"
      using False * by (subst qs_loop.simps) (simp add: Let_def)
    consider "k = i" | "k < i" | "i < k" by linarith
    then show ?thesis
    proof cases
      case 1
      then have "sort ws ! k = ws ! k" using below above len i by (intro select_nth) auto
      then show ?thesis using 1 step srt len i by (simp add: go_simps)
    next
      case 2
      have "window l (i - 1) ws"
        unfolding window_def
      proof (intro conjI allI impI)
        show "l \<le> i - 1" "i - 1 < length ws" using 2 less.prems(2) i len by auto
        show "ws ! p \<le> ws ! q" if "p < l \<and> l \<le> q \<and> q < length ws" for p q
          using w that by (auto simp: window_def)
        show "ws ! p \<le> ws ! q" if "p \<le> i - 1 \<and> i - 1 < q \<and> q < length ws" for p q
          using below [of p] above [of q] that 2
          by (metis One_nat_def Suc_pred diff_less le_neq_implies_less le_trans less_one
              less_zeroE linorder_not_less not_less_eq_eq order_le_less_trans)
      qed
      then show ?thesis using less.hyps [of "i - 1" l ws] 2 less.prems(2) i lr step srt by simp
    next
      case 3
      have "window (i + 1) r ws"
        unfolding window_def
      proof (intro conjI allI impI)
        show "i + 1 \<le> r" "r < length ws" using 3 less.prems(3) len by auto
        show "ws ! p \<le> ws ! q" if "p < i + 1 \<and> i + 1 \<le> q \<and> q < length ws" for p q
          using below [of p] above [of q] that by (cases "p = i") auto
        show "ws ! p \<le> ws ! q" if "p \<le> r \<and> r < q \<and> q < length ws" for p q
          using w that by (auto simp: window_def)
      qed
      then show ?thesis using less.hyps [of r "i + 1" ws] 3 less.prems(3) i lr step srt by simp
    qed
  qed
qed

lemma quickselect_value:
  assumes "k < length array"
  shows "QuickSelect array k = Some (sort array ! k)"
proof -
  have "window 0 (length array - 1) array" using assms by (auto simp: window_def)
  then show ?thesis
    using assms qs_loop_correct [of 0 "length array - 1" array k]
    by (auto simp: QuickSelect_def)
qed

text \<open>
  C40: \<open>QuickSelect\<close> terminates on every array for every position of it, and returns the
  element that a full sort would put at that position.
\<close>

theorem QuickSelect_correct:
  assumes "k < length array"
  shows "QuickSelect array k = Some (sort array ! k)"
  using assms by (rule quickselect_value)

theorem QuickSelect_correct_witness:
  "(2::nat) < length [5, 1, 4, 1, 3::int] \<and>
   QuickSelect [5, 1, 4, 1, 3] 2 = Some (sort [5, 1, 4, 1, 3::int] ! 2) \<and>
   sort [5, 1, 4, 1, 3::int] ! 2 = 3"
  using QuickSelect_correct [of 2 "[5, 1, 4, 1, 3]"] by simp

text \<open>The rank of the selected element: the majority bound the leader's commit rule uses.\<close>

lemma sort_nth_rank:
  fixes xs :: "int list"
  assumes "k < length xs"
  shows "length xs - k \<le> card {p. p < length xs \<and> sort xs ! k \<le> xs ! p}"
proof -
  have "card {p. p < length xs \<and> sort xs ! k \<le> xs ! p} = length (filter (\<lambda>x. sort xs ! k \<le> x) xs)"
    by (simp add: length_filter_conv_card)
  also have "\<dots> = length (filter (\<lambda>x. sort xs ! k \<le> x) (sort xs))"
    by (metis mset_filter mset_sort size_mset)
  also have "\<dots> \<ge> length (filter (\<lambda>x. sort xs ! k \<le> x) (drop k (sort xs)))"
    by (metis append_take_drop_id filter_append le_add2 length_append)
  also have "filter (\<lambda>x. sort xs ! k \<le> x) (drop k (sort xs)) = drop k (sort xs)"
  proof (rule filter_True, rule ballI)
    fix x assume "x \<in> set (drop k (sort xs))"
    then obtain m where "m < length xs - k" "x = sort xs ! (k + m)"
      by (auto simp: in_set_conv_nth)
    then show "sort xs ! k \<le> x" using assms by (auto intro!: sorted_nth_mono)
  qed
  finally show ?thesis by simp
qed

end
