(* ===== verification/Raft.thy ===== *)
theory Raft
  imports Persister RaftUtil
begin

text \<open>
  One Raft peer (src/src/raft1/raft.go, src/src/raft1/util.go): its state as a record and
  every method as a function on it, in the order of the source.

  \<^item> Every method that holds \<open>rf.mu\<close> for its whole body is one atomic function.  Methods that
    release the lock (\<open>doSendAppendEntry\<close>, the goroutines of \<open>LaunchElection\<close>, the loops
    \<open>ticker\<close>, \<open>applier\<close>, \<open>replicator\<close>) are split at the points where they release it.
  \<^item> A function into \<open>option\<close> is \<open>None\<close> where the Go code would panic.
  \<^item> Terms, indices and ids are Go's \<open>int\<close>; they only grow by one per step, so they are \<open>int\<close>.
  \<^item> A command is an \<open>interface{}\<close>: a type parameter, \<open>None\<close> for nil.
  \<^item> A buffer written by labgob is the sequence of the values encoded into it; decoding
    takes them off in order and fails on a value of another type or on an empty buffer.
  \<^item> A timer is its armed/stopped flag; durations are random and not modelled.
  \<^item> \<open>effects\<close> records, in order, the goroutines started and the condition variables
    signalled; \<open>applyCh\<close> records the messages sent on the apply channel.
\<close>

section \<open>Data\<close>

datatype ServerState = Follower | Candidate | Leader

record 'c LogEntry =
  le_Command :: "'c option"
  le_Term :: int
  le_Index :: int

datatype 'c gob = GInt int | GLogs "'c LogEntry list"

type_synonym ('c, 'b) disk = "('c gob, 'b) Persister"

record ('c, 'b) ApplyMsg =
  am_CommandValid :: bool
  am_Command :: "'c option"
  am_CommandIndex :: int
  am_SnapshotValid :: bool
  am_Snapshot :: "'b list"
  am_SnapshotTerm :: int
  am_SnapshotIndex :: int

datatype effect = GoSendAppendEntry nat | SignalReplicate nat | SignalApply

record ('c, 'b) Raft =
  npeers :: nat
  persister :: "('c, 'b) disk"
  me :: nat
  dead :: bool
  currentTerm :: int
  voteFor :: int
  commitIndex :: int
  lastApplied :: int
  state :: ServerState
  nextIndex :: "int list"
  matchIndex :: "int list"
  electionTimer :: bool
  heartbeatTimer :: bool
  applyCh :: "('c, 'b) ApplyMsg list"
  logs :: "'c LogEntry list"
  lastIncludedIndex :: int
  lastIncludedTerm :: int
  pendingSnapshot :: "('c, 'b) ApplyMsg option"
  grantedVotes :: "int \<rightharpoonup> int"
  effects :: "effect list"

record 'b InstallSnapShotArgs =
  is_Term :: int
  is_LeaderId :: nat
  is_LastIncludedIndex :: int
  is_LastIncludedTerm :: int
  is_Data :: "'b list"

record InstallSnapShotReply =
  isr_Term :: int

record RequestVoteArgs =
  rv_Term :: int
  rv_CandidateId :: int
  rv_LastLogIndex :: int
  rv_LastLogTerm :: int

record RequestVoteReply =
  rvr_Term :: int
  rvr_VoteGranted :: bool

record 'c AppendEntryArgs =
  ae_Term :: int
  ae_LeaderId :: nat
  ae_PrevLogIndex :: int
  ae_PrevLogTerm :: int
  ae_Entries :: "'c LogEntry list"
  ae_LeaderCommit :: int

record AppendEntryReply =
  aer_Term :: int
  aer_Success :: bool
  aer_ConflictIndex :: int
  aer_ConflictTerm :: int

section \<open>Log access and small helpers\<close>

definition getLatestLog :: "('c, 'b) Raft \<Rightarrow> 'c LogEntry option" where
  "getLatestLog rf = go_nth (logs rf) (int (length (logs rf)) - 1)"

definition getFirstLog :: "('c, 'b) Raft \<Rightarrow> 'c LogEntry option" where
  "getFirstLog rf = go_nth (logs rf) 0"

definition isLogUpdateToDate :: "int \<Rightarrow> int \<Rightarrow> ('c, 'b) Raft \<Rightarrow> bool option" where
  "isLogUpdateToDate index trm rf = do {
     lastLog \<leftarrow> getLatestLog rf;
     Some (trm > le_Term lastLog \<or> (trm = le_Term lastLog \<and> index \<ge> le_Index lastLog))
   }"

definition isValidLeader :: "int \<Rightarrow> ('c, 'b) Raft \<Rightarrow> bool" where
  "isValidLeader trm rf = (state rf = Leader \<and> currentTerm rf = trm)"

definition isValidCandidate :: "int \<Rightarrow> ('c, 'b) Raft \<Rightarrow> bool" where
  "isValidCandidate trm rf = (state rf = Candidate \<and> currentTerm rf = trm)"

definition isValidLogIndex :: "int \<Rightarrow> ('c, 'b) Raft \<Rightarrow> bool option" where
  "isValidLogIndex index rf = do {
     f \<leftarrow> getFirstLog rf;
     let k = index - le_Index f;
     Some (k \<ge> 0 \<and> k < int (length (logs rf)))
   }"

definition isLogMatched :: "int \<Rightarrow> int \<Rightarrow> ('c, 'b) Raft \<Rightarrow> bool option" where
  "isLogMatched index trm rf = do {
     f \<leftarrow> getFirstLog rf;
     l \<leftarrow> getLatestLog rf;
     if index < le_Index f \<or> index > le_Index l then Some False
     else do {
       v \<leftarrow> isValidLogIndex index rf;
       if \<not> v then Some False
       else do {
         e \<leftarrow> go_nth (logs rf) (index - le_Index f);
         Some (trm = le_Term e)
       }
     }
   }"

definition updateLogIndices :: "nat \<Rightarrow> int \<Rightarrow> ('c, 'b) Raft \<Rightarrow> ('c, 'b) Raft option" where
  "updateLogIndices peer matchIdx rf = do {
     m \<leftarrow> go_upd (matchIndex rf) (int peer) matchIdx;
     n \<leftarrow> go_upd (nextIndex rf) (int peer) (matchIdx + 1);
     Some (rf\<lparr>matchIndex := m, nextIndex := n\<rparr>)
   }"

definition resetElectionTimer :: "('c, 'b) Raft \<Rightarrow> ('c, 'b) Raft" where
  "resetElectionTimer rf = rf\<lparr>electionTimer := True\<rparr>"

definition emit :: "effect list \<Rightarrow> ('c, 'b) Raft \<Rightarrow> ('c, 'b) Raft" where
  "emit es rf = rf\<lparr>effects := effects rf @ es\<rparr>"

definition GetState :: "('c, 'b) Raft \<Rightarrow> int \<times> bool" where
  "GetState rf = (currentTerm rf, state rf = Leader)"

definition rejectVote :: "('c, 'b) Raft \<Rightarrow> int \<times> bool" where
  "rejectVote rf = (currentTerm rf, False)"

definition rejectAppendEntry :: "('c, 'b) Raft \<Rightarrow> int \<times> bool" where
  "rejectAppendEntry rf = (currentTerm rf, False)"

section \<open>Changing role\<close>

text \<open>The loop of \<open>ChangeState(Leader)\<close> over the peers, from peer \<open>i\<close> on.\<close>

primrec reset_peers :: "nat list \<Rightarrow> int \<Rightarrow> ('c, 'b) Raft \<Rightarrow> ('c, 'b) Raft option" where
  "reset_peers [] lastIdx rf = Some rf"
| "reset_peers (i # ps) lastIdx rf = do {
     n \<leftarrow> go_upd (nextIndex rf) (int i) (lastIdx + 1);
     m \<leftarrow> go_upd (matchIndex rf) (int i) 0;
     reset_peers ps lastIdx (rf\<lparr>nextIndex := n, matchIndex := m\<rparr>)
   }"

definition ChangeState :: "ServerState \<Rightarrow> ('c, 'b) Raft \<Rightarrow> ('c, 'b) Raft option" where
  "ChangeState newstate rf =
     (if state rf = newstate then Some rf
      else let rf = rf\<lparr>state := newstate\<rparr> in
        case newstate of
          Follower \<Rightarrow> Some ((resetElectionTimer rf)\<lparr>heartbeatTimer := False\<rparr>)
        | Leader \<Rightarrow> (let rf = rf\<lparr>electionTimer := False, heartbeatTimer := True\<rparr> in do {
            l \<leftarrow> getLatestLog rf;
            rf \<leftarrow> reset_peers [0..<npeers rf] (le_Index l) rf;
            updateLogIndices (me rf) (le_Index l) rf
          })
        | Candidate \<Rightarrow> Some rf)"

section \<open>Persistence\<close>

definition persist :: "'b list option \<Rightarrow> ('c, 'b) Raft \<Rightarrow> ('c, 'b) Raft" where
  "persist snapshot rf =
     (let raftstate = [GInt (currentTerm rf), GInt (voteFor rf), GLogs (logs rf),
                       GInt (lastIncludedIndex rf), GInt (lastIncludedTerm rf)]
      in case snapshot of
           Some s \<Rightarrow> rf\<lparr>persister := Save raftstate s (persister rf)\<rparr>
         | None \<Rightarrow> rf\<lparr>persister := Save raftstate (ReadSnapshot (persister rf)) (persister rf)\<rparr>)"

definition persistState :: "('c, 'b) Raft \<Rightarrow> ('c, 'b) Raft" where
  "persistState rf = persist None rf"

fun decode_int :: "'c gob list \<Rightarrow> (int \<times> 'c gob list) option" where
  "decode_int (GInt i # r) = Some (i, r)"
| "decode_int _ = None"

fun decode_logs :: "'c gob list \<Rightarrow> ('c LogEntry list \<times> 'c gob list) option" where
  "decode_logs (GLogs l # r) = Some (l, r)"
| "decode_logs _ = None"

definition decode_state :: "'c gob list \<Rightarrow> (int \<times> int \<times> 'c LogEntry list \<times> int \<times> int) option" where
  "decode_state d = do {
     (t, d) \<leftarrow> decode_int d;
     (v, d) \<leftarrow> decode_int d;
     (l, d) \<leftarrow> decode_logs d;
     (i, d) \<leftarrow> decode_int d;
     (u, d) \<leftarrow> decode_int d;
     Some (t, v, l, i, u)
   }"

definition readPersist :: "'c gob list \<Rightarrow> ('c, 'b) Raft \<Rightarrow> ('c, 'b) Raft option" where
  "readPersist d rf =
     (if d = [] then Some rf
      else case decode_state d of
        None \<Rightarrow> Some rf
      | Some (t, v, l, i, u) \<Rightarrow>
          (let rf = rf\<lparr>currentTerm := t, voteFor := v, logs := l\<rparr> in do {
            f \<leftarrow> getFirstLog rf;
            Some (rf\<lparr>lastApplied := le_Index f, commitIndex := le_Index f,
                    lastIncludedIndex := i, lastIncludedTerm := u\<rparr>)
          }))"

definition updateTermAndStepDown :: "int \<Rightarrow> ('c, 'b) Raft \<Rightarrow> ('c, 'b) Raft option" where
  "updateTermAndStepDown newTerm rf =
     (if newTerm > currentTerm rf then do {
        rf \<leftarrow> ChangeState Follower (rf\<lparr>currentTerm := newTerm, voteFor := -1\<rparr>);
        Some (persistState rf)
      } else Some rf)"

text \<open>
  \<open>truncateLogs\<close> copies a slice whose capacity is more than twice its length to release the
  backing array: the contents do not change.
\<close>

definition truncateLogs :: "nat \<Rightarrow> 'c LogEntry list \<Rightarrow> 'c LogEntry list" where
  "truncateLogs cap entries =
     (if cap > length entries * 2 then map (\<lambda>e. e) entries else entries)"

definition generateSingleLog :: "int \<Rightarrow> int \<Rightarrow> 'c LogEntry list" where
  "generateSingleLog i t = [\<lparr>le_Command = None, le_Term = t, le_Index = i\<rparr>]"

text \<open>The size of the persisted state, for a given byte size of each encoded value.\<close>

definition PersistBytes :: "('c gob \<Rightarrow> nat) \<Rightarrow> ('c, 'b) Raft \<Rightarrow> nat" where
  "PersistBytes gobSize rf = sum_list (map gobSize (ps_raftstate (persister rf)))"

section \<open>Snapshots\<close>

definition makeInstallSnapShotArgs :: "('c, 'b) Raft \<Rightarrow> 'b InstallSnapShotArgs option" where
  "makeInstallSnapShotArgs rf = do {
     firstLog \<leftarrow> getFirstLog rf;
     Some \<lparr>is_Term = currentTerm rf, is_LeaderId = me rf,
           is_LastIncludedIndex = le_Index firstLog, is_LastIncludedTerm = le_Term firstLog,
           is_Data = ReadSnapshot (persister rf)\<rparr>
   }"

definition Snapshot :: "int \<Rightarrow> 'b list option \<Rightarrow> ('c, 'b) Raft \<Rightarrow> ('c, 'b) Raft option" where
  "Snapshot index snapshot rf =
     (if dead rf then Some rf
      else do {
        f \<leftarrow> getFirstLog rf;
        l \<leftarrow> getLatestLog rf;
        let firstLogIdx = le_Index f;
        if index \<le> firstLogIdx \<or> index > le_Index l then Some rf
        else do {
          let newBeginEntry = index - firstLogIdx;
          e \<leftarrow> go_nth (logs rf) newBeginEntry;
          let rf = rf\<lparr>lastIncludedIndex := le_Index e, lastIncludedTerm := le_Term e\<rparr>;
          rest \<leftarrow> slice_from (logs rf) newBeginEntry;
          let rest = truncateLogs (length (logs rf)) rest;
          e0 \<leftarrow> go_nth rest 0;
          newLogs \<leftarrow> go_upd rest 0 (e0\<lparr>le_Command := None\<rparr>);
          Some (persist snapshot (rf\<lparr>logs := newLogs\<rparr>))
        }
      })"

text \<open>
  \<open>args.Data\<close> arrives through gob, which does not transmit empty slices: an empty slice is
  the nil slice for \<open>persist\<close>.
\<close>

definition gob_slice :: "'b list \<Rightarrow> 'b list option" where
  "gob_slice bs = (if bs = [] then None else Some bs)"

definition install_log :: "'b InstallSnapShotArgs \<Rightarrow> ('c, 'b) Raft \<Rightarrow> 'c LogEntry list option" where
  "install_log args rf = do {
     f \<leftarrow> getFirstLog rf;
     l \<leftarrow> getLatestLog rf;
     let firstLogIndex = le_Index f;
     let LI = is_LastIncludedIndex args;
     let LT = is_LastIncludedTerm args;
     if LI \<ge> le_Index l then Some (generateSingleLog LI LT)
     else if LI \<ge> firstLogIndex then do {
       let logIndex = LI - firstLogIndex;
       conflict \<leftarrow> (if logIndex < int (length (logs rf)) then do {
                       e \<leftarrow> go_nth (logs rf) logIndex;
                       Some (le_Term e \<noteq> LT) } else Some False);
       if conflict then Some (generateSingleLog LI LT)
       else do {
         let offset = LI - firstLogIndex + 1;
         if offset < int (length (logs rf)) then do {
           rest \<leftarrow> slice_from (logs rf) offset;
           let newLogs = generateSingleLog LI LT @ rest;
           Some (truncateLogs (length newLogs) newLogs)
         } else Some (generateSingleLog LI LT)
       }
     } else Some (logs rf)
   }"

definition InstallSnapShot ::
  "'b InstallSnapShotArgs \<Rightarrow> ('c, 'b) Raft \<Rightarrow> (InstallSnapShotReply \<times> ('c, 'b) Raft) option" where
  "InstallSnapShot args rf = (let reply = \<lparr>isr_Term = currentTerm rf\<rparr> in
     if is_Term args < currentTerm rf then Some (reply, rf)
     else do {
       let rf = (if is_Term args > currentTerm rf
                 then rf\<lparr>currentTerm := is_Term args, voteFor := -1\<rparr> else rf);
       rf \<leftarrow> ChangeState Follower rf;
       let rf = resetElectionTimer rf;
       if is_LastIncludedIndex args \<le> lastApplied rf then Some (reply, rf)
       else do {
         newLogs \<leftarrow> install_log args rf;
         let rf = rf\<lparr>lastIncludedIndex := is_LastIncludedIndex args,
                     lastIncludedTerm := is_LastIncludedTerm args,
                     logs := newLogs\<rparr>;
         let rf = (if is_LastIncludedIndex args > commitIndex rf
                   then rf\<lparr>commitIndex := is_LastIncludedIndex args\<rparr> else rf);
         let rf = (if is_LastIncludedIndex args > lastApplied rf
                   then rf\<lparr>lastApplied := is_LastIncludedIndex args\<rparr> else rf);
         let rf = persist (gob_slice (is_Data args)) rf;
         let rf = rf\<lparr>pendingSnapshot := Some
                     \<lparr>am_CommandValid = False, am_Command = None, am_CommandIndex = 0,
                      am_SnapshotValid = True, am_Snapshot = clone (is_Data args),
                      am_SnapshotTerm = is_LastIncludedTerm args,
                      am_SnapshotIndex = is_LastIncludedIndex args\<rparr>\<rparr>;
         Some (reply, emit [SignalApply] rf)
       }
     })"

section \<open>Elections\<close>

definition RequestVote ::
  "RequestVoteArgs \<Rightarrow> ('c, 'b) Raft \<Rightarrow> (RequestVoteReply \<times> ('c, 'b) Raft) option" where
  "RequestVote args rf =
     (if rv_Term args < currentTerm rf \<or>
         (rv_Term args = currentTerm rf \<and> voteFor rf \<noteq> -1 \<and> voteFor rf \<noteq> rv_CandidateId args)
      then (let (t, g) = rejectVote rf in Some (\<lparr>rvr_Term = t, rvr_VoteGranted = g\<rparr>, rf))
      else do {
        rf \<leftarrow> updateTermAndStepDown (rv_Term args) rf;
        up \<leftarrow> isLogUpdateToDate (rv_LastLogIndex args) (rv_LastLogTerm args) rf;
        if \<not> up then (let (t, g) = rejectVote rf in Some (\<lparr>rvr_Term = t, rvr_VoteGranted = g\<rparr>, rf))
        else do {
          let rf = rf\<lparr>voteFor := rv_CandidateId args\<rparr>;
          let rf = persistState rf;
          let rf = resetElectionTimer rf;
          Some (\<lparr>rvr_Term = currentTerm rf, rvr_VoteGranted = True\<rparr>, rf)
        }
      })"

text \<open>
  \<open>BroadcastAppendEntryMsg\<close>: to every other peer, either a goroutine that sends at once
  (heartbeat) or a signal to that peer's replicator.
\<close>

definition BroadcastAppendEntryMsg :: "bool \<Rightarrow> ('c, 'b) Raft \<Rightarrow> ('c, 'b) Raft" where
  "BroadcastAppendEntryMsg isHeartBeatMsg rf =
     emit (map (\<lambda>peer. if isHeartBeatMsg then GoSendAppendEntry peer else SignalReplicate peer)
             (filter (\<lambda>peer. peer \<noteq> me rf) [0..<npeers rf])) rf"

text \<open>
  \<open>LaunchElection\<close> starts one goroutine per other peer, each of which sends \<open>voteArgs\<close>; the
  result lists those calls.  The goroutines share the local variable \<open>grantedVotes\<close>; a peer
  runs at most one election per term, so the variable is kept under the election's term.
\<close>

definition LaunchElection ::
  "('c, 'b) Raft \<Rightarrow> ((nat \<times> RequestVoteArgs) list \<times> ('c, 'b) Raft) option" where
  "LaunchElection rf = do {
     let rf = rf\<lparr>voteFor := int (me rf)\<rparr>;
     let rf = rf\<lparr>grantedVotes := (grantedVotes rf)(currentTerm rf \<mapsto> 1)\<rparr>;
     let rf = persistState rf;
     l \<leftarrow> getLatestLog rf;
     let voteArgs = \<lparr>rv_Term = currentTerm rf, rv_CandidateId = int (me rf),
                     rv_LastLogIndex = le_Index l, rv_LastLogTerm = le_Term l\<rparr>;
     Some (map (\<lambda>peer. (peer, voteArgs)) (filter (\<lambda>peer. peer \<noteq> me rf) [0..<npeers rf]), rf)
   }"

text \<open>The body of such a goroutine after \<open>sendRequestVote\<close> has returned true.\<close>

definition handleVoteReply ::
  "RequestVoteArgs \<Rightarrow> RequestVoteReply \<Rightarrow> ('c, 'b) Raft \<Rightarrow> ('c, 'b) Raft option" where
  "handleVoteReply voteArgs voteReply rf =
     (if isValidCandidate (rv_Term voteArgs) rf then
        (if rvr_VoteGranted voteReply then
           (let g = (case grantedVotes rf (rv_Term voteArgs) of None \<Rightarrow> 0 | Some v \<Rightarrow> v) + 1;
                rf = rf\<lparr>grantedVotes := (grantedVotes rf)(rv_Term voteArgs \<mapsto> g)\<rparr>
            in if g > int (npeers rf div 2) then do {
                 rf \<leftarrow> ChangeState Leader rf;
                 Some (BroadcastAppendEntryMsg True rf)
               } else Some rf)
         else if rvr_Term voteReply > currentTerm rf
              then updateTermAndStepDown (rvr_Term voteReply) rf
         else Some rf)
      else Some rf)"

section \<open>Replication: the follower\<close>

text \<open>The probe of \<open>sort.Search\<close> in \<open>AppendEntry\<close>.\<close>

definition conflict_probe :: "'c LogEntry list \<Rightarrow> int \<Rightarrow> int \<Rightarrow> bool option" where
  "conflict_probe ls conflictTerm index =
     (if index \<ge> int (length ls) then Some True
      else do { e \<leftarrow> go_nth ls index; Some (le_Term e \<ge> conflictTerm) })"

text \<open>The loop of \<open>AppendEntry\<close> over \<open>args.Entries\<close>.\<close>

fun append_entries :: "int \<Rightarrow> 'c LogEntry list \<Rightarrow> ('c, 'b) Raft \<Rightarrow> ('c, 'b) Raft option" where
  "append_entries firstLogIdx [] rf = Some rf"
| "append_entries firstLogIdx (entry # rest) rf = do {
     let k = le_Index entry - firstLogIdx;
     differs \<leftarrow> (if k \<ge> int (length (logs rf)) then Some True
                 else do { e \<leftarrow> go_nth (logs rf) k; Some (le_Term e \<noteq> le_Term entry) });
     if differs then do {
       kept \<leftarrow> slice_to (logs rf) k;
       Some (persistState (rf\<lparr>logs := kept @ entry # rest\<rparr>))
     }
     else append_entries firstLogIdx rest rf
   }"

definition AppendEntry ::
  "'c AppendEntryArgs \<Rightarrow> ('c, 'b) Raft \<Rightarrow> (AppendEntryReply \<times> ('c, 'b) Raft) option" where
  "AppendEntry args rf =
     (if ae_Term args < currentTerm rf then
        (let (t, s) = rejectAppendEntry rf in
         Some (\<lparr>aer_Term = t, aer_Success = s, aer_ConflictIndex = 0, aer_ConflictTerm = 0\<rparr>, rf))
      else do {
        rf \<leftarrow> updateTermAndStepDown (ae_Term args) rf;
        rf \<leftarrow> (if state rf \<noteq> Follower then ChangeState Follower rf else Some rf);
        let rf = resetElectionTimer rf;
        f \<leftarrow> getFirstLog rf;
        let firstLogIdx = le_Index f;
        if ae_PrevLogIndex args < firstLogIdx then
          (let (t, s) = rejectAppendEntry rf in
           Some (\<lparr>aer_Term = t, aer_Success = s,
                  aer_ConflictIndex = firstLogIdx, aer_ConflictTerm = -1\<rparr>, rf))
        else do {
          matched \<leftarrow> isLogMatched (ae_PrevLogIndex args) (ae_PrevLogTerm args) rf;
          if \<not> matched then do {
            l \<leftarrow> getLatestLog rf;
            let (t, s) = rejectAppendEntry rf;
            if le_Index l < ae_PrevLogIndex args then
              Some (\<lparr>aer_Term = t, aer_Success = s,
                     aer_ConflictIndex = le_Index l + 1, aer_ConflictTerm = -1\<rparr>, rf)
            else do {
              valid \<leftarrow> isValidLogIndex (ae_PrevLogIndex args) rf;
              if \<not> valid then
                Some (\<lparr>aer_Term = t, aer_Success = s,
                       aer_ConflictIndex = firstLogIdx, aer_ConflictTerm = -1\<rparr>, rf)
              else do {
                e \<leftarrow> go_nth (logs rf) (ae_PrevLogIndex args - firstLogIdx);
                let conflictTerm = le_Term e;
                offset \<leftarrow> sort_Search (ae_PrevLogIndex args - firstLogIdx + 1)
                             (conflict_probe (logs rf) conflictTerm);
                Some (\<lparr>aer_Term = t, aer_Success = s,
                       aer_ConflictIndex = firstLogIdx + offset,
                       aer_ConflictTerm = conflictTerm\<rparr>, rf)
              }
            }
          }
          else do {
            rf \<leftarrow> append_entries firstLogIdx (ae_Entries args) rf;
            l \<leftarrow> getLatestLog rf;
            let newCommitIdx = min (ae_LeaderCommit args) (le_Index l);
            let rf = (if newCommitIdx > commitIndex rf
                      then emit [SignalApply] (rf\<lparr>commitIndex := newCommitIdx\<rparr>) else rf);
            Some (\<lparr>aer_Term = currentTerm rf, aer_Success = True,
                   aer_ConflictIndex = 0, aer_ConflictTerm = 0\<rparr>, rf)
          }
        }
      })"

section \<open>Replication: the leader\<close>

definition genAppendEntryArgs :: "int \<Rightarrow> ('c, 'b) Raft \<Rightarrow> 'c AppendEntryArgs option" where
  "genAppendEntryArgs prevLogIndex rf = do {
     f \<leftarrow> getFirstLog rf;
     l \<leftarrow> getLatestLog rf;
     let firstLogIndex = le_Index f;
     let lastLogIndex = le_Index l;
     let prevLogIndex = (if prevLogIndex < firstLogIndex - 1 then firstLogIndex - 1
                         else prevLogIndex);
     let prevLogIndex = (if prevLogIndex > lastLogIndex then lastLogIndex else prevLogIndex);
     prevLogTerm \<leftarrow> (if prevLogIndex \<ge> firstLogIndex \<and>
                        prevLogIndex - firstLogIndex < int (length (logs rf))
                     then do { e \<leftarrow> go_nth (logs rf) (prevLogIndex - firstLogIndex);
                               Some (le_Term e) }
                     else Some 0);
     entries \<leftarrow> slice_from (logs rf) (prevLogIndex - firstLogIndex + 1);
     Some \<lparr>ae_Term = currentTerm rf, ae_LeaderId = me rf,
           ae_PrevLogIndex = prevLogIndex, ae_PrevLogTerm = prevLogTerm,
           ae_Entries = entries, ae_LeaderCommit = commitIndex rf\<rparr>
   }"

definition acceptNewLogEntries ::
  "nat \<Rightarrow> 'c AppendEntryArgs \<Rightarrow> ('c, 'b) Raft \<Rightarrow> ('c, 'b) Raft option" where
  "acceptNewLogEntries peer args rf = do {
     let matchIdx = ae_PrevLogIndex args + int (length (ae_Entries args));
     rf \<leftarrow> updateLogIndices peer matchIdx rf;
     let matchLen = length (matchIndex rf);
     let k = matchLen - (matchLen div 2 + 1);
     newCommitIdx \<leftarrow> QuickSelect (matchIndex rf) k;
     if newCommitIdx > commitIndex rf then do {
       matched \<leftarrow> isLogMatched newCommitIdx (currentTerm rf) rf;
       if matched then Some (emit [SignalApply] (rf\<lparr>commitIndex := newCommitIdx\<rparr>))
       else Some rf
     } else Some rf
   }"

text \<open>The probe of \<open>sort.Search\<close> in \<open>rollBackToConflictTerm\<close>.\<close>

definition rollback_probe :: "'c LogEntry list \<Rightarrow> int \<Rightarrow> int \<Rightarrow> bool option" where
  "rollback_probe ls conflictTerm i = do { e \<leftarrow> go_nth ls i; Some (le_Term e \<ge> conflictTerm) }"

definition rollBackToConflictTerm ::
  "nat \<Rightarrow> 'c AppendEntryArgs \<Rightarrow> AppendEntryReply \<Rightarrow> ('c, 'b) Raft \<Rightarrow> ('c, 'b) Raft option" where
  "rollBackToConflictTerm peer args reply rf = do {
     n \<leftarrow> go_upd (nextIndex rf) (int peer) (aer_ConflictIndex reply);
     let rf = rf\<lparr>nextIndex := n\<rparr>;
     f \<leftarrow> getFirstLog rf;
     let firstLogIdx = le_Index f;
     rf \<leftarrow> (if aer_ConflictTerm reply \<noteq> -1 then do {
              let size = ae_PrevLogIndex args - firstLogIdx;
              offset \<leftarrow> sort_Search size (rollback_probe (logs rf) (aer_ConflictTerm reply));
              let idx = firstLogIdx + offset;
              found \<leftarrow> (if idx \<le> ae_PrevLogIndex args then do {
                          e \<leftarrow> go_nth (logs rf) (idx - firstLogIdx);
                          Some (le_Term e = aer_ConflictTerm reply) } else Some False);
              n \<leftarrow> go_upd (nextIndex rf) (int peer)
                     (if found then idx + 1 else aer_ConflictIndex reply);
              Some (rf\<lparr>nextIndex := n\<rparr>)
            } else Some rf);
     l \<leftarrow> getLatestLog rf;
     let lastLogIdx = le_Index l + 1;
     x \<leftarrow> go_nth (nextIndex rf) (int peer);
     n \<leftarrow> (if x < firstLogIdx then go_upd (nextIndex rf) (int peer) firstLogIdx
           else Some (nextIndex rf));
     y \<leftarrow> go_nth n (int peer);
     n \<leftarrow> (if y > lastLogIdx then go_upd n (int peer) lastLogIdx else Some n);
     Some (rf\<lparr>nextIndex := n\<rparr>)
   }"

text \<open>
  \<open>doSendAppendEntry\<close> up to the point where it releases the lock and calls the peer: the
  request it sends, if any.
\<close>

datatype ('c, 'b) request =
    ReqSnapshot "'b InstallSnapShotArgs"
  | ReqAppend "'c AppendEntryArgs"

definition doSendAppendEntry :: "nat \<Rightarrow> ('c, 'b) Raft \<Rightarrow> ('c, 'b) request option option" where
  "doSendAppendEntry peer rf =
     (if state rf \<noteq> Leader then Some None
      else do {
        n \<leftarrow> go_nth (nextIndex rf) (int peer);
        let prevLogIdx = n - 1;
        f \<leftarrow> getFirstLog rf;
        if prevLogIdx < le_Index f
        then do { args \<leftarrow> makeInstallSnapShotArgs rf; Some (Some (ReqSnapshot args)) }
        else do { args \<leftarrow> genAppendEntryArgs prevLogIdx rf; Some (Some (ReqAppend args)) }
      })"

text \<open>The two continuations, after the call has returned true.\<close>

definition handleInstallSnapShotReply ::
  "nat \<Rightarrow> 'b InstallSnapShotArgs \<Rightarrow> InstallSnapShotReply \<Rightarrow> ('c, 'b) Raft \<Rightarrow> ('c, 'b) Raft option"
where
  "handleInstallSnapShotReply peer args reply rf =
     (if state rf = Leader \<and> currentTerm rf = is_Term args then
        (if isr_Term reply > currentTerm rf then updateTermAndStepDown (isr_Term reply) rf
         else updateLogIndices peer (is_LastIncludedIndex args) rf)
      else Some rf)"

definition handleAppendEntryReply ::
  "nat \<Rightarrow> 'c AppendEntryArgs \<Rightarrow> AppendEntryReply \<Rightarrow> ('c, 'b) Raft \<Rightarrow> ('c, 'b) Raft option" where
  "handleAppendEntryReply peer args reply rf =
     (if \<not> isValidLeader (ae_Term args) rf then Some rf
      else if \<not> aer_Success reply then
        (if aer_Term reply > currentTerm rf then updateTermAndStepDown (aer_Term reply) rf
         else do {
           rf \<leftarrow> rollBackToConflictTerm peer args reply rf;
           Some (emit [SignalReplicate peer] rf)
         })
      else acceptNewLogEntries peer args rf)"

section \<open>Clients, shutdown, timers\<close>

definition Start :: "'c \<Rightarrow> ('c, 'b) Raft \<Rightarrow> ((int \<times> int \<times> bool) \<times> ('c, 'b) Raft) option" where
  "Start command rf =
     (if state rf \<noteq> Leader then Some ((-1, -1, False), rf)
      else do {
        l \<leftarrow> getLatestLog rf;
        let newLatestLogIdx = le_Index l + 1;
        let newLogEntry = \<lparr>le_Command = Some command, le_Term = currentTerm rf,
                           le_Index = newLatestLogIdx\<rparr>;
        let rf = persistState (rf\<lparr>logs := logs rf @ [newLogEntry]\<rparr>);
        rf \<leftarrow> updateLogIndices (me rf) newLatestLogIdx rf;
        let rf = BroadcastAppendEntryMsg False rf;
        Some ((newLatestLogIdx, currentTerm rf, True), rf)
      })"

definition Kill :: "('c, 'b) Raft \<Rightarrow> ('c, 'b) Raft" where
  "Kill rf = emit (SignalApply # map SignalReplicate (filter (\<lambda>p. p \<noteq> me rf) [0..<npeers rf]))
     (rf\<lparr>dead := True\<rparr>)"

definition killed :: "('c, 'b) Raft \<Rightarrow> bool" where
  "killed rf = dead rf"

text \<open>
  \<open>ticker\<close>: one iteration per timer.  Reading the timer's channel consumes the firing, so the
  timer is no longer armed; both are no-ops when the loop has ended.
\<close>

definition ticker_election ::
  "('c, 'b) Raft \<Rightarrow> ((nat \<times> RequestVoteArgs) list \<times> ('c, 'b) Raft) option" where
  "ticker_election rf =
     (if killed rf then Some ([], rf)
      else do {
        let rf = rf\<lparr>electionTimer := False\<rparr>;
        rf \<leftarrow> ChangeState Candidate rf;
        let rf = persistState (rf\<lparr>currentTerm := currentTerm rf + 1\<rparr>);
        (calls, rf) \<leftarrow> LaunchElection rf;
        Some (calls, resetElectionTimer rf)
      })"

definition ticker_heartbeat :: "('c, 'b) Raft \<Rightarrow> ('c, 'b) Raft" where
  "ticker_heartbeat rf =
     (if killed rf then rf
      else let rf = rf\<lparr>heartbeatTimer := False\<rparr> in
        if state rf = Leader
        then (BroadcastAppendEntryMsg True rf)\<lparr>heartbeatTimer := True\<rparr>
        else rf)"

section \<open>The applier and the replicators\<close>

text \<open>
  \<open>applier\<close>: one iteration of its loop.  The inner wait is left when there is work or the
  peer is killed; \<open>ApplierWaits\<close> is the blocked wait and \<open>ApplierReturns\<close> the end of the loop.
  The applier is the only sender on \<open>applyCh\<close>, so the message it sends after releasing the
  lock is the next one on the channel.
\<close>

datatype ('c, 'b) applier_result =
    ApplierWaits
  | ApplierReturns
  | ApplierContinues "('c, 'b) Raft"

definition applier :: "('c, 'b) Raft \<Rightarrow> ('c, 'b) applier_result option" where
  "applier rf =
     (if killed rf then Some ApplierReturns
      else if commitIndex rf \<le> lastApplied rf \<and> pendingSnapshot rf = None then Some ApplierWaits
      else case pendingSnapshot rf of
        Some msg \<Rightarrow> Some (ApplierContinues
                      (rf\<lparr>pendingSnapshot := None, applyCh := applyCh rf @ [msg]\<rparr>))
      | None \<Rightarrow> do {
          f \<leftarrow> getFirstLog rf;
          let firstLogIdx = le_Index f;
          if lastApplied rf < firstLogIdx
          then Some (ApplierContinues (rf\<lparr>lastApplied := firstLogIdx\<rparr>))
          else do {
            let next = lastApplied rf + 1;
            if next > commitIndex rf then Some (ApplierContinues rf)
            else do {
              let logArrayIndex = next - firstLogIdx;
              if logArrayIndex < 0 \<or> logArrayIndex \<ge> int (length (logs rf))
              then Some (ApplierContinues (rf\<lparr>lastApplied := firstLogIdx\<rparr>))
              else do {
                entry \<leftarrow> go_nth (logs rf) logArrayIndex;
                Some (ApplierContinues (rf\<lparr>lastApplied := next, applyCh := applyCh rf @
                  [\<lparr>am_CommandValid = True, am_Command = le_Command entry,
                    am_CommandIndex = le_Index entry, am_SnapshotValid = False,
                    am_Snapshot = [], am_SnapshotTerm = 0, am_SnapshotIndex = 0\<rparr>]\<rparr>))
              }
            }
          }
        })"

definition shouleReplicateLog :: "nat \<Rightarrow> ('c, 'b) Raft \<Rightarrow> bool option" where
  "shouleReplicateLog peer rf =
     (if state rf = Leader then do {
        m \<leftarrow> go_nth (matchIndex rf) (int peer);
        l \<leftarrow> getLatestLog rf;
        Some (m < le_Index l)
      } else Some False)"

datatype ('c, 'b) replicator_result =
    ReplicatorWaits
  | ReplicatorReturns
  | ReplicatorSends "('c, 'b) request option"

definition replicator :: "nat \<Rightarrow> ('c, 'b) Raft \<Rightarrow> ('c, 'b) replicator_result option" where
  "replicator peer rf =
     (if killed rf then Some ReplicatorReturns
      else do {
        b \<leftarrow> shouleReplicateLog peer rf;
        if \<not> b then Some ReplicatorWaits
        else do { r \<leftarrow> doSendAppendEntry peer rf; Some (ReplicatorSends r) }
      })"

section \<open>Construction\<close>

text \<open>The loop of \<open>Make\<close> over the peers.\<close>

primrec init_peers :: "nat list \<Rightarrow> ('c, 'b) Raft \<Rightarrow> ('c, 'b) Raft option" where
  "init_peers [] rf = Some rf"
| "init_peers (peer # ps) rf = do {
     rf \<leftarrow> updateLogIndices peer 0 rf;
     l \<leftarrow> getLatestLog rf;
     n \<leftarrow> go_upd (nextIndex rf) (int peer) (le_Index l + 1);
     init_peers ps (rf\<lparr>nextIndex := n\<rparr>)
   }"

definition Make :: "nat \<Rightarrow> nat \<Rightarrow> ('c, 'b) disk \<Rightarrow> ('c, 'b) Raft option" where
  "Make np self d = do {
     let rf = \<lparr>npeers = np, persister = d, me = self, dead = False,
               currentTerm = 0, voteFor = -1, commitIndex = 0, lastApplied = 0,
               state = Follower, nextIndex = replicate np 0,
               matchIndex = replicate np 0, electionTimer = True, heartbeatTimer = True,
               applyCh = [], logs = [\<lparr>le_Command = None, le_Term = 0, le_Index = 0\<rparr>],
               lastIncludedIndex = 0, lastIncludedTerm = 0, pendingSnapshot = None,
               grantedVotes = Map.empty, effects = []\<rparr>;
     rf \<leftarrow> init_peers [0..<np] rf;
     readPersist (ReadRaftState d) rf
   }"

end
