(* ===== verification/RaftInv.thy ===== *)
theory RaftInv
  imports Raft
begin

text \<open>
  The invariant of one Raft peer and the behaviour of its methods under it.  \<open>log_ok\<close> says the
  log is a non-empty run of consecutive indices; \<open>raft_wf\<close> adds that its terms never decrease
  and do not exceed the current term, that the per-peer arrays have one cell per peer, and
  that the snapshot point is the first entry.  Under \<open>raft_wf\<close> no method panics: each one has
  a closed form, collected in \<open>raft_total\<close>.
\<close>

named_theorems raft_total \<open>closed forms of the Raft methods on well-formed peers\<close>

section \<open>Logs\<close>

definition log_ok :: "'c LogEntry list \<Rightarrow> bool" where
  "log_ok ls \<longleftrightarrow> ls \<noteq> [] \<and> (\<forall>k < length ls. le_Index (ls ! k) = le_Index (hd ls) + int k)"

definition firstIdx :: "'c LogEntry list \<Rightarrow> int" where
  "firstIdx ls = le_Index (hd ls)"

definition lastIdx :: "'c LogEntry list \<Rightarrow> int" where
  "lastIdx ls = le_Index (last ls)"

definition termAt :: "'c LogEntry list \<Rightarrow> int \<Rightarrow> int" where
  "termAt ls i = le_Term (ls ! nat (i - firstIdx ls))"

definition terms_ok :: "'c LogEntry list \<Rightarrow> bool" where
  "terms_ok ls \<longleftrightarrow> sorted (map le_Term ls)"

lemma log_ok_nonempty [simp]: "log_ok ls \<Longrightarrow> ls \<noteq> []"
  by (simp add: log_ok_def)

lemma log_ok_length [simp]: "log_ok ls \<Longrightarrow> 0 < length ls"
  by (simp add: log_ok_def)

lemma log_ok_index: "log_ok ls \<Longrightarrow> k < length ls \<Longrightarrow> le_Index (ls ! k) = firstIdx ls + int k"
  by (simp add: log_ok_def firstIdx_def)

lemma log_ok_lastIdx: "log_ok ls \<Longrightarrow> lastIdx ls = firstIdx ls + int (length ls) - 1"
  using log_ok_index [of ls "length ls - 1"] log_ok_length [of ls]
  by (simp add: lastIdx_def last_conv_nth of_nat_diff Suc_leI)

lemma log_ok_first_le_last: "log_ok ls \<Longrightarrow> firstIdx ls \<le> lastIdx ls"
  by (simp add: log_ok_lastIdx log_ok_def Suc_leI)

lemma log_ok_bound:
  "log_ok ls \<Longrightarrow> i \<le> lastIdx ls \<longleftrightarrow> i - firstIdx ls < int (length ls)"
  by (auto simp: log_ok_lastIdx)

lemma log_ok_single [simp]: "log_ok (generateSingleLog i t)"
  by (simp add: log_ok_def generateSingleLog_def)

lemma generateSingleLog_simps [simp]:
  "firstIdx (generateSingleLog i t) = i" "lastIdx (generateSingleLog i t) = i"
  "hd (generateSingleLog i t @ ls) = \<lparr>le_Command = None, le_Term = t, le_Index = i\<rparr>"
  "hd (generateSingleLog i t) = \<lparr>le_Command = None, le_Term = t, le_Index = i\<rparr>"
  "generateSingleLog i t \<noteq> []" "length (generateSingleLog i t) = 1"
  "terms_ok (generateSingleLog i t)"
  by (simp_all add: firstIdx_def lastIdx_def generateSingleLog_def terms_ok_def)

lemma log_okI:
  assumes "ls \<noteq> []" and "\<And>k. k < length ls \<Longrightarrow> le_Index (ls ! k) = i + int k"
  shows "log_ok ls"
proof -
  have "le_Index (hd ls) = i" using assms(2) [of 0] assms(1) by (simp add: hd_conv_nth)
  then show ?thesis using assms by (simp add: log_ok_def)
qed

lemma log_ok_drop: "log_ok ls \<Longrightarrow> n < length ls \<Longrightarrow> log_ok (drop n ls)"
  by (rule log_okI [of _ "firstIdx ls + int n"]) (auto simp: log_ok_index)

lemma firstIdx_drop: "log_ok ls \<Longrightarrow> n < length ls \<Longrightarrow> firstIdx (drop n ls) = firstIdx ls + int n"
  by (simp add: firstIdx_def hd_drop_conv_nth) (simp add: log_ok_index flip: firstIdx_def)

lemma lastIdx_drop: "n < length ls \<Longrightarrow> lastIdx (drop n ls) = lastIdx ls"
  by (simp add: lastIdx_def)

text \<open>The same condition by recursion, for evaluation on concrete logs.\<close>

fun contig :: "int \<Rightarrow> 'c LogEntry list \<Rightarrow> bool" where
  "contig i [] = True"
| "contig i (x # xs) = (le_Index x = i \<and> contig (i + 1) xs)"

lemma contig_iff: "contig i ls \<longleftrightarrow> (\<forall>k < length ls. le_Index (ls ! k) = i + int k)"
proof (induction ls arbitrary: i)
  case (Cons x ls)
  then show ?case by (auto simp: less_Suc_eq_0_disj add.assoc)
qed simp

lemma log_ok_Cons: "log_ok (e # es) \<longleftrightarrow> contig (le_Index e) (e # es)"
  by (simp only: contig_iff) (simp add: log_ok_def)

text \<open>A prefix followed by entries that continue it.\<close>

lemma log_ok_append:
  assumes "log_ok ls" and "0 < k" and "k \<le> length ls"
    and "\<And>m. m < length es \<Longrightarrow> le_Index (es ! m) = firstIdx ls + int k + int m"
  shows "log_ok (take k ls @ es)"
proof (rule log_okI [of _ "firstIdx ls"])
  show "take k ls @ es \<noteq> []" using assms(1-3) by auto
  fix m assume "m < length (take k ls @ es)"
  then show "le_Index ((take k ls @ es) ! m) = firstIdx ls + int m"
    using assms by (cases "m < k") (auto simp: nth_append log_ok_index min_def)
qed

lemma firstIdx_take_append: "0 < k \<Longrightarrow> ls \<noteq> [] \<Longrightarrow> firstIdx (take k ls @ es) = firstIdx ls"
  by (cases ls; cases k) (auto simp: firstIdx_def)

section \<open>Log access on well-formed logs\<close>

lemma getFirstLog_ok [raft_total]: "log_ok (logs rf) \<Longrightarrow> getFirstLog rf = Some (hd (logs rf))"
  by (simp add: getFirstLog_def go_simps hd_conv_nth)

lemma getLatestLog_ok [raft_total]: "log_ok (logs rf) \<Longrightarrow> getLatestLog rf = Some (last (logs rf))"
  by (simp add: getLatestLog_def go_nth_def last_conv_nth nat_diff_distrib Suc_leI)

lemma isLogUpdateToDate_ok [raft_total]:
  "log_ok (logs rf) \<Longrightarrow> isLogUpdateToDate i t rf =
     Some (t > le_Term (last (logs rf)) \<or> (t = le_Term (last (logs rf)) \<and> i \<ge> lastIdx (logs rf)))"
  by (simp add: isLogUpdateToDate_def raft_total lastIdx_def)

lemma isValidLogIndex_ok [raft_total]:
  "log_ok (logs rf) \<Longrightarrow> isValidLogIndex i rf =
     Some (firstIdx (logs rf) \<le> i \<and> i \<le> lastIdx (logs rf))"
  by (auto simp: isValidLogIndex_def raft_total log_ok_bound firstIdx_def Let_def)

lemma isLogMatched_ok [raft_total]:
  assumes "log_ok (logs rf)"
  shows "isLogMatched i t rf =
     Some (firstIdx (logs rf) \<le> i \<and> i \<le> lastIdx (logs rf) \<and> t = termAt (logs rf) i)"
proof -
  have "go_nth (logs rf) (i - le_Index (hd (logs rf))) = Some (logs rf ! nat (i - firstIdx (logs rf)))"
    if "firstIdx (logs rf) \<le> i" "i \<le> lastIdx (logs rf)"
    using that assms by (simp add: go_nth_def log_ok_bound flip: firstIdx_def)
  then show ?thesis
    using assms by (auto simp: isLogMatched_def raft_total termAt_def firstIdx_def lastIdx_def)
qed

section \<open>The invariant of a peer\<close>

definition arrays_ok :: "('c, 'b) Raft \<Rightarrow> bool" where
  "arrays_ok rf \<longleftrightarrow> length (nextIndex rf) = npeers rf \<and> length (matchIndex rf) = npeers rf
     \<and> me rf < npeers rf"

definition raft_wf :: "('c, 'b) Raft \<Rightarrow> bool" where
  "raft_wf rf \<longleftrightarrow> log_ok (logs rf) \<and> terms_ok (logs rf) \<and> arrays_ok rf
     \<and> (\<forall>e \<in> set (logs rf). le_Term e \<le> currentTerm rf)
     \<and> lastIncludedIndex rf = firstIdx (logs rf) \<and> lastIncludedTerm rf = le_Term (hd (logs rf))"

lemma raft_wf_log: "raft_wf rf \<Longrightarrow> log_ok (logs rf)"
  by (simp add: raft_wf_def)

lemma raft_wf_arrays: "raft_wf rf \<Longrightarrow> arrays_ok rf"
  by (simp add: raft_wf_def)

section \<open>Closed forms of the role changes\<close>

lemma updateLogIndices_ok [raft_total]:
  "arrays_ok rf \<Longrightarrow> peer < npeers rf \<Longrightarrow> updateLogIndices peer m rf =
     Some (rf\<lparr>matchIndex := (matchIndex rf)[peer := m], nextIndex := (nextIndex rf)[peer := m + 1]\<rparr>)"
  by (simp add: updateLogIndices_def arrays_ok_def go_simps)

lemma reset_peers_from:
  assumes "i \<le> n" and "length (nextIndex rf) = n" and "length (matchIndex rf) = n"
  shows "reset_peers [i..<n] l rf =
     Some (rf\<lparr>nextIndex := take i (nextIndex rf) @ replicate (n - i) (l + 1),
             matchIndex := take i (matchIndex rf) @ replicate (n - i) 0\<rparr>)"
  using assms
proof (induction "n - i" arbitrary: i rf)
  case 0
  then show ?case by simp
next
  case (Suc m)
  then have i: "i < n" by simp
  have tk: "take (Suc i) (xs[i := v]) = take i xs @ [v]" if "length xs = n" for xs and v :: int
    using i that by (simp add: take_Suc_conv_app_nth)
  have rep: "replicate (n - i) v = v # replicate (n - Suc i) v" for v :: int
    using i by (simp add: Suc_diff_Suc flip: replicate_Suc)
  show ?case
    using Suc.hyps(1) [of "Suc i" "rf\<lparr>nextIndex := (nextIndex rf)[i := l + 1],
        matchIndex := (matchIndex rf)[i := 0]\<rparr>"] Suc.hyps(2) Suc.prems i
    by (simp add: upt_conv_Cons go_simps tk rep)
qed

definition toFollower :: "('c, 'b) Raft \<Rightarrow> ('c, 'b) Raft" where
  "toFollower rf = (if state rf = Follower then rf
     else rf\<lparr>state := Follower, electionTimer := True, heartbeatTimer := False\<rparr>)"

definition toLeader :: "('c, 'b) Raft \<Rightarrow> ('c, 'b) Raft" where
  "toLeader rf = (if state rf = Leader then rf
     else rf\<lparr>state := Leader, electionTimer := False, heartbeatTimer := True,
            nextIndex := replicate (npeers rf) (lastIdx (logs rf) + 1),
            matchIndex := (replicate (npeers rf) 0)[me rf := lastIdx (logs rf)]\<rparr>)"

lemma ChangeState_Follower [raft_total]: "ChangeState Follower rf = Some (toFollower rf)"
  by (simp add: ChangeState_def toFollower_def resetElectionTimer_def)

lemma ChangeState_Candidate [raft_total]: "ChangeState Candidate rf = Some (rf\<lparr>state := Candidate\<rparr>)"
  by (cases rf) (simp add: ChangeState_def)

lemma ChangeState_Leader [raft_total]:
  assumes "log_ok (logs rf)" and "arrays_ok rf"
  shows "ChangeState Leader rf = Some (toLeader rf)"
proof -
  have "reset_peers [0..<npeers rf] l (rf\<lparr>state := Leader, electionTimer := False, heartbeatTimer := True\<rparr>)
     = Some (rf\<lparr>state := Leader, electionTimer := False, heartbeatTimer := True,
           nextIndex := replicate (npeers rf) (l + 1), matchIndex := replicate (npeers rf) 0\<rparr>)" for l
    using assms(2) by (subst reset_peers_from) (auto simp: arrays_ok_def)
  moreover have "(replicate n v)[i := v] = replicate n v" for n i and v :: int
    by (cases "i < n") (simp_all add: list_update_same_conv list_update_beyond)
  ultimately show ?thesis
    using assms by (auto simp: ChangeState_def toLeader_def getLatestLog_ok updateLogIndices_ok
        arrays_ok_def lastIdx_def)
qed

definition stepDown :: "int \<Rightarrow> ('c, 'b) Raft \<Rightarrow> ('c, 'b) Raft" where
  "stepDown t rf = (if t > currentTerm rf
     then persistState (toFollower (rf\<lparr>currentTerm := t, voteFor := -1\<rparr>)) else rf)"

lemma updateTermAndStepDown_ok [raft_total]: "updateTermAndStepDown t rf = Some (stepDown t rf)"
  by (simp add: updateTermAndStepDown_def stepDown_def ChangeState_Follower)

section \<open>What the small updates leave alone\<close>

lemma persist_simps [simp]:
  "npeers (persist s rf) = npeers rf" "me (persist s rf) = me rf" "dead (persist s rf) = dead rf"
  "currentTerm (persist s rf) = currentTerm rf" "voteFor (persist s rf) = voteFor rf"
  "commitIndex (persist s rf) = commitIndex rf" "lastApplied (persist s rf) = lastApplied rf"
  "state (persist s rf) = state rf" "nextIndex (persist s rf) = nextIndex rf"
  "matchIndex (persist s rf) = matchIndex rf" "electionTimer (persist s rf) = electionTimer rf"
  "heartbeatTimer (persist s rf) = heartbeatTimer rf" "applyCh (persist s rf) = applyCh rf"
  "logs (persist s rf) = logs rf" "lastIncludedIndex (persist s rf) = lastIncludedIndex rf"
  "lastIncludedTerm (persist s rf) = lastIncludedTerm rf"
  "pendingSnapshot (persist s rf) = pendingSnapshot rf"
  "grantedVotes (persist s rf) = grantedVotes rf" "effects (persist s rf) = effects rf"
  by (simp_all add: persist_def Let_def split: option.splits)

lemmas persistState_simps [simp] = persist_simps [of None, folded persistState_def]

lemma resetElectionTimer_simps [simp]:
  "npeers (resetElectionTimer rf) = npeers rf" "me (resetElectionTimer rf) = me rf"
  "dead (resetElectionTimer rf) = dead rf" "persister (resetElectionTimer rf) = persister rf"
  "currentTerm (resetElectionTimer rf) = currentTerm rf"
  "voteFor (resetElectionTimer rf) = voteFor rf"
  "commitIndex (resetElectionTimer rf) = commitIndex rf"
  "lastApplied (resetElectionTimer rf) = lastApplied rf" "state (resetElectionTimer rf) = state rf"
  "nextIndex (resetElectionTimer rf) = nextIndex rf"
  "matchIndex (resetElectionTimer rf) = matchIndex rf"
  "electionTimer (resetElectionTimer rf)" "heartbeatTimer (resetElectionTimer rf) = heartbeatTimer rf"
  "logs (resetElectionTimer rf) = logs rf" "applyCh (resetElectionTimer rf) = applyCh rf"
  "lastIncludedIndex (resetElectionTimer rf) = lastIncludedIndex rf"
  "lastIncludedTerm (resetElectionTimer rf) = lastIncludedTerm rf"
  "pendingSnapshot (resetElectionTimer rf) = pendingSnapshot rf"
  "grantedVotes (resetElectionTimer rf) = grantedVotes rf"
  "effects (resetElectionTimer rf) = effects rf"
  by (simp_all add: resetElectionTimer_def)

lemma emit_simps [simp]:
  "npeers (emit es rf) = npeers rf" "me (emit es rf) = me rf"
  "dead (emit es rf) = dead rf" "persister (emit es rf) = persister rf"
  "currentTerm (emit es rf) = currentTerm rf" "voteFor (emit es rf) = voteFor rf"
  "commitIndex (emit es rf) = commitIndex rf" "lastApplied (emit es rf) = lastApplied rf"
  "state (emit es rf) = state rf" "nextIndex (emit es rf) = nextIndex rf"
  "matchIndex (emit es rf) = matchIndex rf" "electionTimer (emit es rf) = electionTimer rf"
  "heartbeatTimer (emit es rf) = heartbeatTimer rf" "logs (emit es rf) = logs rf"
  "applyCh (emit es rf) = applyCh rf" "lastIncludedIndex (emit es rf) = lastIncludedIndex rf"
  "lastIncludedTerm (emit es rf) = lastIncludedTerm rf"
  "pendingSnapshot (emit es rf) = pendingSnapshot rf"
  "grantedVotes (emit es rf) = grantedVotes rf" "effects (emit es rf) = effects rf @ es"
  by (simp_all add: emit_def)

lemmas Broadcast_simps [simp] =
  emit_simps [of "map (\<lambda>peer. if h then GoSendAppendEntry peer else SignalReplicate peer)
             (filter (\<lambda>peer. peer \<noteq> me rf) [0..<npeers rf])" rf for h rf,
    folded BroadcastAppendEntryMsg_def]

lemma toFollower_simps [simp]:
  "npeers (toFollower rf) = npeers rf" "me (toFollower rf) = me rf"
  "dead (toFollower rf) = dead rf" "persister (toFollower rf) = persister rf"
  "currentTerm (toFollower rf) = currentTerm rf" "voteFor (toFollower rf) = voteFor rf"
  "commitIndex (toFollower rf) = commitIndex rf" "lastApplied (toFollower rf) = lastApplied rf"
  "state (toFollower rf) = Follower" "nextIndex (toFollower rf) = nextIndex rf"
  "matchIndex (toFollower rf) = matchIndex rf" "logs (toFollower rf) = logs rf"
  "applyCh (toFollower rf) = applyCh rf" "lastIncludedIndex (toFollower rf) = lastIncludedIndex rf"
  "lastIncludedTerm (toFollower rf) = lastIncludedTerm rf"
  "pendingSnapshot (toFollower rf) = pendingSnapshot rf"
  "grantedVotes (toFollower rf) = grantedVotes rf" "effects (toFollower rf) = effects rf"
  by (simp_all add: toFollower_def)

lemma toLeader_simps [simp]:
  "npeers (toLeader rf) = npeers rf" "me (toLeader rf) = me rf"
  "dead (toLeader rf) = dead rf" "persister (toLeader rf) = persister rf"
  "currentTerm (toLeader rf) = currentTerm rf" "voteFor (toLeader rf) = voteFor rf"
  "commitIndex (toLeader rf) = commitIndex rf" "lastApplied (toLeader rf) = lastApplied rf"
  "state (toLeader rf) = Leader" "logs (toLeader rf) = logs rf"
  "applyCh (toLeader rf) = applyCh rf" "lastIncludedIndex (toLeader rf) = lastIncludedIndex rf"
  "lastIncludedTerm (toLeader rf) = lastIncludedTerm rf"
  "pendingSnapshot (toLeader rf) = pendingSnapshot rf"
  "grantedVotes (toLeader rf) = grantedVotes rf" "effects (toLeader rf) = effects rf"
  by (simp_all add: toLeader_def)

lemma stepDown_simps [simp]:
  "npeers (stepDown t rf) = npeers rf" "me (stepDown t rf) = me rf"
  "dead (stepDown t rf) = dead rf" "currentTerm (stepDown t rf) = max t (currentTerm rf)"
  "commitIndex (stepDown t rf) = commitIndex rf" "lastApplied (stepDown t rf) = lastApplied rf"
  "nextIndex (stepDown t rf) = nextIndex rf"
  "matchIndex (stepDown t rf) = matchIndex rf" "logs (stepDown t rf) = logs rf"
  "applyCh (stepDown t rf) = applyCh rf" "lastIncludedIndex (stepDown t rf) = lastIncludedIndex rf"
  "lastIncludedTerm (stepDown t rf) = lastIncludedTerm rf"
  "pendingSnapshot (stepDown t rf) = pendingSnapshot rf"
  "grantedVotes (stepDown t rf) = grantedVotes rf" "effects (stepDown t rf) = effects rf"
  by (simp_all add: stepDown_def)

lemma stepDown_le [simp]: "t \<le> currentTerm rf \<Longrightarrow> stepDown t rf = rf"
  by (simp add: stepDown_def)

section \<open>Construction and restart\<close>

text \<open>A peer just after \<open>Make\<close> has run on an empty disk.\<close>

definition boot :: "nat \<Rightarrow> nat \<Rightarrow> ('c, 'b) disk \<Rightarrow> ('c, 'b) Raft" where
  "boot n i d = \<lparr>npeers = n, persister = d, me = i, dead = False,
     currentTerm = 0, voteFor = -1, commitIndex = 0, lastApplied = 0,
     state = Follower, nextIndex = replicate n 1, matchIndex = replicate n 0,
     electionTimer = True, heartbeatTimer = True, applyCh = [],
     logs = generateSingleLog 0 0, lastIncludedIndex = 0, lastIncludedTerm = 0,
     pendingSnapshot = None, grantedVotes = Map.empty, effects = []\<rparr>"

lemma init_peers_from:
  assumes "i \<le> n" and "length (nextIndex rf) = n" and "length (matchIndex rf) = n"
    and "logs rf = generateSingleLog 0 0"
  shows "init_peers [i..<n] rf =
     Some (rf\<lparr>nextIndex := take i (nextIndex rf) @ replicate (n - i) 1,
             matchIndex := take i (matchIndex rf) @ replicate (n - i) 0\<rparr>)"
  using assms
proof (induction "n - i" arbitrary: i rf)
  case 0
  then show ?case by simp
next
  case (Suc m)
  then have i: "i < n" by simp
  have tk: "take (Suc i) (xs[i := v]) = take i xs @ [v]" if "length xs = n" for xs and v :: int
    using i that by (simp add: take_Suc_conv_app_nth)
  have rep: "replicate (n - i) v = v # replicate (n - Suc i) v" for v :: int
    using i by (simp add: Suc_diff_Suc flip: replicate_Suc)
  have "log_ok (logs rf)" using Suc.prems(4) by simp
  then have gl: "getLatestLog (rf\<lparr>matchIndex := a, nextIndex := b\<rparr>) = Some (last (logs rf))" for a b
    by (simp add: getLatestLog_ok)
  show ?case
    using Suc.hyps(1) [of "Suc i" "rf\<lparr>matchIndex := (matchIndex rf)[i := 0],
        nextIndex := (nextIndex rf)[i := 1]\<rparr>"] Suc.hyps(2) Suc.prems i
    by (simp add: upt_conv_Cons go_simps tk rep updateLogIndices_def gl)
       (simp add: generateSingleLog_def go_simps)
qed

lemma Make_boot: "Make n i d = readPersist (ReadRaftState d) (boot n i d)"
  by (simp add: Make_def init_peers_from boot_def generateSingleLog_def)

lemma Make_fresh [raft_total]: "ReadRaftState d = [] \<Longrightarrow> Make n i d = Some (boot n i d)"
  by (simp add: Make_boot readPersist_def)

lemma boot_wf: "i < n \<Longrightarrow> raft_wf (boot n i d)"
  by (simp add: raft_wf_def boot_def arrays_ok_def generateSingleLog_def log_ok_def terms_ok_def
      firstIdx_def)

end
