(* ===== verification/RaftFollower.thy ===== *)
theory RaftFollower
  imports RaftInv
begin

text \<open>
  The follower's side of log replication: what \<open>AppendEntry\<close> does to the log, which requests it
  accepts, what it tells the leader when it refuses, and how far it advances the commit index.
\<close>

section \<open>The log after a successful AppendEntry\<close>

text \<open>
  The specification of the append loop on the part of the log after \<open>PrevLogIndex\<close>: keep
  entries while the terms agree, replace everything from the first difference on.
\<close>

fun merge_tail :: "'c LogEntry list \<Rightarrow> 'c LogEntry list \<Rightarrow> 'c LogEntry list" where
  "merge_tail ys [] = ys"
| "merge_tail [] (e # es) = e # es"
| "merge_tail (y # ys) (e # es) =
     (if le_Term y = le_Term e then y # merge_tail ys es else e # es)"

fun covers :: "'c LogEntry list \<Rightarrow> 'c LogEntry list \<Rightarrow> bool" where
  "covers ys [] = True"
| "covers [] (e # es) = False"
| "covers (y # ys) (e # es) = (le_Term y = le_Term e \<and> covers ys es)"

lemma covers_merge_tail: "covers ys es \<Longrightarrow> merge_tail ys es = ys"
  by (induction ys es rule: covers.induct) auto

lemma covers_iff:
  "covers ys es \<longleftrightarrow> length es \<le> length ys \<and> (\<forall>m < length es. le_Term (ys ! m) = le_Term (es ! m))"
proof (induction ys es rule: covers.induct)
  case (3 y ys e es)
  then show ?case by (auto simp: less_Suc_eq_0_disj)
qed auto

lemma length_merge_tail:
  "length (merge_tail ys es) = (if covers ys es then length ys else length es)"
  by (induction ys es rule: merge_tail.induct) auto

lemma merge_tail_terms:
  "m < length es \<Longrightarrow> m < length (merge_tail ys es) \<and> le_Term (merge_tail ys es ! m) = le_Term (es ! m)"
proof (induction ys es arbitrary: m rule: merge_tail.induct)
  case (3 y ys e es)
  then show ?case by (cases m) auto
qed auto

lemma merge_tail_index:
  assumes "\<And>m. m < length ys \<Longrightarrow> le_Index (ys ! m) = i + int m"
    and "\<And>m. m < length es \<Longrightarrow> le_Index (es ! m) = i + int m"
    and "m < length (merge_tail ys es)"
  shows "le_Index (merge_tail ys es ! m) = i + int m"
  using assms
proof (induction ys es arbitrary: m i rule: merge_tail.induct)
  case (3 y ys e es)
  show ?case
  proof (cases "le_Term y = le_Term e")
    case True
    have y: "le_Index (ys ! k) = (i + 1) + int k" if "k < length ys" for k
      using "3.prems"(1) [of "Suc k"] that by simp
    have e: "le_Index (es ! k) = (i + 1) + int k" if "k < length es" for k
      using "3.prems"(2) [of "Suc k"] that by simp
    show ?thesis
    proof (cases m)
      case 0
      then show ?thesis using True "3.prems"(1) [of 0] by simp
    next
      case (Suc k)
      then show ?thesis using "3.IH" [OF True y e, of k] "3.prems"(3) True by simp
    qed
  next
    case False
    then show ?thesis using "3.prems" by simp
  qed
qed auto

lemma set_merge_tail: "set (merge_tail ys es) \<subseteq> set ys \<union> set es"
  by (induction ys es rule: merge_tail.induct) auto

lemma sorted_merge_tail:
  "sorted (t # map le_Term ys) \<Longrightarrow> sorted (t # map le_Term es) \<Longrightarrow>
     sorted (t # map le_Term (merge_tail ys es))"
proof (induction ys es arbitrary: t rule: merge_tail.induct)
  case (3 y ys e es)
  show ?case
  proof (cases "le_Term y = le_Term e")
    case True
    then have "sorted (le_Term y # map le_Term (merge_tail ys es))"
      using "3.IH" [OF True, of "le_Term y"] "3.prems" by simp
    then show ?thesis using True "3.prems" by auto
  next
    case False
    then show ?thesis using "3.prems" by simp
  qed
qed auto

definition merge_log :: "int \<Rightarrow> 'c LogEntry list \<Rightarrow> 'c LogEntry list \<Rightarrow> 'c LogEntry list" where
  "merge_log prev es ls =
     (let k = nat (prev + 1 - firstIdx ls) in take k ls @ merge_tail (drop k ls) es)"

lemma append_entries_from:
  assumes "log_ok (logs rf)" and "0 < k" and "k \<le> length (logs rf)"
    and "\<And>m. m < length es \<Longrightarrow> le_Index (es ! m) = firstIdx (logs rf) + int k + int m"
  shows "append_entries (firstIdx (logs rf)) es rf =
     Some (if covers (drop k (logs rf)) es then rf
           else persistState (rf\<lparr>logs := take k (logs rf) @ merge_tail (drop k (logs rf)) es\<rparr>))"
  using assms(2-4)
proof (induction es arbitrary: k)
  case Nil
  then show ?case by simp
next
  case (Cons e es)
  let ?ls = "logs rf"
  have ie: "le_Index e - firstIdx ?ls = int k" using Cons.prems(3) [of 0] by simp
  show ?case
  proof (cases "k < length ?ls")
    case False
    then show ?thesis using Cons.prems ie by (simp add: slice_to_def)
  next
    case k: True
    then have dk: "drop k ?ls = ?ls ! k # drop (Suc k) ?ls" by (simp add: Cons_nth_drop_Suc)
    show ?thesis
    proof (cases "le_Term (?ls ! k) = le_Term e")
      case False
      then show ?thesis using k ie dk by (simp add: go_simps slice_to_def)
    next
      case True
      have next_k: "le_Index (es ! m) = firstIdx ?ls + int (Suc k) + int m" if "m < length es" for m
        using Cons.prems(3) [of "Suc m"] that by simp
      have tk: "take (Suc k) ?ls = take k ?ls @ [?ls ! k]"
        using k by (rule take_Suc_conv_app_nth)
      have "append_entries (firstIdx ?ls) (e # es) rf = append_entries (firstIdx ?ls) es rf"
        using k ie True by (simp add: go_simps)
      also have "\<dots> = Some (if covers (drop (Suc k) ?ls) es then rf
           else persistState (rf\<lparr>logs := take (Suc k) ?ls @ merge_tail (drop (Suc k) ?ls) es\<rparr>))"
        using Cons.IH [of "Suc k"] k next_k by simp
      finally show ?thesis using True by (simp add: dk tk)
    qed
  qed
qed

section \<open>Well-formed requests\<close>

definition ae_wf :: "'c AppendEntryArgs \<Rightarrow> bool" where
  "ae_wf args \<longleftrightarrow>
     (\<forall>m < length (ae_Entries args).
        le_Index (ae_Entries args ! m) = ae_PrevLogIndex args + 1 + int m)
     \<and> sorted (ae_PrevLogTerm args # map le_Term (ae_Entries args))
     \<and> (\<forall>e \<in> set (ae_Entries args). le_Term e \<le> ae_Term args)"

definition matches :: "'c AppendEntryArgs \<Rightarrow> 'c LogEntry list \<Rightarrow> bool" where
  "matches args ls \<longleftrightarrow> firstIdx ls \<le> ae_PrevLogIndex args \<and> ae_PrevLogIndex args \<le> lastIdx ls
     \<and> ae_PrevLogTerm args = termAt ls (ae_PrevLogIndex args)"

definition asFollower :: "int \<Rightarrow> ('c, 'b) Raft \<Rightarrow> ('c, 'b) Raft" where
  "asFollower t rf = resetElectionTimer (toFollower (stepDown t rf))"

lemma asFollower_simps [simp]:
  "npeers (asFollower t rf) = npeers rf" "me (asFollower t rf) = me rf"
  "dead (asFollower t rf) = dead rf" "currentTerm (asFollower t rf) = max t (currentTerm rf)"
  "commitIndex (asFollower t rf) = commitIndex rf" "lastApplied (asFollower t rf) = lastApplied rf"
  "nextIndex (asFollower t rf) = nextIndex rf" "state (asFollower t rf) = Follower"
  "matchIndex (asFollower t rf) = matchIndex rf" "logs (asFollower t rf) = logs rf"
  "applyCh (asFollower t rf) = applyCh rf" "electionTimer (asFollower t rf)"
  "lastIncludedIndex (asFollower t rf) = lastIncludedIndex rf"
  "lastIncludedTerm (asFollower t rf) = lastIncludedTerm rf"
  "pendingSnapshot (asFollower t rf) = pendingSnapshot rf"
  "grantedVotes (asFollower t rf) = grantedVotes rf" "effects (asFollower t rf) = effects rf"
  by (simp_all add: asFollower_def)

lemma asFollower_wf: "raft_wf rf \<Longrightarrow> raft_wf (asFollower t rf)"
  by (auto simp: raft_wf_def arrays_ok_def)

text \<open>The state after the append loop.\<close>

definition appended :: "'c AppendEntryArgs \<Rightarrow> ('c, 'b) Raft \<Rightarrow> ('c, 'b) Raft" where
  "appended args rf =
     (if covers (drop (nat (ae_PrevLogIndex args + 1 - firstIdx (logs rf))) (logs rf)) (ae_Entries args)
      then rf else persistState (rf\<lparr>logs := merge_log (ae_PrevLogIndex args) (ae_Entries args) (logs rf)\<rparr>))"

lemma logs_appended:
  "logs (appended args rf) = merge_log (ae_PrevLogIndex args) (ae_Entries args) (logs rf)"
  by (simp add: appended_def merge_log_def Let_def covers_merge_tail)

lemma appended_simps [simp]:
  "npeers (appended a rf) = npeers rf" "me (appended a rf) = me rf" "dead (appended a rf) = dead rf"
  "currentTerm (appended a rf) = currentTerm rf" "voteFor (appended a rf) = voteFor rf"
  "commitIndex (appended a rf) = commitIndex rf" "lastApplied (appended a rf) = lastApplied rf"
  "state (appended a rf) = state rf" "nextIndex (appended a rf) = nextIndex rf"
  "matchIndex (appended a rf) = matchIndex rf" "electionTimer (appended a rf) = electionTimer rf"
  "heartbeatTimer (appended a rf) = heartbeatTimer rf" "applyCh (appended a rf) = applyCh rf"
  "lastIncludedIndex (appended a rf) = lastIncludedIndex rf"
  "lastIncludedTerm (appended a rf) = lastIncludedTerm rf"
  "pendingSnapshot (appended a rf) = pendingSnapshot rf"
  "grantedVotes (appended a rf) = grantedVotes rf" "effects (appended a rf) = effects rf"
  by (simp_all add: appended_def)

lemma append_entries_ok [raft_total]:
  assumes "log_ok (logs rf)" and "ae_wf args"
    and "firstIdx (logs rf) \<le> ae_PrevLogIndex args" and "ae_PrevLogIndex args \<le> lastIdx (logs rf)"
  shows "append_entries (firstIdx (logs rf)) (ae_Entries args) rf = Some (appended args rf)"
proof -
  let ?k = "nat (ae_PrevLogIndex args + 1 - firstIdx (logs rf))"
  have "0 < ?k" "?k \<le> length (logs rf)" using assms by (auto simp: log_ok_lastIdx)
  moreover have "le_Index (ae_Entries args ! m) = firstIdx (logs rf) + int ?k + int m"
    if "m < length (ae_Entries args)" for m
    using assms that by (auto simp: ae_wf_def)
  ultimately show ?thesis
    using append_entries_from [OF assms(1), of ?k "ae_Entries args"]
    by (simp add: appended_def merge_log_def Let_def)
qed

section \<open>Properties of the merged log\<close>

lemma merge_log_split:
  assumes "log_ok ls" and "firstIdx ls \<le> prev" and "prev \<le> lastIdx ls"
  obtains k where "k = nat (prev + 1 - firstIdx ls)" "0 < k" "k \<le> length ls"
    "prev = firstIdx ls + int k - 1"
    "merge_log prev es ls = take k ls @ merge_tail (drop k ls) es"
  using assms by (auto simp: merge_log_def Let_def log_ok_lastIdx intro!: that)

lemma merge_log_ok:
  assumes "log_ok ls" and "ae_wf args" and "matches args ls"
  shows "log_ok (merge_log (ae_PrevLogIndex args) (ae_Entries args) ls)"
proof -
  obtain k where k: "0 < k" "k \<le> length ls" "ae_PrevLogIndex args = firstIdx ls + int k - 1"
    and m: "merge_log (ae_PrevLogIndex args) (ae_Entries args) ls
              = take k ls @ merge_tail (drop k ls) (ae_Entries args)"
    using merge_log_split [of ls] assms(1,3) by (metis matches_def)
  show ?thesis
    unfolding m using assms(1) k(1,2)
  proof (rule log_ok_append)
    fix n assume "n < length (merge_tail (drop k ls) (ae_Entries args))"
    then show "le_Index (merge_tail (drop k ls) (ae_Entries args) ! n) = firstIdx ls + int k + int n"
      using assms(1,2) k by (intro merge_tail_index) (auto simp: log_ok_index ae_wf_def)
  qed
qed

lemma firstIdx_merge_log:
  assumes "log_ok ls" and "matches args ls"
  shows "hd (merge_log (ae_PrevLogIndex args) es ls) = hd ls"
    and "firstIdx (merge_log (ae_PrevLogIndex args) es ls) = firstIdx ls"
proof -
  obtain k where "0 < k" "merge_log (ae_PrevLogIndex args) es ls = take k ls @ merge_tail (drop k ls) es"
    using merge_log_split [of ls] assms by (metis matches_def)
  then show "hd (merge_log (ae_PrevLogIndex args) es ls) = hd ls"
    using assms(1) by (cases ls; cases k) auto
  then show "firstIdx (merge_log (ae_PrevLogIndex args) es ls) = firstIdx ls"
    by (simp add: firstIdx_def)
qed

lemma merge_log_terms_ok:
  assumes "log_ok ls" and "terms_ok ls" and "ae_wf args" and "matches args ls"
  shows "terms_ok (merge_log (ae_PrevLogIndex args) (ae_Entries args) ls)"
proof -
  obtain k where k: "0 < k" "k \<le> length ls" "ae_PrevLogIndex args = firstIdx ls + int k - 1"
    and m: "merge_log (ae_PrevLogIndex args) (ae_Entries args) ls
              = take k ls @ merge_tail (drop k ls) (ae_Entries args)"
    using merge_log_split [of ls] assms(1,4) by (metis matches_def)
  let ?t = "le_Term (ls ! (k - 1))"
  have dec: "ls = take (k - 1) ls @ ls ! (k - 1) # drop k ls"
    using k(1,2) id_take_nth_drop [of "k - 1" ls] by simp
  have pt: "ae_PrevLogTerm args = ?t"
  proof -
    have "nat (ae_PrevLogIndex args - firstIdx ls) = k - 1" using k by simp
    then show ?thesis using assms(4) by (simp add: matches_def termAt_def)
  qed
  have s: "sorted (map le_Term (take (k - 1) ls) @ ?t # map le_Term (drop k ls))"
    using assms(2) arg_cong [OF dec, of "map le_Term"] by (simp add: terms_ok_def)
  have "sorted (?t # map le_Term (merge_tail (drop k ls) (ae_Entries args)))"
    using s assms(3) pt by (intro sorted_merge_tail) (auto simp: sorted_append ae_wf_def)
  then have "sorted (map le_Term (take (k - 1) ls) @
      ?t # map le_Term (merge_tail (drop k ls) (ae_Entries args)))"
    using s by (auto simp: sorted_append dest: order_trans)
  moreover have "take k ls = take (k - 1) ls @ [ls ! (k - 1)]"
    using k(1,2) take_Suc_conv_app_nth [of "k - 1" ls] by simp
  ultimately show ?thesis unfolding terms_ok_def m by simp
qed

lemma merge_log_lastIdx:
  assumes "log_ok ls" and "ae_wf args" and "matches args ls"
  shows "ae_PrevLogIndex args + int (length (ae_Entries args))
           \<le> lastIdx (merge_log (ae_PrevLogIndex args) (ae_Entries args) ls)"
proof -
  obtain k where k: "0 < k" "k \<le> length ls" "ae_PrevLogIndex args = firstIdx ls + int k - 1"
    and m: "merge_log (ae_PrevLogIndex args) (ae_Entries args) ls
              = take k ls @ merge_tail (drop k ls) (ae_Entries args)"
    using merge_log_split [of ls] assms(1,3) by (metis matches_def)
  have "length (ae_Entries args) \<le> length (merge_tail (drop k ls) (ae_Entries args))"
    by (simp add: length_merge_tail covers_iff)
  moreover have "length (merge_log (ae_PrevLogIndex args) (ae_Entries args) ls)
      = k + length (merge_tail (drop k ls) (ae_Entries args))" using k(2) by (simp add: m min_def)
  ultimately show ?thesis
    using log_ok_lastIdx [OF merge_log_ok [OF assms]]
      firstIdx_merge_log(2) [OF assms(1,3), of "ae_Entries args"] k(3) by linarith
qed

section \<open>AppendEntry, branch by branch\<close>

definition ae_reply :: "int \<Rightarrow> bool \<Rightarrow> int \<Rightarrow> int \<Rightarrow> AppendEntryReply" where
  "ae_reply t s i u = \<lparr>aer_Term = t, aer_Success = s, aer_ConflictIndex = i, aer_ConflictTerm = u\<rparr>"

lemma ae_reply_simps [simp]:
  "aer_Term (ae_reply t s i u) = t" "aer_Success (ae_reply t s i u) = s"
  "aer_ConflictIndex (ae_reply t s i u) = i" "aer_ConflictTerm (ae_reply t s i u) = u"
  by (simp_all add: ae_reply_def)

lemma AppendEntry_stale:
  "ae_Term args < currentTerm rf \<Longrightarrow> AppendEntry args rf = Some (ae_reply (currentTerm rf) False 0 0, rf)"
  by (simp add: AppendEntry_def rejectAppendEntry_def ae_reply_def)

text \<open>The common start of the other branches.\<close>

lemma AppendEntry_current:
  assumes "\<not> ae_Term args < currentTerm rf" and "log_ok (logs rf)"
  shows "AppendEntry args rf = (let rf = asFollower (ae_Term args) rf; ls = logs rf in
     if ae_PrevLogIndex args < firstIdx ls
     then Some (ae_reply (currentTerm rf) False (firstIdx ls) (-1), rf)
     else if \<not> matches args ls then
       (if lastIdx ls < ae_PrevLogIndex args
        then Some (ae_reply (currentTerm rf) False (lastIdx ls + 1) (-1), rf)
        else do {
          offset \<leftarrow> sort_Search (ae_PrevLogIndex args - firstIdx ls + 1)
                       (conflict_probe ls (termAt ls (ae_PrevLogIndex args)));
          Some (ae_reply (currentTerm rf) False (firstIdx ls + offset)
                 (termAt ls (ae_PrevLogIndex args)), rf) })
     else do {
       rf \<leftarrow> append_entries (firstIdx ls) (ae_Entries args) rf;
       l \<leftarrow> getLatestLog rf;
       let c = min (ae_LeaderCommit args) (le_Index l);
       let rf = (if c > commitIndex rf then emit [SignalApply] (rf\<lparr>commitIndex := c\<rparr>) else rf);
       Some (ae_reply (currentTerm rf) True 0 0, rf) })"
proof -
  let ?r = "asFollower (ae_Term args) rf" and ?ls = "logs rf" and ?p = "ae_PrevLogIndex args"
  have fol: "(if state (stepDown t rf) \<noteq> Follower then ChangeState Follower (stepDown t rf)
      else Some (stepDown t rf)) = Some (toFollower (stepDown t rf))" for t
    by (simp add: ChangeState_Follower toFollower_def)
  have lo: "log_ok (logs ?r)" using assms(2) by simp
  have nth: "go_nth ?ls (?p - firstIdx ?ls) = Some (?ls ! nat (?p - firstIdx ?ls))"
    if "firstIdx ?ls \<le> ?p" "\<not> lastIdx ?ls < ?p"
    using that assms(2) by (simp add: go_nth_def log_ok_lastIdx)
  have h: "le_Index (hd ?ls) = firstIdx ?ls" "le_Index (last ?ls) = lastIdx ?ls"
    by (simp_all add: firstIdx_def lastIdx_def)
  show ?thesis
    unfolding AppendEntry_def Let_def asFollower_def [symmetric]
    apply (simp only: assms(1) if_False updateTermAndStepDown_ok fol bind.bind_lunit
        asFollower_def [symmetric])
    using assms(2) nth
    by (auto simp: getFirstLog_ok [OF lo] getLatestLog_ok [OF lo] isLogMatched_ok [OF lo]
        isValidLogIndex_ok [OF lo] h matches_def termAt_def rejectAppendEntry_def ae_reply_def)
qed

definition entryAt :: "'c LogEntry list \<Rightarrow> int \<Rightarrow> 'c LogEntry" where
  "entryAt ls i = ls ! nat (i - firstIdx ls)"

text \<open>The state after an accepted request.\<close>

definition accepted :: "'c AppendEntryArgs \<Rightarrow> ('c, 'b) Raft \<Rightarrow> ('c, 'b) Raft" where
  "accepted args rf = (let rf = appended args (asFollower (ae_Term args) rf);
       c = min (ae_LeaderCommit args) (lastIdx (logs rf))
     in if c > commitIndex rf then emit [SignalApply] (rf\<lparr>commitIndex := c\<rparr>) else rf)"

lemma accepted_simps [simp]:
  "npeers (accepted a rf) = npeers rf" "me (accepted a rf) = me rf" "dead (accepted a rf) = dead rf"
  "currentTerm (accepted a rf) = max (ae_Term a) (currentTerm rf)"
  "lastApplied (accepted a rf) = lastApplied rf"
  "state (accepted a rf) = Follower" "nextIndex (accepted a rf) = nextIndex rf"
  "matchIndex (accepted a rf) = matchIndex rf" "electionTimer (accepted a rf)"
  "applyCh (accepted a rf) = applyCh rf"
  "lastIncludedIndex (accepted a rf) = lastIncludedIndex rf"
  "lastIncludedTerm (accepted a rf) = lastIncludedTerm rf"
  "pendingSnapshot (accepted a rf) = pendingSnapshot rf"
  "grantedVotes (accepted a rf) = grantedVotes rf"
  "logs (accepted a rf) = merge_log (ae_PrevLogIndex a) (ae_Entries a) (logs rf)"
  "persister (accepted a rf) = persister (appended a (asFollower (ae_Term a) rf))"
  by (simp_all add: accepted_def Let_def logs_appended)

lemma commitIndex_accepted [simp]:
  "commitIndex (accepted a rf) = max (commitIndex rf)
     (min (ae_LeaderCommit a) (lastIdx (merge_log (ae_PrevLogIndex a) (ae_Entries a) (logs rf))))"
  by (simp add: accepted_def Let_def logs_appended) linarith

lemma AppendEntry_accept:
  assumes "\<not> ae_Term args < currentTerm rf" and "log_ok (logs rf)" and "ae_wf args"
    and "matches args (logs rf)"
  shows "AppendEntry args rf = Some (ae_reply (ae_Term args) True 0 0, accepted args rf)"
proof -
  let ?r = "asFollower (ae_Term args) rf"
  have m: "firstIdx (logs ?r) \<le> ae_PrevLogIndex args" "ae_PrevLogIndex args \<le> lastIdx (logs ?r)"
    using assms(4) by (auto simp: matches_def)
  have lo: "log_ok (logs ?r)" using assms(2) by simp
  have ap: "append_entries (firstIdx (logs rf)) (ae_Entries args) ?r = Some (appended args ?r)"
    using append_entries_ok [OF lo assms(3) m] by simp
  have "log_ok (logs (appended args ?r))"
    using merge_log_ok [OF assms(2-4)] by (simp add: logs_appended)
  then have gl: "getLatestLog (appended args ?r) = Some (last (logs (appended args ?r)))"
    by (rule getLatestLog_ok)
  have t: "currentTerm (appended args ?r) = ae_Term args" using assms(1) by simp
  have p: "\<not> ae_PrevLogIndex args < firstIdx (logs rf)" using m by simp
  show ?thesis
    unfolding AppendEntry_current [OF assms(1,2)]
    using assms(4) p t by (simp add: ap gl accepted_def Let_def flip: lastIdx_def)
qed

lemma accepted_wf:
  assumes "raft_wf rf" and "ae_wf args" and "matches args (logs rf)"
  shows "raft_wf (accepted args rf)"
proof -
  have lo: "log_ok (logs rf)" "terms_ok (logs rf)" using assms(1) by (auto simp: raft_wf_def)
  have "set (merge_log (ae_PrevLogIndex args) (ae_Entries args) (logs rf))
      \<subseteq> set (logs rf) \<union> set (ae_Entries args)"
    using set_merge_tail by (fastforce simp: merge_log_def Let_def dest: in_set_takeD in_set_dropD)
  then have "\<forall>e \<in> set (merge_log (ae_PrevLogIndex args) (ae_Entries args) (logs rf)).
      le_Term e \<le> max (ae_Term args) (currentTerm rf)"
    using assms(1,2) by (fastforce simp: raft_wf_def ae_wf_def max_def)
  then show ?thesis
    using assms(1) merge_log_ok [OF lo(1) assms(2,3)] merge_log_terms_ok [OF lo assms(2,3)]
      firstIdx_merge_log [OF lo(1) assms(3)]
    by (auto simp: raft_wf_def arrays_ok_def)
qed

text \<open>The probe of the conflict search is defined and monotone on a sorted log.\<close>

lemma conflict_probe_ok:
  assumes "log_ok ls" and "0 \<le> h"
  shows "conflict_probe ls t h = Some (int (length ls) \<le> h \<or> t \<le> le_Term (ls ! nat h))"
  using assms by (auto simp: conflict_probe_def go_nth_def)

lemma conflict_search:
  assumes "log_ok ls" and "terms_ok ls" and "firstIdx ls \<le> i" and "i \<le> lastIdx ls"
  shows "\<exists>k. sort_Search (i - firstIdx ls + 1) (conflict_probe ls (termAt ls i)) = Some k
    \<and> firstIdx ls + k \<le> i \<and> 0 \<le> k \<and> termAt ls (firstIdx ls + k) = termAt ls i
    \<and> (\<forall>j. firstIdx ls \<le> j \<and> j < firstIdx ls + k \<longrightarrow> termAt ls j < termAt ls i)"
proof -
  let ?n = "i - firstIdx ls + 1" and ?f = "conflict_probe ls (termAt ls i)"
  let ?p = "\<lambda>h. int (length ls) \<le> h \<or> termAt ls i \<le> le_Term (ls ! nat h)"
  have n: "0 \<le> ?n" "?n \<le> int (length ls)" using assms by (auto simp: log_ok_lastIdx)
  have f: "?f h = Some (?p h)" if "0 \<le> h" for h using conflict_probe_ok [OF assms(1) that] .
  have mono: "le_Term (ls ! nat g) \<le> le_Term (ls ! nat h)"
    if "0 \<le> g" "g \<le> h" "h < int (length ls)" for g h
    using assms(2) that sorted_nth_mono [of "map le_Term ls" "nat g" "nat h"]
    by (simp add: terms_ok_def nat_less_iff)
  obtain k where k: "sort_Search ?n ?f = Some k" using sort_Search_total [of ?n ?f] f n by auto
  have "0 \<le> k \<and> k \<le> ?n \<and> (\<forall>h. 0 \<le> h \<and> h < k \<longrightarrow> \<not> ?p h) \<and> (\<forall>h. k \<le> h \<and> h < ?n \<longrightarrow> ?p h)"
  proof (rule search_loop_least [of ?f 0 ?n k ?p])
    show "search_loop ?f 0 ?n = Some k" using k by (simp add: sort_Search_def)
    show "0 \<le> ?n" by (rule n)
    show "?f h = Some (?p h)" if "0 \<le> h" for h using f [OF that] .
    show "?p h" if "0 \<le> g" "g \<le> h" "h < ?n" "?p g" for g h
      using mono [of g h] that n by (cases "h < int (length ls)") auto
  qed
  then have k0: "0 \<le> k" and kn: "k \<le> ?n" and lt: "\<And>h. 0 \<le> h \<Longrightarrow> h < k \<Longrightarrow> \<not> ?p h"
    and ge: "\<And>h. k \<le> h \<Longrightarrow> h < ?n \<Longrightarrow> ?p h" by auto
  have "?p (i - firstIdx ls)" by (simp add: termAt_def)
  then have ki: "k \<le> i - firstIdx ls" using lt [of "i - firstIdx ls"] assms(3) by force
  have "?p k" using ge [of k] ki by auto
  then have "termAt ls i \<le> le_Term (ls ! nat k)" using ki n by auto
  moreover have "le_Term (ls ! nat k) \<le> termAt ls i"
    using mono [of k "i - firstIdx ls"] k0 ki n by (auto simp: termAt_def)
  ultimately have "termAt ls (firstIdx ls + k) = termAt ls i" by (simp add: termAt_def)
  moreover have "termAt ls j < termAt ls i" if "firstIdx ls \<le> j" "j < firstIdx ls + k" for j
    using lt [of "j - firstIdx ls"] that by (auto simp: termAt_def)
  ultimately show ?thesis using k k0 ki by auto
qed

section \<open>The properties\<close>

lemma AppendEntry_result:
  assumes "raft_wf rf" and "ae_wf args"
  shows "\<exists>reply rf'. AppendEntry args rf = Some (reply, rf') \<and>
    (rf' = rf \<or> rf' = asFollower (ae_Term args) rf
     \<or> (rf' = accepted args rf \<and> matches args (logs rf)))"
proof (cases "ae_Term args < currentTerm rf")
  case True
  then show ?thesis by (simp add: AppendEntry_stale)
next
  case cur: False
  have lo: "log_ok (logs rf)" "terms_ok (logs rf)" using assms(1) by (auto simp: raft_wf_def)
  show ?thesis
  proof (cases "matches args (logs rf)")
    case True
    then show ?thesis using AppendEntry_accept [OF cur lo(1) assms(2)] by auto
  next
    case False
    then show ?thesis
      using conflict_search [OF lo, of "ae_PrevLogIndex args"]
      by (auto simp: AppendEntry_current [OF cur lo(1)] Let_def)
  qed
qed

text \<open>
  \<open>AppendEntry\<close> never panics on a well-formed peer, whatever well-formed request arrives
  (stale, out of range, conflicting or matching), keeps the peer well-formed, and never moves
  the term or the commit index back.
\<close>

theorem AppendEntry_safe:
  assumes "raft_wf rf" and "ae_wf args"
  shows "\<exists>reply rf'. AppendEntry args rf = Some (reply, rf') \<and> raft_wf rf'
    \<and> currentTerm rf \<le> currentTerm rf' \<and> commitIndex rf \<le> commitIndex rf'"
  using AppendEntry_result [OF assms] assms(1) accepted_wf [OF assms] asFollower_wf [OF assms(1)]
  by auto

text \<open>A concrete follower, log and request for the witnesses of this theory.\<close>

definition ex_entry :: "int \<Rightarrow> int \<Rightarrow> nat LogEntry" where
  "ex_entry t i = \<lparr>le_Command = Some 7, le_Term = t, le_Index = i\<rparr>"

definition ex_follower :: "(nat, nat) Raft" where
  "ex_follower = (boot 3 1 MakePersister)\<lparr>currentTerm := 2,
     logs := generateSingleLog 0 0 @ [ex_entry 1 1, ex_entry 1 2, ex_entry 2 3]\<rparr>"

definition ex_request :: "int \<Rightarrow> int \<Rightarrow> nat AppendEntryArgs" where
  "ex_request prev t = \<lparr>ae_Term = 3, ae_LeaderId = 0, ae_PrevLogIndex = prev, ae_PrevLogTerm = t,
     ae_Entries = [ex_entry 3 (prev + 1)], ae_LeaderCommit = 1\<rparr>"

lemma ex_follower_wf: "raft_wf ex_follower"
  by (simp add: raft_wf_def ex_follower_def boot_def arrays_ok_def log_ok_Cons terms_ok_def
      generateSingleLog_def ex_entry_def firstIdx_def)

lemma ex_request_wf: "t \<le> 3 \<Longrightarrow> ae_wf (ex_request prev t)"
  by (simp add: ae_wf_def ex_request_def ex_entry_def)

theorem AppendEntry_safe_witness:
  "raft_wf ex_follower \<and> ae_wf (ex_request 2 1) \<and>
   (\<exists>reply rf'. AppendEntry (ex_request 2 1) ex_follower = Some (reply, rf') \<and> raft_wf rf'
    \<and> currentTerm ex_follower \<le> currentTerm rf' \<and> commitIndex ex_follower \<le> commitIndex rf')"
  using AppendEntry_safe [OF ex_follower_wf ex_request_wf [of 1 2]] ex_follower_wf
    ex_request_wf [of 1 2] by simp

lemma AppendEntry_iff:
  assumes "raft_wf rf" and "ae_wf args" and "AppendEntry args rf = Some (reply, rf')"
  shows "aer_Success reply \<longleftrightarrow> currentTerm rf \<le> ae_Term args \<and> matches args (logs rf)"
    and "\<not> aer_Success reply \<Longrightarrow> logs rf' = logs rf \<and> commitIndex rf' = commitIndex rf"
    and "aer_Success reply \<Longrightarrow> rf' = accepted args rf"
  using AppendEntry_stale [of args rf] AppendEntry_current [of args rf] raft_wf_log [OF assms(1)]
    assms(2,3) AppendEntry_accept [of args rf]
  by (cases "ae_Term args < currentTerm rf"; cases "matches args (logs rf)";
      auto simp: Let_def split: if_splits option.splits bind_splits)+

lemma merge_log_contents:
  assumes lo: "log_ok ls" and wf: "ae_wf args" and mt: "matches args ls"
    and ls': "ls' = merge_log (ae_PrevLogIndex args) (ae_Entries args) ls"
  shows "firstIdx ls \<le> i \<Longrightarrow> i \<le> ae_PrevLogIndex args \<Longrightarrow> entryAt ls' i = entryAt ls i"
    and "m < length (ae_Entries args) \<Longrightarrow>
       termAt ls' (ae_PrevLogIndex args + 1 + int m) = le_Term (ae_Entries args ! m)"
    and "ls' = ls \<or> lastIdx ls' = ae_PrevLogIndex args + int (length (ae_Entries args))"
proof -
  let ?p = "ae_PrevLogIndex args" and ?es = "ae_Entries args"
  obtain k where k: "0 < k" "k \<le> length ls" "?p = firstIdx ls + int k - 1"
    and mm: "merge_log ?p ?es ls = take k ls @ merge_tail (drop k ls) ?es"
    using merge_log_split [of ls] lo mt by (metis matches_def)
  have f: "firstIdx ls' = firstIdx ls" using firstIdx_merge_log(2) [OF lo mt] ls' by simp
  {
    assume "firstIdx ls \<le> i" "i \<le> ?p"
    then have "nat (i - firstIdx ls) < k" using k by auto
    then show "entryAt ls' i = entryAt ls i"
      unfolding entryAt_def f using k(2) by (simp add: ls' mm nth_append)
  }
  {
    assume m: "m < length ?es"
    have "nat (?p + 1 + int m - firstIdx ls) = k + m" using k by simp
    then show "termAt ls' (?p + 1 + int m) = le_Term (?es ! m)"
      unfolding termAt_def f using merge_tail_terms [OF m, of "drop k ls"] k(2)
      by (simp add: ls' mm nth_append)
  }
  have lo': "log_ok ls'" using merge_log_ok [OF lo wf mt] ls' by simp
  show "ls' = ls \<or> lastIdx ls' = ?p + int (length ?es)"
  proof (cases "covers (drop k ls) ?es")
    case True
    then show ?thesis by (simp add: ls' mm covers_merge_tail)
  next
    case False
    then have "length ls' = k + length ?es" using k(2) by (simp add: ls' mm length_merge_tail min_def)
    then show ?thesis using log_ok_lastIdx [OF lo'] f k(3) by simp
  qed
qed

text \<open>
  C9: a request is accepted exactly when its term is not stale and the log holds an entry at
  \<open>PrevLogIndex\<close> with term \<open>PrevLogTerm\<close>.  On acceptance every entry up to \<open>PrevLogIndex\<close> is
  kept, the request's entries are in the log (same index, same term), and either the log is
  left as it is, so a delayed shorter request truncates nothing, or it ends with the request's
  last entry.  On refusal the log and the commit index are untouched.
\<close>

theorem AppendEntry_functional:
  assumes "raft_wf rf" and "ae_wf args" and "AppendEntry args rf = Some (reply, rf')"
  shows "(aer_Success reply \<longleftrightarrow> currentTerm rf \<le> ae_Term args \<and> matches args (logs rf))
    \<and> (aer_Success reply \<longrightarrow>
        (\<forall>i. firstIdx (logs rf) \<le> i \<and> i \<le> ae_PrevLogIndex args \<longrightarrow>
           entryAt (logs rf') i = entryAt (logs rf) i)
        \<and> (\<forall>m < length (ae_Entries args).
           termAt (logs rf') (ae_PrevLogIndex args + 1 + int m) = le_Term (ae_Entries args ! m))
        \<and> (logs rf' = logs rf
           \<or> lastIdx (logs rf') = ae_PrevLogIndex args + int (length (ae_Entries args))))
    \<and> (\<not> aer_Success reply \<longrightarrow> logs rf' = logs rf \<and> commitIndex rf' = commitIndex rf)"
proof -
  note iff = AppendEntry_iff [OF assms]
  show ?thesis
  proof (cases "aer_Success reply")
    case True
    then have m: "matches args (logs rf)"
      and l: "logs rf' = merge_log (ae_PrevLogIndex args) (ae_Entries args) (logs rf)"
      using iff by auto
    show ?thesis
      using True iff(1) merge_log_contents [OF raft_wf_log [OF assms(1)] assms(2) m l] by blast
  next
    case False
    then show ?thesis using iff by blast
  qed
qed

theorem AppendEntry_functional_witness:
  "\<exists>reply rf'. AppendEntry (ex_request 2 1) ex_follower = Some (reply, rf')
    \<and> aer_Success reply \<and> lastIdx (logs rf') = 3 \<and> termAt (logs rf') 3 = 3
    \<and> entryAt (logs rf') 2 = ex_entry 1 2"
proof -
  obtain reply rf' where r: "AppendEntry (ex_request 2 1) ex_follower = Some (reply, rf')"
    using AppendEntry_result [OF ex_follower_wf ex_request_wf [of 1 2]] by auto
  note f = AppendEntry_functional [OF ex_follower_wf ex_request_wf [of 1 2] r]
  have ls: "logs ex_follower = generateSingleLog 0 0 @ [ex_entry 1 1, ex_entry 1 2, ex_entry 2 3]"
    and a: "ae_PrevLogIndex (ex_request 2 1) = 2" "ae_Entries (ex_request 2 1) = [ex_entry 3 3]"
    by (simp_all add: ex_follower_def ex_request_def)
  have fi: "firstIdx (logs ex_follower) = 0" by (simp add: ls firstIdx_def generateSingleLog_def)
  have s: "aer_Success reply"
    using f ls by (simp add: matches_def ex_request_def firstIdx_def lastIdx_def termAt_def
        generateSingleLog_def ex_entry_def ex_follower_def boot_def)
  have t3: "termAt (logs rf') 3 = 3" using f s a by (simp add: ex_entry_def)
  have e2: "entryAt (logs rf') 2 = ex_entry 1 2"
    using f s a fi by (simp add: entryAt_def ls firstIdx_def generateSingleLog_def)
  have "lastIdx (logs ex_follower) = 3" by (simp add: ls lastIdx_def ex_entry_def)
  then have "lastIdx (logs rf') = 3" using f s a by auto
  then show ?thesis using r s t3 e2 by blast
qed

lemma refusal_hint:
  assumes "raft_wf rf" and "currentTerm rf \<le> ae_Term args" and "\<not> matches args (logs rf)"
    and "AppendEntry args rf = Some (reply, rf')"
  shows "rf' = asFollower (ae_Term args) rf \<and> \<not> aer_Success reply \<and>
    (if ae_PrevLogIndex args < firstIdx (logs rf) then
       aer_ConflictIndex reply = firstIdx (logs rf) \<and> aer_ConflictTerm reply = -1
     else if lastIdx (logs rf) < ae_PrevLogIndex args then
       aer_ConflictIndex reply = lastIdx (logs rf) + 1 \<and> aer_ConflictTerm reply = -1
     else aer_ConflictTerm reply = termAt (logs rf) (ae_PrevLogIndex args)
       \<and> firstIdx (logs rf) \<le> aer_ConflictIndex reply
       \<and> aer_ConflictIndex reply \<le> ae_PrevLogIndex args
       \<and> termAt (logs rf) (aer_ConflictIndex reply) = aer_ConflictTerm reply
       \<and> (\<forall>j. firstIdx (logs rf) \<le> j \<and> j < aer_ConflictIndex reply \<longrightarrow>
            termAt (logs rf) j < aer_ConflictTerm reply))"
proof -
  have lo: "log_ok (logs rf)" "terms_ok (logs rf)" using assms(1) by (auto simp: raft_wf_def)
  have cur: "\<not> ae_Term args < currentTerm rf" using assms(2) by simp
  show ?thesis
    using assms(3,4) conflict_search [OF lo, of "ae_PrevLogIndex args"]
    unfolding AppendEntry_current [OF cur lo(1)] Let_def
    by (auto split: if_splits)
qed

text \<open>
  The conflict hint of a refused request.  When the follower has an entry at \<open>PrevLogIndex\<close>
  of another term, \<open>ConflictTerm\<close> is that term and \<open>ConflictIndex\<close> is the first index of the
  follower's log with that term (the binary search over the log is exact); when its log is too
  short the hint is the index after its last entry, and when \<open>PrevLogIndex\<close> lies before its
  snapshot the hint is its first index, both with term -1.
\<close>

theorem AppendEntry_conflict_hint:
  assumes "raft_wf rf" and "currentTerm rf \<le> ae_Term args" and "\<not> matches args (logs rf)"
    and "AppendEntry args rf = Some (reply, rf')"
  shows "\<not> aer_Success reply \<and>
    (if ae_PrevLogIndex args < firstIdx (logs rf) then
       aer_ConflictIndex reply = firstIdx (logs rf) \<and> aer_ConflictTerm reply = -1
     else if lastIdx (logs rf) < ae_PrevLogIndex args then
       aer_ConflictIndex reply = lastIdx (logs rf) + 1 \<and> aer_ConflictTerm reply = -1
     else aer_ConflictTerm reply = termAt (logs rf) (ae_PrevLogIndex args)
       \<and> firstIdx (logs rf) \<le> aer_ConflictIndex reply
       \<and> aer_ConflictIndex reply \<le> ae_PrevLogIndex args
       \<and> termAt (logs rf) (aer_ConflictIndex reply) = aer_ConflictTerm reply
       \<and> (\<forall>j. firstIdx (logs rf) \<le> j \<and> j < aer_ConflictIndex reply \<longrightarrow>
            termAt (logs rf) j < aer_ConflictTerm reply))"
  using refusal_hint [OF assms] by blast

theorem AppendEntry_conflict_hint_witness:
  "\<exists>reply rf'. AppendEntry (ex_request 2 2) ex_follower = Some (reply, rf')
    \<and> \<not> aer_Success reply \<and> aer_ConflictTerm reply = 1"
proof -
  obtain reply rf' where r: "AppendEntry (ex_request 2 2) ex_follower = Some (reply, rf')"
    using AppendEntry_result [OF ex_follower_wf ex_request_wf [of 2 2]] by auto
  have ls: "logs ex_follower = generateSingleLog 0 0 @ [ex_entry 1 1, ex_entry 1 2, ex_entry 2 3]"
    by (simp add: ex_follower_def)
  have p: "firstIdx (logs ex_follower) = 0" "lastIdx (logs ex_follower) = 3"
    "termAt (logs ex_follower) 2 = 1" "ae_PrevLogIndex (ex_request 2 2) = 2"
    by (simp_all add: ls firstIdx_def lastIdx_def termAt_def generateSingleLog_def ex_entry_def
        ex_request_def)
  have "\<not> matches (ex_request 2 2) (logs ex_follower)"
    using p by (simp add: matches_def ex_request_def)
  moreover have "currentTerm ex_follower \<le> ae_Term (ex_request 2 2)"
    by (simp add: ex_follower_def ex_request_def)
  ultimately show ?thesis
    using AppendEntry_conflict_hint [OF ex_follower_wf _ _ r] r p by auto
qed

end
