(* ===== verification/RaftLeader.thy ===== *)
theory RaftLeader
  imports RaftFollower
begin

text \<open>
  The leader's side of log replication: the requests it builds, the rule by which it commits,
  how it rolls \<open>nextIndex\<close> back after a refusal, and \<open>Start\<close>.
\<close>

section \<open>Requests\<close>

lemma genAppendEntryArgs_ok [raft_total]:
  assumes "log_ok (logs rf)" and "firstIdx (logs rf) \<le> prev"
  shows "genAppendEntryArgs prev rf = (let p = min prev (lastIdx (logs rf)) in
     Some \<lparr>ae_Term = currentTerm rf, ae_LeaderId = me rf, ae_PrevLogIndex = p,
           ae_PrevLogTerm = termAt (logs rf) p,
           ae_Entries = drop (nat (p + 1 - firstIdx (logs rf))) (logs rf),
           ae_LeaderCommit = commitIndex rf\<rparr>)"
proof -
  let ?ls = "logs rf"
  define p where "p = min prev (lastIdx ?ls)"
  have p: "firstIdx ?ls \<le> p" "p \<le> lastIdx ?ls"
    using assms log_ok_first_le_last [OF assms(1)] by (auto simp: p_def)
  have len: "p - firstIdx ?ls < int (length ?ls)" using p(2) log_ok_bound [OF assms(1)] by blast
  have lo: "\<not> prev < firstIdx ?ls - 1" using assms(2) by simp
  have nth: "go_nth ?ls (p - firstIdx ?ls) = Some (?ls ! nat (p - firstIdx ?ls))"
    using p len by (simp add: go_nth_def)
  have sl: "slice_from ?ls (p - firstIdx ?ls + 1) = Some (drop (nat (p + 1 - firstIdx ?ls)) ?ls)"
    using p len by (simp add: slice_from_def algebra_simps)
  have h: "le_Index (hd ?ls) = firstIdx ?ls" "le_Index (last ?ls) = lastIdx ?ls"
    by (simp_all add: firstIdx_def lastIdx_def)
  show ?thesis
  proof (cases "lastIdx ?ls < prev")
    case True
    then have "p = lastIdx ?ls" by (simp add: p_def)
    then show ?thesis using True lo nth sl p len
      by (simp add: genAppendEntryArgs_def getFirstLog_ok [OF assms(1)]
          getLatestLog_ok [OF assms(1)] Let_def termAt_def h)
  next
    case False
    then have "p = prev" by (simp add: p_def)
    then show ?thesis using False lo nth sl p len
      by (simp add: genAppendEntryArgs_def getFirstLog_ok [OF assms(1)]
          getLatestLog_ok [OF assms(1)] Let_def termAt_def h)
  qed
qed

lemma drop_log_index:
  assumes "log_ok ls" and "firstIdx ls \<le> p" and "m < length (drop (nat (p + 1 - firstIdx ls)) ls)"
  shows "le_Index (drop (nat (p + 1 - firstIdx ls)) ls ! m) = p + 1 + int m"
  using assms log_ok_index [OF assms(1), of "nat (p + 1 - firstIdx ls) + m"] by simp

lemma length_drop_log:
  "log_ok ls \<Longrightarrow> firstIdx ls \<le> p \<Longrightarrow> p \<le> lastIdx ls \<Longrightarrow>
     p + int (length (drop (nat (p + 1 - firstIdx ls)) ls)) = lastIdx ls"
  by (simp add: log_ok_lastIdx of_nat_diff nat_le_iff)

lemma gen_wf:
  assumes "raft_wf rf" and "firstIdx (logs rf) \<le> prev"
  shows "\<exists>args. genAppendEntryArgs prev rf = Some args \<and> ae_wf args \<and> matches args (logs rf)
    \<and> ae_Term args = currentTerm rf
    \<and> ae_PrevLogIndex args + int (length (ae_Entries args)) = lastIdx (logs rf)"
proof -
  let ?ls = "logs rf"
  have lo: "log_ok ?ls" "terms_ok ?ls" using assms(1) by (auto simp: raft_wf_def)
  define p where "p = min prev (lastIdx ?ls)"
  have p: "firstIdx ?ls \<le> p" "p \<le> lastIdx ?ls"
    using assms(2) log_ok_first_le_last [OF lo(1)] by (auto simp: p_def)
  let ?k = "nat (p - firstIdx ?ls)"
  have k: "?k < length ?ls" "nat (p + 1 - firstIdx ?ls) = Suc ?k"
    using p log_ok_bound [OF lo(1), of p] by auto
  have "sorted (map le_Term (drop ?k ?ls))"
    using lo(2) by (simp add: terms_ok_def drop_map sorted_wrt_drop flip: drop_map)
  then have s: "sorted (termAt ?ls p # map le_Term (drop (Suc ?k) ?ls))"
    using k(1) by (simp add: termAt_def flip: Cons_nth_drop_Suc)
  have t: "\<forall>e \<in> set (drop (Suc ?k) ?ls). le_Term e \<le> currentTerm rf"
    using assms(1) by (auto simp: raft_wf_def dest: in_set_dropD)
  show ?thesis
    unfolding genAppendEntryArgs_ok [OF lo(1) assms(2)] Let_def p_def [symmetric]
    using s t p drop_log_index [OF lo(1) p(1)] length_drop_log [OF lo(1) p]
    by (simp add: ae_wf_def matches_def k(2))
qed

text \<open>
  The request a well-formed leader builds is well-formed (consecutive indices after
  \<open>PrevLogIndex\<close>, terms that never decrease and never exceed the leader's), names a previous
  entry of the leader's log with its term, and carries the whole rest of the log.
\<close>

theorem genAppendEntryArgs_wf:
  assumes "raft_wf rf" and "firstIdx (logs rf) \<le> prev"
  shows "\<exists>args. genAppendEntryArgs prev rf = Some args \<and> ae_wf args \<and> matches args (logs rf)
    \<and> ae_Term args = currentTerm rf
    \<and> ae_PrevLogIndex args + int (length (ae_Entries args)) = lastIdx (logs rf)"
  using assms by (rule gen_wf)

theorem genAppendEntryArgs_wf_witness:
  "raft_wf ex_follower \<and> firstIdx (logs ex_follower) \<le> 1 \<and>
   (\<exists>args. genAppendEntryArgs 1 ex_follower = Some args \<and> ae_wf args
     \<and> matches args (logs ex_follower) \<and> ae_Term args = currentTerm ex_follower
     \<and> ae_PrevLogIndex args + int (length (ae_Entries args)) = lastIdx (logs ex_follower))"
proof -
  have "firstIdx (logs ex_follower) \<le> 1"
    by (simp add: ex_follower_def firstIdx_def generateSingleLog_def)
  then show ?thesis using genAppendEntryArgs_wf [OF ex_follower_wf, of 1] ex_follower_wf by blast
qed

text \<open>
  The commit rule of the follower.  The code takes the minimum of \<open>LeaderCommit\<close> and the
  index of the last entry of the follower's whole log, where the Raft paper takes the index of
  the last new entry.  For every request a leader builds the two agree, because the leader sends the
  whole rest of its log and its commit index lies inside it: the follower never commits an
  entry beyond those the request has just confirmed, even when its own log is longer.
\<close>

theorem AppendEntry_commit_paper_rule:
  assumes "raft_wf leader" and "firstIdx (logs leader) \<le> prev"
    and "commitIndex leader \<le> lastIdx (logs leader)"
    and "genAppendEntryArgs prev leader = Some args"
    and "raft_wf rf" and "AppendEntry args rf = Some (reply, rf')" and "aer_Success reply"
  shows "commitIndex rf' = max (commitIndex rf)
    (min (ae_LeaderCommit args) (ae_PrevLogIndex args + int (length (ae_Entries args))))"
proof -
  let ?p = "min prev (lastIdx (logs leader))"
  have lo: "log_ok (logs leader)" using assms(1) by (rule raft_wf_log)
  have p: "firstIdx (logs leader) \<le> ?p" "?p \<le> lastIdx (logs leader)"
    using assms(2) log_ok_first_le_last [OF lo] by auto
  have args: "ae_PrevLogIndex args = ?p" "ae_LeaderCommit args = commitIndex leader"
    "ae_Entries args = drop (nat (?p + 1 - firstIdx (logs leader))) (logs leader)"
    using assms(4) genAppendEntryArgs_ok [OF lo assms(2)] by (auto simp: Let_def)
  have all: "ae_LeaderCommit args \<le> ae_PrevLogIndex args + int (length (ae_Entries args))"
    using assms(3) length_drop_log [OF lo p] args by simp
  have wf: "ae_wf args"
  proof -
    obtain a where "genAppendEntryArgs prev leader = Some a" "ae_wf a"
      using gen_wf [OF assms(1,2)] by blast
    then show ?thesis using assms(4) by simp
  qed
  note iff = AppendEntry_iff [OF assms(5) wf assms(6)]
  have "matches args (logs rf)" using iff(1) assms(7) by blast
  then have "ae_PrevLogIndex args + int (length (ae_Entries args)) \<le> lastIdx (logs rf')"
    using iff(3) [OF assms(7)] merge_log_lastIdx [OF raft_wf_log [OF assms(5)] wf] by simp
  then show ?thesis using iff(3) [OF assms(7)] all by (simp add: min_def)
qed

definition ex_leader :: "(nat, nat) Raft" where
  "ex_leader = ex_follower\<lparr>state := Leader, commitIndex := 2, matchIndex := [3, 0, 3],
     nextIndex := [4, 2, 4], me := 0\<rparr>"

lemma ex_leader_wf: "raft_wf ex_leader"
  using ex_follower_wf by (auto simp: raft_wf_def ex_leader_def arrays_ok_def ex_follower_def boot_def)

lemma ex_leader_simps [simp]:
  "firstIdx (logs ex_leader) = 0" "lastIdx (logs ex_leader) = 3" "logs ex_follower = logs ex_leader"
  "commitIndex ex_leader = 2" "currentTerm ex_leader = 2" "npeers ex_leader = 3"
  "currentTerm ex_follower = 2" "commitIndex ex_follower = 0"
  by (simp_all add: ex_leader_def ex_follower_def firstIdx_def lastIdx_def generateSingleLog_def
      ex_entry_def boot_def)

theorem AppendEntry_commit_paper_rule_witness:
  "\<exists>args reply rf'. genAppendEntryArgs 1 ex_leader = Some args
     \<and> AppendEntry args ex_follower = Some (reply, rf') \<and> aer_Success reply \<and> commitIndex rf' = 2"
proof -
  obtain args where args: "genAppendEntryArgs 1 ex_leader = Some args" "ae_wf args"
      "matches args (logs ex_leader)" "ae_Term args = 2"
      "ae_PrevLogIndex args + int (length (ae_Entries args)) = 3"
    using gen_wf [OF ex_leader_wf, of 1] by auto
  have c: "ae_LeaderCommit args = 2"
    using args(1) genAppendEntryArgs_ok [of ex_leader 1] raft_wf_log [OF ex_leader_wf]
    by (auto simp: Let_def)
  obtain reply rf' where r: "AppendEntry args ex_follower = Some (reply, rf')" "aer_Success reply"
    using AppendEntry_accept [of args ex_follower] raft_wf_log [OF ex_follower_wf] args by auto
  have "commitIndex rf' = 2"
    using AppendEntry_commit_paper_rule [OF ex_leader_wf _ _ args(1) ex_follower_wf r] args(5) c
    by simp
  then show ?thesis using args(1) r by blast
qed

section \<open>The commit rule of the leader\<close>

definition majorityMatch :: "int list \<Rightarrow> int" where
  "majorityMatch m = sort m ! (length m - (length m div 2 + 1))"

lemma majorityMatch_rank:
  assumes "m \<noteq> []"
  shows "card {p. p < length m \<and> majorityMatch m \<le> m ! p} > length m div 2"
proof -
  have "length m - (length m div 2 + 1) < length m" using assms by (cases m) auto
  from sort_nth_rank [OF this] show ?thesis
    using assms by (simp add: majorityMatch_def) (cases m; simp; linarith)
qed

text \<open>No larger index is stored on a majority.\<close>

lemma majorityMatch_greatest:
  assumes "m \<noteq> []" and "card {p. p < length m \<and> i \<le> m ! p} > length m div 2"
  shows "i \<le> majorityMatch m"
proof (rule ccontr)
  let ?k = "length m - (length m div 2 + 1)"
  assume "\<not> i \<le> majorityMatch m"
  then have lt: "sort m ! ?k < i" by (simp add: majorityMatch_def)
  have low: "filter (\<lambda>x. i \<le> x) (take (Suc ?k) (sort m)) = []"
  proof (rule filter_False, rule ballI)
    fix x assume "x \<in> set (take (Suc ?k) (sort m))"
    then obtain j where "j < Suc ?k" "j < length m" "x = sort m ! j"
      by (auto simp: in_set_conv_nth)
    then have "x \<le> sort m ! ?k" using assms(1) by (auto intro!: sorted_nth_mono)
    then show "\<not> i \<le> x" using lt by simp
  qed
  have "card {p. p < length m \<and> i \<le> m ! p} = length (filter (\<lambda>x. i \<le> x) m)"
    by (simp add: length_filter_conv_card)
  also have "\<dots> = length (filter (\<lambda>x. i \<le> x) (sort m))"
    by (metis mset_filter mset_sort size_mset)
  also have "filter (\<lambda>x. i \<le> x) (sort m)
      = filter (\<lambda>x. i \<le> x) (take (Suc ?k) (sort m) @ drop (Suc ?k) (sort m))"
    by (simp only: append_take_drop_id)
  also have "length \<dots> = length (filter (\<lambda>x. i \<le> x) (drop (Suc ?k) (sort m)))"
    by (simp only: filter_append low append_Nil)
  also have "\<dots> \<le> length m - Suc ?k"
    using length_filter_le [of "\<lambda>x. i \<le> x" "drop (Suc ?k) (sort m)"] by simp
  finally have "card {p. p < length m \<and> i \<le> m ! p} \<le> length m - Suc ?k" .
  then show False using assms by (cases m; simp; linarith)
qed

definition acceptCommit :: "('c, 'b) Raft \<Rightarrow> ('c, 'b) Raft" where
  "acceptCommit rf = (let c = majorityMatch (matchIndex rf) in
     if c > commitIndex rf \<and> firstIdx (logs rf) \<le> c \<and> c \<le> lastIdx (logs rf)
        \<and> currentTerm rf = termAt (logs rf) c
     then emit [SignalApply] (rf\<lparr>commitIndex := c\<rparr>) else rf)"

lemma acceptNewLogEntries_ok [raft_total]:
  assumes "log_ok (logs rf)" and "arrays_ok rf" and "peer < npeers rf"
  shows "acceptNewLogEntries peer args rf =
    (let i = ae_PrevLogIndex args + int (length (ae_Entries args)) in
     Some (acceptCommit (rf\<lparr>matchIndex := (matchIndex rf)[peer := i],
                            nextIndex := (nextIndex rf)[peer := i + 1]\<rparr>)))"
proof -
  let ?i = "ae_PrevLogIndex args + int (length (ae_Entries args))"
  let ?m = "(matchIndex rf)[peer := ?i]"
  let ?r = "rf\<lparr>matchIndex := ?m, nextIndex := (nextIndex rf)[peer := ?i + 1]\<rparr>"
  have len: "length ?m = npeers rf" "0 < npeers rf" using assms(2,3) by (auto simp: arrays_ok_def)
  then have "length ?m - (length ?m div 2 + 1) < length ?m" by linarith
  then have qs: "QuickSelect ?m (length ?m - (length ?m div 2 + 1)) = Some (majorityMatch ?m)"
    using quickselect_value by (simp add: majorityMatch_def)
  have lo: "log_ok (logs ?r)" using assms(1) by simp
  show ?thesis
    using qs by (simp add: acceptNewLogEntries_def updateLogIndices_ok [OF assms(2,3)] Let_def
        isLogMatched_ok [OF lo] acceptCommit_def)
qed

text \<open>An index the leader may commit: an entry of its own term stored on a majority.\<close>

definition committable :: "('c, 'b) Raft \<Rightarrow> int \<Rightarrow> bool" where
  "committable rf i \<longleftrightarrow> firstIdx (logs rf) \<le> i \<and> i \<le> lastIdx (logs rf)
     \<and> termAt (logs rf) i = currentTerm rf
     \<and> card {p. p < npeers rf \<and> i \<le> matchIndex rf ! p} > npeers rf div 2"

lemma termAt_mono:
  assumes "log_ok ls" and "terms_ok ls" and "firstIdx ls \<le> i" and "i \<le> j" and "j \<le> lastIdx ls"
  shows "termAt ls i \<le> termAt ls j"
proof -
  have "nat (i - firstIdx ls) \<le> nat (j - firstIdx ls)" "nat (j - firstIdx ls) < length ls"
    using assms log_ok_bound [OF assms(1), of j] by auto
  then show ?thesis
    using assms(2) sorted_nth_mono [of "map le_Term ls" "nat (i - firstIdx ls)" "nat (j - firstIdx ls)"]
    by (simp add: terms_ok_def termAt_def)
qed

lemma termAt_le_current:
  assumes "raft_wf rf" and "firstIdx (logs rf) \<le> i" and "i \<le> lastIdx (logs rf)"
  shows "termAt (logs rf) i \<le> currentTerm rf"
proof -
  have "nat (i - firstIdx (logs rf)) < length (logs rf)"
    using assms log_ok_bound [OF raft_wf_log [OF assms(1)], of i] by auto
  then show ?thesis using assms(1) by (auto simp: raft_wf_def termAt_def)
qed

lemma acceptCommit_rule:
  assumes wf: "raft_wf rf" and ub: "\<forall>m \<in> set (matchIndex rf). m \<le> lastIdx (logs rf)"
  shows "commitIndex rf \<le> commitIndex (acceptCommit rf)
    \<and> (commitIndex (acceptCommit rf) = commitIndex rf \<or> committable rf (commitIndex (acceptCommit rf)))
    \<and> (\<forall>i. committable rf i \<longrightarrow> i \<le> commitIndex (acceptCommit rf))"
proof -
  let ?m = "matchIndex rf" and ?c = "majorityMatch (matchIndex rf)"
  have ne: "?m \<noteq> []" "length ?m = npeers rf" using wf by (auto simp: raft_wf_def arrays_ok_def)
  have lo: "log_ok (logs rf)" "terms_ok (logs rf)" using wf by (auto simp: raft_wf_def)
  have "length ?m - (length ?m div 2 + 1) < length ?m" using ne(1) by (cases ?m) auto
  then have "?c \<in> set (sort ?m)" unfolding majorityMatch_def by (intro nth_mem) simp
  then have cl: "?c \<le> lastIdx (logs rf)" using ub by simp
  have up: "i \<le> ?c \<and> firstIdx (logs rf) \<le> ?c \<and> currentTerm rf = termAt (logs rf) ?c"
    if "committable rf i" for i
  proof -
    have i: "i \<le> ?c" "firstIdx (logs rf) \<le> i" "termAt (logs rf) i = currentTerm rf"
      using that majorityMatch_greatest [OF ne(1), of i] ne(2) by (auto simp: committable_def)
    then show ?thesis
      using termAt_mono [OF lo i(2,1) cl] termAt_le_current [OF wf _ cl] by linarith
  qed
  have rank: "card {p. p < npeers rf \<and> ?c \<le> ?m ! p} > npeers rf div 2"
    using majorityMatch_rank [OF ne(1)] ne(2) by simp
  show ?thesis
  proof (cases "?c > commitIndex rf \<and> firstIdx (logs rf) \<le> ?c \<and> currentTerm rf = termAt (logs rf) ?c")
    case True
    then have "commitIndex (acceptCommit rf) = ?c" using cl by (simp add: acceptCommit_def Let_def)
    then show ?thesis using True cl rank up by (auto simp: committable_def)
  next
    case False
    then have "acceptCommit rf = rf" by (auto simp: acceptCommit_def Let_def)
    then show ?thesis using False up by fastforce
  qed
qed

lemma committable_acceptCommit [simp]: "committable (acceptCommit rf) i = committable rf i"
  by (simp add: committable_def acceptCommit_def Let_def)

lemma acceptCommit_logs [simp]:
  "logs (acceptCommit rf) = logs rf" "currentTerm (acceptCommit rf) = currentTerm rf"
  "matchIndex (acceptCommit rf) = matchIndex rf" "nextIndex (acceptCommit rf) = nextIndex rf"
  "npeers (acceptCommit rf) = npeers rf" "me (acceptCommit rf) = me rf"
  "state (acceptCommit rf) = state rf" "voteFor (acceptCommit rf) = voteFor rf"
  "persister (acceptCommit rf) = persister rf" "grantedVotes (acceptCommit rf) = grantedVotes rf"
  "lastIncludedIndex (acceptCommit rf) = lastIncludedIndex rf" "dead (acceptCommit rf) = dead rf"
  "lastIncludedTerm (acceptCommit rf) = lastIncludedTerm rf"
  "lastApplied (acceptCommit rf) = lastApplied rf" "applyCh (acceptCommit rf) = applyCh rf"
  "electionTimer (acceptCommit rf) = electionTimer rf"
  "pendingSnapshot (acceptCommit rf) = pendingSnapshot rf"
  by (simp_all add: acceptCommit_def Let_def)

text \<open>
  C6: the commit rule.  After a successful reply the leader's commit index never goes down,
  and it is exactly the largest index that is either the old commit index or names an entry
  of the leader's current term that is stored on a majority of the peers.  In particular an
  entry of an older term is never committed by counting replicas.
\<close>

theorem acceptNewLogEntries_commit_rule:
  assumes "raft_wf rf" and "peer < npeers rf"
    and "ae_PrevLogIndex args + int (length (ae_Entries args)) \<le> lastIdx (logs rf)"
    and "\<forall>m \<in> set (matchIndex rf). m \<le> lastIdx (logs rf)"
  shows "\<exists>rf'. acceptNewLogEntries peer args rf = Some rf' \<and> raft_wf rf'
    \<and> matchIndex rf' = (matchIndex rf)[peer := ae_PrevLogIndex args + int (length (ae_Entries args))]
    \<and> commitIndex rf \<le> commitIndex rf'
    \<and> (commitIndex rf' = commitIndex rf \<or> committable rf' (commitIndex rf'))
    \<and> (\<forall>i. committable rf' i \<longrightarrow> i \<le> commitIndex rf')"
proof -
  let ?i = "ae_PrevLogIndex args + int (length (ae_Entries args))"
  let ?r = "rf\<lparr>matchIndex := (matchIndex rf)[peer := ?i], nextIndex := (nextIndex rf)[peer := ?i + 1]\<rparr>"
  have wf: "raft_wf ?r" using assms(1) by (simp add: raft_wf_def arrays_ok_def)
  have "\<forall>m \<in> set (matchIndex ?r). m \<le> lastIdx (logs ?r)"
    using assms(3,4) set_update_subset_insert [of "matchIndex rf" peer ?i] by auto
  note rule = acceptCommit_rule [OF wf this]
  have "raft_wf (acceptCommit ?r)" using wf by (simp add: raft_wf_def arrays_ok_def)
  with rule show ?thesis
    using acceptNewLogEntries_ok [OF raft_wf_log raft_wf_arrays assms(2), OF assms(1,1), of args]
    by (simp add: Let_def)
qed

theorem acceptNewLogEntries_commit_rule_witness:
  "\<exists>rf'. acceptNewLogEntries 1 (ex_request 2 1) ex_leader = Some rf' \<and> commitIndex rf' = 3"
proof -
  have m: "matchIndex ex_leader = [3, 0, 3]" by (simp add: ex_leader_def)
  have e: "ae_PrevLogIndex (ex_request 2 1) + int (length (ae_Entries (ex_request 2 1))) = 3"
    by (simp add: ex_request_def)
  obtain rf' where r: "acceptNewLogEntries 1 (ex_request 2 1) ex_leader = Some rf'"
      "matchIndex rf' = [3, 3, 3]" "commitIndex rf' = 2 \<or> committable rf' (commitIndex rf')"
      "committable rf' 3 \<longrightarrow> 3 \<le> commitIndex rf'"
    using acceptNewLogEntries_commit_rule [OF ex_leader_wf, of 1 "ex_request 2 1"] m e by auto
  have "logs rf' = logs ex_leader" "npeers rf' = 3" "currentTerm rf' = 2"
    using r(1) acceptNewLogEntries_ok [OF raft_wf_log raft_wf_arrays, OF ex_leader_wf ex_leader_wf,
        of 1 "ex_request 2 1"] by (auto simp: Let_def)
  moreover have "termAt (logs ex_leader) 3 = 2"
    by (simp add: termAt_def) (simp add: ex_leader_def ex_follower_def generateSingleLog_def ex_entry_def)
  moreover have "{p. p < 3 \<and> 3 \<le> [3, 3, 3::int] ! p} = {0, 1, 2}"
    by (auto simp: nth_Cons' less_Suc_eq numeral_3_eq_3)
  ultimately have "committable rf' 3" using r(2) by (simp add: committable_def)
  then show ?thesis using r \<open>logs rf' = logs ex_leader\<close> by (auto simp: committable_def)
qed

end
