(* ===== verification/RaftProgress.thy ===== *)
theory RaftProgress
  imports RaftLeader
begin

text \<open>
  Progress of replication: where \<open>rollBackToConflictTerm\<close> moves \<open>nextIndex\<close>, and what one
  whole exchange of \<open>doSendAppendEntry\<close> with a follower achieves.
\<close>

section \<open>Rolling back after a refusal\<close>

definition clamp :: "int \<Rightarrow> int \<Rightarrow> int \<Rightarrow> int" where
  "clamp lo hi x = min hi (max lo x)"

text \<open>The first index of the log, up to \<open>hi\<close>, whose entry has term \<open>t\<close>.\<close>

definition first_of_term :: "'c LogEntry list \<Rightarrow> int \<Rightarrow> int \<Rightarrow> int \<Rightarrow> bool" where
  "first_of_term ls t hi i \<longleftrightarrow> firstIdx ls \<le> i \<and> i \<le> hi \<and> termAt ls i = t
     \<and> (\<forall>j. firstIdx ls \<le> j \<and> j < i \<longrightarrow> termAt ls j < t)"

lemma rollback_probe_ok:
  assumes "0 \<le> h" and "h < int (length ls)"
  shows "rollback_probe ls t h = Some (t \<le> termAt ls (firstIdx ls + h))"
  using assms by (simp add: rollback_probe_def go_nth_def termAt_def)

lemma rollback_search:
  assumes lo: "log_ok ls" and to: "terms_ok ls" and hi: "hi \<le> lastIdx ls" "firstIdx ls \<le> hi"
  shows "\<exists>k. sort_Search (hi - firstIdx ls) (rollback_probe ls t) = Some k \<and> 0 \<le> k
    \<and> firstIdx ls + k \<le> hi
    \<and> (\<forall>j. firstIdx ls \<le> j \<and> j < firstIdx ls + k \<longrightarrow> termAt ls j < t)
    \<and> (\<forall>j. firstIdx ls + k \<le> j \<and> j < hi \<longrightarrow> t \<le> termAt ls j)"
proof -
  let ?n = "hi - firstIdx ls" and ?f = "rollback_probe ls t"
  let ?p = "\<lambda>h. t \<le> termAt ls (firstIdx ls + h)"
  have n: "0 \<le> ?n" "?n < int (length ls)" using hi lo by (auto simp: log_ok_lastIdx)
  have f: "?f h = Some (?p h)" if "0 \<le> h" "h < ?n" for h
    using rollback_probe_ok [of h ls t] that n by simp
  obtain k where k: "sort_Search ?n ?f = Some k" using sort_Search_total [of ?n ?f] f n by auto
  have "0 \<le> k \<and> k \<le> ?n \<and> (\<forall>h. 0 \<le> h \<and> h < k \<longrightarrow> \<not> ?p h) \<and> (\<forall>h. k \<le> h \<and> h < ?n \<longrightarrow> ?p h)"
  proof (rule search_loop_least [of ?f 0 ?n k ?p])
    show "search_loop ?f 0 ?n = Some k" using k by (simp add: sort_Search_def)
    show "0 \<le> ?n" by (rule n)
    show "?f h = Some (?p h)" if "0 \<le> h" "h < ?n" for h using f [OF that] .
    show "?p h" if "0 \<le> g" "g \<le> h" "h < ?n" "?p g" for g h
      using termAt_mono [OF lo to, of "firstIdx ls + g" "firstIdx ls + h"] that hi by simp
  qed
  then have k0: "0 \<le> k" "k \<le> ?n" and lt: "\<And>h. 0 \<le> h \<Longrightarrow> h < k \<Longrightarrow> \<not> ?p h"
    and ge: "\<And>h. k \<le> h \<Longrightarrow> h < ?n \<Longrightarrow> ?p h" by auto
  have "termAt ls j < t" if "firstIdx ls \<le> j" "j < firstIdx ls + k" for j
    using lt [of "j - firstIdx ls"] that by simp
  moreover have "t \<le> termAt ls j" if "firstIdx ls + k \<le> j" "j < hi" for j
    using ge [of "j - firstIdx ls"] that by simp
  ultimately show ?thesis using k k0 by auto
qed

text \<open>The branch of \<open>rollBackToConflictTerm\<close> with a conflicting term.\<close>

lemma rollback_found:
  assumes lo: "log_ok ls" and to: "terms_ok ls" and hi: "hi \<le> lastIdx ls"
  shows "\<exists>k b. sort_Search (hi - firstIdx ls) (rollback_probe ls t) = Some k
    \<and> (if firstIdx ls + k \<le> hi
       then do { e \<leftarrow> go_nth ls (firstIdx ls + k - firstIdx ls); Some (le_Term e = t) }
       else Some False) = Some b
    \<and> (b \<longrightarrow> first_of_term ls t hi (firstIdx ls + k)) \<and> (\<not> b \<longrightarrow> (\<nexists>i. first_of_term ls t hi i))"
proof (cases "firstIdx ls \<le> hi")
  case False
  then show ?thesis by (auto simp: sort_Search_neg first_of_term_def)
next
  case True
  obtain k where k: "sort_Search (hi - firstIdx ls) (rollback_probe ls t) = Some k" "0 \<le> k"
      "firstIdx ls + k \<le> hi"
    and lt: "\<And>j. firstIdx ls \<le> j \<Longrightarrow> j < firstIdx ls + k \<Longrightarrow> termAt ls j < t"
    and ge: "\<And>j. firstIdx ls + k \<le> j \<Longrightarrow> j < hi \<Longrightarrow> t \<le> termAt ls j"
    using rollback_search [OF lo to hi True, of t] by blast
  have b: "go_nth ls k = Some (ls ! nat k)" "le_Term (ls ! nat k) = termAt ls (firstIdx ls + k)"
    using k hi log_ok_bound [OF lo, of "firstIdx ls + k"] by (auto simp: go_nth_def termAt_def)
  have no: "\<not> first_of_term ls t hi i" if ne: "termAt ls (firstIdx ls + k) \<noteq> t" for i
  proof
    assume i: "first_of_term ls t hi i"
    then have "\<not> i < firstIdx ls + k" "i \<noteq> firstIdx ls + k"
      using lt [of i] ne by (auto simp: first_of_term_def)
    then have gt: "firstIdx ls + k < i" by simp
    then have "termAt ls (firstIdx ls + k) < t" "t \<le> termAt ls (firstIdx ls + k)"
      using i k ge [of "firstIdx ls + k"] by (auto simp: first_of_term_def)
    then show False by simp
  qed
  show ?thesis
    using k b lt no by (auto simp: first_of_term_def)
qed

lemma rollBack_result:
  assumes "raft_wf rf" and "peer < npeers rf" and "ae_PrevLogIndex args \<le> lastIdx (logs rf)"
  shows "\<exists>n. rollBackToConflictTerm peer args reply rf
        = Some (rf\<lparr>nextIndex := (nextIndex rf)[peer := n]\<rparr>)
    \<and> firstIdx (logs rf) \<le> n \<and> n \<le> lastIdx (logs rf) + 1
    \<and> (if aer_ConflictTerm reply \<noteq> -1
          \<and> (\<exists>i. first_of_term (logs rf) (aer_ConflictTerm reply) (ae_PrevLogIndex args) i)
       then first_of_term (logs rf) (aer_ConflictTerm reply) (ae_PrevLogIndex args) (n - 1)
       else n = clamp (firstIdx (logs rf)) (lastIdx (logs rf) + 1) (aer_ConflictIndex reply))"
proof -
  let ?ls = "logs rf" and ?t = "aer_ConflictTerm reply" and ?p = "ae_PrevLogIndex args"
  have lo: "log_ok ?ls" "terms_ok ?ls" and ar: "length (nextIndex rf) = npeers rf"
    using assms(1) by (auto simp: raft_wf_def arrays_ok_def)
  have fl: "firstIdx ?ls \<le> lastIdx ?ls" by (rule log_ok_first_le_last [OF lo(1)])
  have gl: "getFirstLog (rf\<lparr>nextIndex := x\<rparr>) = Some (hd ?ls)"
    "getLatestLog (rf\<lparr>nextIndex := x\<rparr>) = Some (last ?ls)" for x
    using lo(1) by (simp_all add: getFirstLog_ok getLatestLog_ok)
  have h: "le_Index (hd ?ls) = firstIdx ?ls" "le_Index (last ?ls) = lastIdx ?ls"
    by (simp_all add: firstIdx_def lastIdx_def)
  have upd: "go_upd xs (int peer) v = Some (xs[peer := v])" "go_nth xs (int peer) = Some (xs ! peer)"
    if "length xs = npeers rf" for xs v using that assms(2) by (simp_all add: go_simps)
  obtain k b where kb: "sort_Search (?p - firstIdx ?ls) (rollback_probe ?ls ?t) = Some k"
      "(if firstIdx ?ls + k \<le> ?p
       then do { e \<leftarrow> go_nth ?ls (firstIdx ?ls + k - firstIdx ?ls); Some (le_Term e = ?t) }
       else Some False) = Some b"
    and b: "b \<Longrightarrow> first_of_term ?ls ?t ?p (firstIdx ?ls + k)"
      "\<not> b \<Longrightarrow> \<nexists>i. first_of_term ?ls ?t ?p i"
    using rollback_found [OF lo assms(3), of ?t] by metis
  define x where "x = (if ?t \<noteq> -1 \<and> b then firstIdx ?ls + k + 1 else aer_ConflictIndex reply)"
  have r: "rollBackToConflictTerm peer args reply rf
      = Some (rf\<lparr>nextIndex := (nextIndex rf)[peer := clamp (firstIdx ?ls) (lastIdx ?ls + 1) x]\<rparr>)"
  proof (cases "?t = -1")
    case True
    then show ?thesis using fl assms(2)
      by (simp add: rollBackToConflictTerm_def gl h upd ar Let_def x_def clamp_def min_def max_def)
  next
    case False
    show ?thesis
    proof (cases "firstIdx ?ls + k \<le> ?p")
      case le: True
      then obtain e where e: "go_nth ?ls k = Some e" "b = (le_Term e = ?t)"
        using kb(2) by (auto simp: bind_eq_Some_conv)
      show ?thesis
      proof (cases b)
        case True
        have "clamp (firstIdx ?ls) (lastIdx ?ls + 1) x = firstIdx ?ls + k + 1"
          "\<not> lastIdx ?ls < firstIdx ?ls + k" "\<not> firstIdx ?ls + k + 1 < firstIdx ?ls"
          using b(1) [OF True] True False assms(3) by (auto simp: x_def clamp_def first_of_term_def)
        then show ?thesis using e True False assms(2) kb(1) le
          by (simp add: rollBackToConflictTerm_def gl h upd ar Let_def)
      next
        case nb: False
        then show ?thesis using e False fl assms(2) kb(1) le
          by (simp add: rollBackToConflictTerm_def gl h upd ar Let_def x_def clamp_def min_def max_def)
      qed
    next
      case gt: False
      then have "\<not> b" using kb(2) by simp
      then show ?thesis using False fl assms(2) kb(1) gt
        by (simp add: rollBackToConflictTerm_def gl h upd ar Let_def x_def clamp_def min_def max_def)
    qed
  qed
  have c: "clamp (firstIdx ?ls) (lastIdx ?ls + 1) x = x" if "?t \<noteq> -1 \<and> b"
    using b(1) that assms(3) by (auto simp: x_def clamp_def first_of_term_def)
  show ?thesis
  proof (intro exI conjI)
    show "rollBackToConflictTerm peer args reply rf = Some (rf\<lparr>nextIndex := (nextIndex rf)[peer :=
        clamp (firstIdx ?ls) (lastIdx ?ls + 1) x]\<rparr>)" by (rule r)
  qed (use fl c b in \<open>auto simp: clamp_def x_def\<close>)
qed

text \<open>
  \<open>rollBackToConflictTerm\<close> never panics, changes only the peer's \<open>nextIndex\<close> and keeps it
  between the leader's first index and the index after its last one.  When the leader's log has
  an entry of the conflicting term up to \<open>PrevLogIndex\<close>, the new value is the index after the
  first such entry (the binary search is exact); otherwise it is the follower's hint, clamped.
\<close>

theorem rollBackToConflictTerm_exact:
  assumes "raft_wf rf" and "peer < npeers rf" and "ae_PrevLogIndex args \<le> lastIdx (logs rf)"
  shows "\<exists>n. rollBackToConflictTerm peer args reply rf
        = Some (rf\<lparr>nextIndex := (nextIndex rf)[peer := n]\<rparr>)
    \<and> firstIdx (logs rf) \<le> n \<and> n \<le> lastIdx (logs rf) + 1
    \<and> (if aer_ConflictTerm reply \<noteq> -1
          \<and> (\<exists>i. first_of_term (logs rf) (aer_ConflictTerm reply) (ae_PrevLogIndex args) i)
       then first_of_term (logs rf) (aer_ConflictTerm reply) (ae_PrevLogIndex args) (n - 1)
       else n = clamp (firstIdx (logs rf)) (lastIdx (logs rf) + 1) (aer_ConflictIndex reply))"
  using assms by (rule rollBack_result)

theorem rollBackToConflictTerm_exact_witness:
  "\<exists>rf'. rollBackToConflictTerm 1 (ex_request 3 2) (ae_reply 2 False 2 1) ex_leader = Some rf'
     \<and> nextIndex rf' ! 1 = 2"
proof -
  have v: "termAt (logs ex_leader) 0 = 0" "termAt (logs ex_leader) 1 = 1"
    "termAt (logs ex_leader) 2 = 1" "termAt (logs ex_leader) 3 = 2"
    by (simp_all add: termAt_def firstIdx_def ex_leader_def ex_follower_def generateSingleLog_def
        ex_entry_def)
  have one: "first_of_term (logs ex_leader) 1 3 1"
  proof -
    have "termAt (logs ex_leader) j < 1" if "0 \<le> j" "j < 1" for j
    proof -
      have "j = 0" using that by arith
      then show ?thesis using v by simp
    qed
    then show ?thesis using v by (auto simp: first_of_term_def)
  qed
  have uniq: "i = 1" if i: "first_of_term (logs ex_leader) 1 3 i" for i
  proof -
    have "i = 0 \<or> i = 1 \<or> i = 2 \<or> i = 3" using i by (simp add: first_of_term_def) arith
    moreover have "i \<noteq> 2" using i v spec [of "\<lambda>j. 0 \<le> j \<and> j < i \<longrightarrow> termAt (logs ex_leader) j < 1" 1]
      by (auto simp: first_of_term_def)
    ultimately show ?thesis using i v by (auto simp: first_of_term_def)
  qed
  have len: "nextIndex ex_leader = [4, 2, 4]" by (simp add: ex_leader_def)
  have "\<exists>i. first_of_term (logs ex_leader) 1 3 i" using one by blast
  then obtain n where n: "rollBackToConflictTerm 1 (ex_request 3 2) (ae_reply 2 False 2 1) ex_leader
        = Some (ex_leader\<lparr>nextIndex := (nextIndex ex_leader)[1 := n]\<rparr>)"
      "first_of_term (logs ex_leader) 1 3 (n - 1)"
    using rollBackToConflictTerm_exact [OF ex_leader_wf, of 1 "ex_request 3 2" "ae_reply 2 False 2 1"]
    by (auto simp: ex_request_def)
  have "n = 2" using uniq [OF n(2)] by simp
  then show ?thesis using n(1) len by simp
qed

section \<open>One exchange with a follower\<close>

text \<open>
  \<open>doSendAppendEntry\<close> from its start to its end, when the call to the peer succeeds: the
  request, the peer's handler, and the continuation with its reply.
\<close>

definition exchange ::
  "nat \<Rightarrow> ('c, 'b) Raft \<times> ('c, 'b) Raft \<Rightarrow> (('c, 'b) Raft \<times> ('c, 'b) Raft) option" where
  "exchange peer s = (case s of (lf, ff) \<Rightarrow> do {
     r \<leftarrow> doSendAppendEntry peer lf;
     case r of
       None \<Rightarrow> Some (lf, ff)
     | Some (ReqSnapshot args) \<Rightarrow> do {
         (reply, ff) \<leftarrow> InstallSnapShot args ff;
         lf \<leftarrow> handleInstallSnapShotReply peer args reply lf;
         Some (lf, ff) }
     | Some (ReqAppend args) \<Rightarrow> do {
         (reply, ff) \<leftarrow> AppendEntry args ff;
         lf \<leftarrow> handleAppendEntryReply peer args reply lf;
         Some (lf, ff) }
   })"

text \<open>A leader about to send log entries to a follower whose term is not newer.\<close>

definition sends_entries :: "nat \<Rightarrow> ('c, 'b) Raft \<Rightarrow> ('c, 'b) Raft \<Rightarrow> bool" where
  "sends_entries peer lf ff \<longleftrightarrow> raft_wf lf \<and> raft_wf ff \<and> state lf = Leader \<and> peer < npeers lf
     \<and> currentTerm ff \<le> currentTerm lf \<and> firstIdx (logs lf) < nextIndex lf ! peer
     \<and> nextIndex lf ! peer \<le> lastIdx (logs lf) + 1"

lemma exchange_entries:
  assumes "sends_entries peer lf ff"
  obtains args reply ff' where
    "genAppendEntryArgs (nextIndex lf ! peer - 1) lf = Some args"
    "ae_Term args = currentTerm lf" "ae_PrevLogIndex args = nextIndex lf ! peer - 1"
    "ae_PrevLogTerm args = termAt (logs lf) (nextIndex lf ! peer - 1)"
    "ae_Entries args = drop (nat (nextIndex lf ! peer - firstIdx (logs lf))) (logs lf)"
    "ae_wf args" "AppendEntry args ff = Some (reply, ff')"
    "exchange peer (lf, ff) = do { lf \<leftarrow> handleAppendEntryReply peer args reply lf; Some (lf, ff') }"
proof -
  let ?n = "nextIndex lf ! peer"
  have a: "raft_wf lf" "raft_wf ff" "state lf = Leader" "peer < npeers lf"
    "firstIdx (logs lf) \<le> ?n - 1" "?n - 1 \<le> lastIdx (logs lf)"
    using assms by (auto simp: sends_entries_def)
  have lo: "log_ok (logs lf)" by (rule raft_wf_log [OF a(1)])
  obtain args where args: "genAppendEntryArgs (?n - 1) lf = Some args" "ae_wf args"
    using gen_wf [OF a(1,5)] by blast
  obtain reply ff' where r: "AppendEntry args ff = Some (reply, ff')"
    using AppendEntry_result [OF a(2) args(2)] by blast
  have len: "length (nextIndex lf) = npeers lf" using a(1) by (simp add: raft_wf_def arrays_ok_def)
  have s: "doSendAppendEntry peer lf = Some (Some (ReqAppend args))"
    using a len args by (simp add: doSendAppendEntry_def getFirstLog_ok [OF lo] go_simps Let_def
        flip: firstIdx_def)
  show thesis
  proof (rule that [OF args(1) _ _ _ _ args(2) r])
    show "exchange peer (lf, ff) = do { lf \<leftarrow> handleAppendEntryReply peer args reply lf; Some (lf, ff') }"
      by (simp add: exchange_def s r)
  qed (use args(1) genAppendEntryArgs_ok [OF lo a(5)] a(6) in \<open>auto simp: Let_def\<close>)
qed

lemma accept_reply:
  assumes "sends_entries peer lf ff" and "aer_Success reply" and "ae_Term args = currentTerm lf"
  shows "handleAppendEntryReply peer args reply lf = acceptNewLogEntries peer args lf"
  using assms by (simp add: handleAppendEntryReply_def isValidLeader_def sends_entries_def)

lemma refuse_reply:
  assumes "sends_entries peer lf ff" and "\<not> aer_Success reply" and "ae_Term args = currentTerm lf"
    and "aer_Term reply \<le> currentTerm lf"
  shows "handleAppendEntryReply peer args reply lf
    = do { rf \<leftarrow> rollBackToConflictTerm peer args reply lf; Some (emit [SignalReplicate peer] rf) }"
  using assms by (simp add: handleAppendEntryReply_def isValidLeader_def sends_entries_def)

lemma refusal_term:
  assumes "raft_wf rf" and "currentTerm rf \<le> ae_Term args" and "\<not> matches args (logs rf)"
    and "AppendEntry args rf = Some (reply, rf')"
  shows "aer_Term reply = ae_Term args"
  using assms(2-4) AppendEntry_current [OF _ raft_wf_log [OF assms(1)], of args]
  by (auto simp: Let_def split: if_splits bind_splits)

text \<open>The terms of the entries a leader sends are those of its log.\<close>

lemma sent_terms:
  assumes "log_ok ls" and "firstIdx ls \<le> p" and "p < i" and "i \<le> lastIdx ls"
  shows "\<exists>m. i = p + 1 + int m \<and> m < length (drop (nat (p + 1 - firstIdx ls)) ls)
    \<and> le_Term (drop (nat (p + 1 - firstIdx ls)) ls ! m) = termAt ls i"
proof (intro exI conjI)
  have b: "i - firstIdx ls < int (length ls)" using log_ok_bound [OF assms(1), of i] assms(4) by simp
  show "i = p + 1 + int (nat (i - p - 1))" using assms by simp
  show "nat (i - p - 1) < length (drop (nat (p + 1 - firstIdx ls)) ls)" using assms b by auto
  have "nat (p + 1 - firstIdx ls) + nat (i - p - 1) = nat (i - firstIdx ls)" using assms by simp
  then show "le_Term (drop (nat (p + 1 - firstIdx ls)) ls ! nat (i - p - 1)) = termAt ls i"
    using assms b by (simp add: termAt_def)
qed

lemma exchange_accepted:
  assumes se: "sends_entries peer lf ff" and ok: "AppendEntry args ff = Some (reply, ff')"
    and args: "ae_Term args = currentTerm lf" "ae_PrevLogIndex args = nextIndex lf ! peer - 1"
      "ae_Entries args = drop (nat (nextIndex lf ! peer - firstIdx (logs lf))) (logs lf)" "ae_wf args"
    and m: "matches args (logs ff)"
  shows "\<exists>lf'. handleAppendEntryReply peer args reply lf = Some lf'
    \<and> matchIndex lf' ! peer = lastIdx (logs lf)
    \<and> (\<forall>i. nextIndex lf ! peer \<le> i \<and> i \<le> lastIdx (logs lf) \<longrightarrow> termAt (logs ff') i = termAt (logs lf) i)"
proof -
  let ?n = "nextIndex lf ! peer"
  have wf: "raft_wf lf" "raft_wf ff" "peer < npeers lf" and t: "currentTerm ff \<le> currentTerm lf"
    and n: "firstIdx (logs lf) \<le> ?n - 1" "?n - 1 \<le> lastIdx (logs lf)"
    using se by (auto simp: sends_entries_def)
  have len: "length (matchIndex lf) = npeers lf" using wf by (simp add: raft_wf_def arrays_ok_def)
  note lo = raft_wf_log [OF wf(1)]
  have s: "aer_Success reply" using AppendEntry_iff(1) [OF wf(2) args(4) ok] m t args(1) by simp
  have ff': "logs ff' = merge_log (ae_PrevLogIndex args) (ae_Entries args) (logs ff)"
    using AppendEntry_iff(3) [OF wf(2) args(4) ok s] by simp
  have "termAt (logs ff') i = termAt (logs lf) i" if i: "?n \<le> i" "i \<le> lastIdx (logs lf)" for i
    using sent_terms [OF lo n(1), of i] i args(2,3)
      merge_log_contents(2) [OF raft_wf_log [OF wf(2)] args(4) m ff'] by auto
  moreover have "ae_PrevLogIndex args + int (length (ae_Entries args)) = lastIdx (logs lf)"
    using length_drop_log [OF lo n] args(2,3) by simp
  ultimately show ?thesis
    using acceptNewLogEntries_ok [OF lo raft_wf_arrays [OF wf(1)] wf(3), of args] wf(3) len
    by (simp add: accept_reply [OF se s args(1)] Let_def)
qed

definition rolled :: "nat \<Rightarrow> int \<Rightarrow> ('c, 'b) Raft \<Rightarrow> ('c, 'b) Raft" where
  "rolled peer n lf = emit [SignalReplicate peer] (lf\<lparr>nextIndex := (nextIndex lf)[peer := n]\<rparr>)"

lemma rolled_simps [simp]:
  "logs (rolled peer n lf) = logs lf" "state (rolled peer n lf) = state lf"
  "npeers (rolled peer n lf) = npeers lf" "currentTerm (rolled peer n lf) = currentTerm lf"
  "raft_wf (rolled peer n lf) = raft_wf lf"
  "nextIndex (rolled peer n lf) = (nextIndex lf)[peer := n]"
  "commitIndex (rolled peer n lf) = commitIndex lf"
  by (simp_all add: rolled_def raft_wf_def arrays_ok_def)

lemma exchange_refused:
  assumes se: "sends_entries peer lf ff" and ok: "AppendEntry args ff = Some (reply, ff')"
    and args: "ae_Term args = currentTerm lf" "ae_PrevLogIndex args = nextIndex lf ! peer - 1"
      "ae_PrevLogTerm args = termAt (logs lf) (nextIndex lf ! peer - 1)"
    and m: "\<not> matches args (logs ff)"
  shows "\<exists>n. handleAppendEntryReply peer args reply lf = Some (rolled peer n lf)
    \<and> ff' = asFollower (currentTerm lf) ff
    \<and> (if nextIndex lf ! peer \<le> firstIdx (logs ff)
       then n = clamp (firstIdx (logs lf)) (lastIdx (logs lf) + 1) (firstIdx (logs ff))
       else n < nextIndex lf ! peer)"
proof -
  let ?n = "nextIndex lf ! peer"
  have wf: "raft_wf lf" "raft_wf ff" "peer < npeers lf" and t: "currentTerm ff \<le> ae_Term args"
    and n: "firstIdx (logs lf) < ?n" "?n - 1 \<le> lastIdx (logs lf)"
    using se args(1) by (auto simp: sends_entries_def)
  note h = refusal_hint [OF wf(2) t m ok]
  have rt: "aer_Term reply \<le> currentTerm lf"
    using refusal_term [OF wf(2) t m ok] args(1) by simp
  obtain n where r: "rollBackToConflictTerm peer args reply lf
        = Some (lf\<lparr>nextIndex := (nextIndex lf)[peer := n]\<rparr>)"
    and cases: "if aer_ConflictTerm reply \<noteq> -1
          \<and> (\<exists>i. first_of_term (logs lf) (aer_ConflictTerm reply) (?n - 1) i)
       then first_of_term (logs lf) (aer_ConflictTerm reply) (?n - 1) (n - 1)
       else n = clamp (firstIdx (logs lf)) (lastIdx (logs lf) + 1) (aer_ConflictIndex reply)"
    using rollBack_result [OF wf(1,3), of args reply] n(2) unfolding args(2) by blast
  have found: "n < ?n" if "first_of_term (logs lf) (aer_ConflictTerm reply) (?n - 1) (n - 1)"
    "aer_ConflictTerm reply \<noteq> termAt (logs lf) (?n - 1)"
    using that by (cases "n = ?n") (auto simp: first_of_term_def)
  have "n < ?n" if "\<not> ?n \<le> firstIdx (logs ff)"
  proof (cases "lastIdx (logs ff) < ?n - 1")
    case True
    then show ?thesis using h that cases n args(2) by (auto simp: clamp_def)
  next
    case False
    then have ct: "aer_ConflictTerm reply = termAt (logs ff) (?n - 1)"
        "aer_ConflictIndex reply \<le> ?n - 1" using h that args(2) by auto
    moreover have "termAt (logs ff) (?n - 1) \<noteq> termAt (logs lf) (?n - 1)"
      using m that False args(2,3) by (auto simp: matches_def)
    ultimately show ?thesis using found cases n by (auto simp: clamp_def split: if_splits)
  qed
  moreover have "n = clamp (firstIdx (logs lf)) (lastIdx (logs lf) + 1) (firstIdx (logs ff))"
    if "?n \<le> firstIdx (logs ff)" using h that cases args(2) by auto
  moreover have "handleAppendEntryReply peer args reply lf = Some (rolled peer n lf)"
    using h r by (simp add: refuse_reply [OF se _ args(1) rt] rolled_def)
  ultimately show ?thesis using h args(1) by (intro exI [of _ n]) simp
qed


text \<open>
  A leader and a follower that has compacted its log up to the entry the leader sends next.
\<close>

definition wedged :: "nat \<Rightarrow> ('c, 'b) Raft \<Rightarrow> ('c, 'b) Raft \<Rightarrow> bool" where
  "wedged peer lf ff \<longleftrightarrow> sends_entries peer lf ff \<and> nextIndex lf ! peer = firstIdx (logs ff)"

lemma wedged_step:
  assumes "wedged peer lf ff"
  shows "\<exists>lf' ff'. exchange peer (lf, ff) = Some (lf', ff') \<and> wedged peer lf' ff'
    \<and> logs lf' = logs lf \<and> logs ff' = logs ff \<and> commitIndex ff' = commitIndex ff"
proof -
  have se: "sends_entries peer lf ff" and n: "nextIndex lf ! peer = firstIdx (logs ff)"
    using assms by (auto simp: wedged_def)
  obtain args reply ff' where x: "ae_Term args = currentTerm lf"
      "ae_PrevLogIndex args = nextIndex lf ! peer - 1"
      "ae_PrevLogTerm args = termAt (logs lf) (nextIndex lf ! peer - 1)"
      "AppendEntry args ff = Some (reply, ff')"
      "exchange peer (lf, ff) = do { lf \<leftarrow> handleAppendEntryReply peer args reply lf; Some (lf, ff') }"
    by (rule exchange_entries [OF se])
  have "\<not> matches args (logs ff)" using x(2) n by (simp add: matches_def)
  then obtain k where k: "handleAppendEntryReply peer args reply lf = Some (rolled peer k lf)"
      "ff' = asFollower (currentTerm lf) ff"
      "k = clamp (firstIdx (logs lf)) (lastIdx (logs lf) + 1) (firstIdx (logs ff))"
    using exchange_refused [OF se x(4) x(1-3)] n by auto
  have "k = nextIndex lf ! peer" using k(3) n se by (auto simp: clamp_def sends_entries_def)
  moreover have "peer < length (nextIndex lf)"
    using se by (simp add: sends_entries_def raft_wf_def arrays_ok_def)
  ultimately have "wedged peer (rolled peer k lf) ff'"
    using assms k(2) asFollower_wf by (auto simp: wedged_def sends_entries_def)
  then show ?thesis using x(5) k(1,2) by simp
qed

text \<open>Any number of exchanges.\<close>

primrec exchanges ::
  "nat \<Rightarrow> nat \<Rightarrow> ('c, 'b) Raft \<times> ('c, 'b) Raft \<Rightarrow> (('c, 'b) Raft \<times> ('c, 'b) Raft) option" where
  "exchanges 0 peer s = Some s"
| "exchanges (Suc k) peer s = do { s \<leftarrow> exchange peer s; exchanges k peer s }"

text \<open>
  C11: a replication livelock.  When the leader's \<open>nextIndex\<close> for a follower is the follower's
  first index (the follower has compacted up to it, the leader has not), every exchange is
  refused with the hint \<open>ConflictIndex\<close> = that same index, to which the leader resets
  \<open>nextIndex\<close>: after any number of exchanges nothing has changed, the follower has received no
  entry, and the leader never falls back to sending its snapshot.
\<close>

theorem replication_livelock:
  assumes "wedged peer lf ff"
  shows "\<exists>lf' ff'. exchanges k peer (lf, ff) = Some (lf', ff') \<and> wedged peer lf' ff'
    \<and> logs lf' = logs lf \<and> logs ff' = logs ff \<and> commitIndex ff' = commitIndex ff"
  using assms
proof (induction k arbitrary: lf ff)
  case 0
  then show ?case by simp
next
  case (Suc k)
  obtain lf1 ff1 where s: "exchange peer (lf, ff) = Some (lf1, ff1)" "wedged peer lf1 ff1"
      "logs lf1 = logs lf" "logs ff1 = logs ff" "commitIndex ff1 = commitIndex ff"
    using wedged_step [OF Suc.prems] by blast
  then show ?case using Suc.IH [OF s(2)] by simp
qed

definition ex_compacted :: "(nat, nat) Raft" where
  "ex_compacted = ex_follower\<lparr>logs := generateSingleLog 2 1, lastIncludedIndex := 2,
     lastIncludedTerm := 1, commitIndex := 2, lastApplied := 2\<rparr>"

lemma ex_compacted_wf: "raft_wf ex_compacted"
  by (simp add: raft_wf_def ex_compacted_def arrays_ok_def)
     (simp add: ex_follower_def boot_def generateSingleLog_def)

lemma ex_wedged: "wedged 1 ex_leader ex_compacted"
  using ex_leader_wf ex_compacted_wf
  by (simp add: wedged_def sends_entries_def) (simp add: ex_leader_def ex_compacted_def)

theorem replication_livelock_witness:
  "\<exists>lf' ff'. exchanges 1000 1 (ex_leader, ex_compacted) = Some (lf', ff')
     \<and> lastIdx (logs lf') = 3 \<and> lastIdx (logs ff') = 2"
proof -
  have "lastIdx (logs ex_compacted) = 2" by (simp add: ex_compacted_def)
  then show ?thesis using replication_livelock [OF ex_wedged, of 1000] by auto
qed


end
