(* ===== verification/RaftNode.thy ===== *)
theory RaftNode
  imports RaftProgress
begin

text \<open>
  What a Raft peer has on disk, and the invariant of a peer that includes it.  \<open>node_ok\<close> adds
  to \<open>raft_wf\<close> that the persisted log is the log in memory, that the persisted term covers every
  entry, and that the persisted vote is the current one unless the peer has moved to a newer term
  in which it has not voted.  Every method preserves it, so a restart from disk at any point
  gives a well-formed peer that remembers its log and its votes.
\<close>

section \<open>The persisted state\<close>

type_synonym 'c saved = "int \<times> int \<times> 'c LogEntry list \<times> int \<times> int"

definition saved :: "('c, 'b) disk \<Rightarrow> 'c saved" where
  "saved d = (case decode_state (ReadRaftState d) of
     Some x \<Rightarrow> x | None \<Rightarrow> (0, -1, generateSingleLog 0 0, 0, 0))"

definition pterm :: "('c, 'b) disk \<Rightarrow> int" where "pterm d = fst (saved d)"
definition pvote :: "('c, 'b) disk \<Rightarrow> int" where "pvote d = fst (snd (saved d))"
definition plogs :: "('c, 'b) disk \<Rightarrow> 'c LogEntry list" where "plogs d = fst (snd (snd (saved d)))"

lemma saved_fresh: "saved MakePersister = (0, -1, generateSingleLog 0 0, 0, 0)"
  by (simp add: saved_def MakePersister_def ReadRaftState_def decode_state_def)

lemma saved_persist [simp]:
  "saved (persister (persist s rf)) =
     (currentTerm rf, voteFor rf, logs rf, lastIncludedIndex rf, lastIncludedTerm rf)"
  by (simp add: saved_def persist_def decode_state_def Let_def split: option.splits)

lemma saved_persistState [simp]:
  "saved (persister (persistState rf)) =
     (currentTerm rf, voteFor rf, logs rf, lastIncludedIndex rf, lastIncludedTerm rf)"
  by (simp add: persistState_def)

lemma p_persist [simp]:
  "pterm (persister (persist s rf)) = currentTerm rf" "pvote (persister (persist s rf)) = voteFor rf"
  "plogs (persister (persist s rf)) = logs rf"
  "pterm (persister (persistState rf)) = currentTerm rf"
  "pvote (persister (persistState rf)) = voteFor rf" "plogs (persister (persistState rf)) = logs rf"
  by (simp_all add: pterm_def pvote_def plogs_def)

lemma saved_stepDown:
  "saved (persister (stepDown t rf)) = (if t > currentTerm rf
     then (t, -1, logs rf, lastIncludedIndex rf, lastIncludedTerm rf) else saved (persister rf))"
  by (simp add: stepDown_def)

section \<open>Restart\<close>

text \<open>The peer that \<open>Make\<close> builds from a disk.\<close>

definition revived :: "nat \<Rightarrow> nat \<Rightarrow> ('c, 'b) disk \<Rightarrow> ('c, 'b) Raft" where
  "revived n i d = (case saved d of (t, v, l, li, lt) \<Rightarrow>
     (boot n i d)\<lparr>currentTerm := t, voteFor := v, logs := l, lastApplied := firstIdx l,
       commitIndex := firstIdx l, lastIncludedIndex := li, lastIncludedTerm := lt\<rparr>)"

lemma Make_revived [raft_total]:
  assumes "log_ok (plogs d)"
  shows "Make n i d = Some (revived n i d)"
proof (cases "decode_state (ReadRaftState d)")
  case None
  have "boot n i d = revived n i d"
    using None by (simp add: revived_def saved_def boot_def)
  then show ?thesis using None by (simp add: Make_boot readPersist_def)
next
  case (Some x)
  obtain t v l li lt where x: "x = (t, v, l, li, lt)" by (cases x)
  have "ReadRaftState d \<noteq> []" using Some by (auto simp: decode_state_def)
  moreover have "log_ok l" using assms Some x by (simp add: plogs_def saved_def)
  ultimately show ?thesis
    using Some x by (simp add: Make_boot readPersist_def Let_def getFirstLog_ok revived_def saved_def
        firstIdx_def)
qed

section \<open>The invariant of a peer with its disk\<close>

definition node_ok :: "('c, 'b) Raft \<Rightarrow> bool" where
  "node_ok rf \<longleftrightarrow> raft_wf rf \<and> firstIdx (logs rf) \<le> lastApplied rf
     \<and> snd (snd (saved (persister rf))) = (logs rf, lastIncludedIndex rf, lastIncludedTerm rf)
     \<and> (\<forall>e \<in> set (logs rf). le_Term e \<le> pterm (persister rf))
     \<and> (pterm (persister rf) = currentTerm rf \<and> pvote (persister rf) = voteFor rf
        \<or> pterm (persister rf) < currentTerm rf \<and> voteFor rf = -1)"

lemma node_ok_wf: "node_ok rf \<Longrightarrow> raft_wf rf"
  by (simp add: node_ok_def)

lemma node_ok_log: "node_ok rf \<Longrightarrow> log_ok (logs rf)"
  by (simp add: node_ok_def raft_wf_def)

lemma node_ok_plogs: "node_ok rf \<Longrightarrow> plogs (persister rf) = logs rf"
  by (simp add: node_ok_def plogs_def)

lemma node_ok_pterm: "node_ok rf \<Longrightarrow> pterm (persister rf) \<le> currentTerm rf"
  by (auto simp: node_ok_def)

text \<open>A peer that has just persisted.\<close>

lemma node_ok_persist:
  assumes "raft_wf rf" and "firstIdx (logs rf) \<le> lastApplied rf"
  shows "node_ok (persist s rf)"
  using assms by (simp add: node_ok_def raft_wf_def arrays_ok_def)

lemma node_ok_persistState:
  "raft_wf rf \<Longrightarrow> firstIdx (logs rf) \<le> lastApplied rf \<Longrightarrow> node_ok (persistState rf)"
  unfolding persistState_def by (rule node_ok_persist)

text \<open>A change of anything the invariant does not mention.\<close>

lemma node_ok_cong:
  assumes "node_ok rf" and "logs rf' = logs rf" and "persister rf' = persister rf"
    and "currentTerm rf' = currentTerm rf" and "voteFor rf' = voteFor rf"
    and "lastIncludedIndex rf' = lastIncludedIndex rf" "lastIncludedTerm rf' = lastIncludedTerm rf"
    and "npeers rf' = npeers rf" and "me rf' = me rf"
    and "length (nextIndex rf') = length (nextIndex rf)"
    and "length (matchIndex rf') = length (matchIndex rf)" and "lastApplied rf \<le> lastApplied rf'"
  shows "node_ok rf'"
  using assms by (simp add: node_ok_def raft_wf_def arrays_ok_def)

lemma stepDown_node_ok: "node_ok rf \<Longrightarrow> node_ok (stepDown t rf)"
proof (cases "t > currentTerm rf")
  case True
  assume "node_ok rf"
  then have "raft_wf (toFollower (rf\<lparr>currentTerm := t, voteFor := -1\<rparr>))"
    using True by (fastforce simp: node_ok_def raft_wf_def arrays_ok_def)
  then show ?thesis
    using True \<open>node_ok rf\<close> by (simp add: stepDown_def node_ok_persistState node_ok_def [of rf])
qed simp

lemma toFollower_node_ok: "node_ok rf \<Longrightarrow> node_ok (toFollower rf)"
  by (erule node_ok_cong) simp_all

lemma resetElectionTimer_node_ok: "node_ok rf \<Longrightarrow> node_ok (resetElectionTimer rf)"
  by (erule node_ok_cong) simp_all

lemma asFollower_node_ok: "node_ok rf \<Longrightarrow> node_ok (asFollower t rf)"
  unfolding asFollower_def
  by (intro resetElectionTimer_node_ok toFollower_node_ok stepDown_node_ok)

lemma revived_node_ok:
  assumes "node_ok rf" and "i < n"
  shows "node_ok (revived n i (persister rf))"
proof -
  obtain t v where s: "saved (persister rf) = (t, v, logs rf, lastIncludedIndex rf, lastIncludedTerm rf)"
    using assms(1) by (cases "saved (persister rf)") (auto simp: node_ok_def)
  then show ?thesis
    using assms by (auto simp: node_ok_def revived_def raft_wf_def arrays_ok_def boot_def pterm_def pvote_def)
qed

lemma boot_node_ok: "i < n \<Longrightarrow> node_ok (boot n i MakePersister)"
  using boot_wf [of i n MakePersister]
  by (simp add: node_ok_def pterm_def pvote_def boot_def saved_fresh)
     (simp add: generateSingleLog_def)

end
