(* ===== verification/RaftOps.thy ===== *)
theory RaftOps
  imports RaftNode
begin

text \<open>
  The remaining methods of a peer, those for elections, snapshots and clients: their closed
  forms on well-formed peers, and that each of them preserves \<open>node_ok\<close>.
\<close>

section \<open>Elections\<close>

definition refuses :: "RequestVoteArgs \<Rightarrow> ('c, 'b) Raft \<Rightarrow> bool" where
  "refuses args rf \<longleftrightarrow> rv_Term args < currentTerm rf
     \<or> (rv_Term args = currentTerm rf \<and> voteFor rf \<noteq> -1 \<and> voteFor rf \<noteq> rv_CandidateId args)"

definition upToDate :: "RequestVoteArgs \<Rightarrow> 'c LogEntry list \<Rightarrow> bool" where
  "upToDate args ls \<longleftrightarrow> rv_LastLogTerm args > le_Term (last ls)
     \<or> (rv_LastLogTerm args = le_Term (last ls) \<and> rv_LastLogIndex args \<ge> lastIdx ls)"

definition voted :: "RequestVoteArgs \<Rightarrow> ('c, 'b) Raft \<Rightarrow> ('c, 'b) Raft" where
  "voted args rf = resetElectionTimer (persistState
     ((stepDown (rv_Term args) rf)\<lparr>voteFor := rv_CandidateId args\<rparr>))"

lemma RequestVote_ok [raft_total]:
  assumes "log_ok (logs rf)"
  shows "RequestVote args rf = Some (
    if refuses args rf then (\<lparr>rvr_Term = currentTerm rf, rvr_VoteGranted = False\<rparr>, rf)
    else if upToDate args (logs rf) then (\<lparr>rvr_Term = rv_Term args, rvr_VoteGranted = True\<rparr>, voted args rf)
    else (\<lparr>rvr_Term = rv_Term args, rvr_VoteGranted = False\<rparr>, stepDown (rv_Term args) rf))"
  using assms
  by (auto simp: RequestVote_def refuses_def upToDate_def voted_def rejectVote_def
      updateTermAndStepDown_ok isLogUpdateToDate_ok Let_def max_def)

lemma voted_node_ok: "node_ok rf \<Longrightarrow> node_ok (voted args rf)"
proof -
  assume "node_ok rf"
  then have "node_ok (stepDown (rv_Term args) rf)" by (rule stepDown_node_ok)
  then show ?thesis unfolding voted_def
    by (intro resetElectionTimer_node_ok node_ok_persistState)
       (auto simp: node_ok_def raft_wf_def arrays_ok_def)
qed

lemma voted_simps [simp]:
  "npeers (voted a rf) = npeers rf" "me (voted a rf) = me rf"
  "currentTerm (voted a rf) = max (rv_Term a) (currentTerm rf)"
  "voteFor (voted a rf) = rv_CandidateId a" "logs (voted a rf) = logs rf"
  "grantedVotes (voted a rf) = grantedVotes rf" "electionTimer (voted a rf)"
  "commitIndex (voted a rf) = commitIndex rf" "lastApplied (voted a rf) = lastApplied rf"
  "state (voted a rf) = state (stepDown (rv_Term a) rf)"
  "pterm (persister (voted a rf)) = max (rv_Term a) (currentTerm rf)"
  "pvote (persister (voted a rf)) = rv_CandidateId a"
  by (simp_all add: voted_def)

definition raised :: "('c, 'b) Raft \<Rightarrow> ('c, 'b) Raft" where
  "raised rf = persistState (rf\<lparr>electionTimer := False, state := Candidate,
     currentTerm := currentTerm rf + 1\<rparr>)"

definition campaign :: "('c, 'b) Raft \<Rightarrow> ('c, 'b) Raft" where
  "campaign rf = resetElectionTimer (persistState ((raised rf)\<lparr>voteFor := int (me rf),
     grantedVotes := (grantedVotes rf)(currentTerm rf + 1 \<mapsto> 1)\<rparr>))"

definition ballot :: "('c, 'b) Raft \<Rightarrow> RequestVoteArgs" where
  "ballot rf = \<lparr>rv_Term = currentTerm rf + 1, rv_CandidateId = int (me rf),
     rv_LastLogIndex = lastIdx (logs rf), rv_LastLogTerm = le_Term (last (logs rf))\<rparr>"

lemma ballot_simps [simp]:
  "rv_Term (ballot rf) = currentTerm rf + 1" "rv_CandidateId (ballot rf) = int (me rf)"
  by (simp_all add: ballot_def)

definition others :: "nat \<Rightarrow> nat \<Rightarrow> nat list" where
  "others n i = filter (\<lambda>p. p \<noteq> i) [0..<n]"

lemma set_others [simp]: "set (others n i) = {p. p < n \<and> p \<noteq> i}"
  by (auto simp: others_def)

lemma distinct_others [simp]: "distinct (others n i)"
  by (simp add: others_def)

lemma ticker_election_ok [raft_total]:
  assumes "log_ok (logs rf)"
  shows "ticker_election rf = Some (if dead rf then ([], rf)
    else (map (\<lambda>p. (p, ballot rf)) (others (npeers rf) (me rf)), campaign rf))"
  using assms
  by (simp add: ticker_election_def killed_def ChangeState_Candidate LaunchElection_def getLatestLog_ok
      campaign_def raised_def ballot_def others_def Let_def lastIdx_def)

lemma campaign_simps [simp]:
  "npeers (campaign rf) = npeers rf" "me (campaign rf) = me rf" "logs (campaign rf) = logs rf"
  "currentTerm (campaign rf) = currentTerm rf + 1" "voteFor (campaign rf) = int (me rf)"
  "state (campaign rf) = Candidate" "electionTimer (campaign rf)"
  "grantedVotes (campaign rf) = (grantedVotes rf)(currentTerm rf + 1 \<mapsto> 1)"
  "pterm (persister (campaign rf)) = currentTerm rf + 1"
  "pvote (persister (campaign rf)) = int (me rf)"
  by (simp_all add: campaign_def raised_def)

lemma raised_node_ok: "node_ok rf \<Longrightarrow> node_ok (raised rf)"
proof -
  assume n: "node_ok rf"
  then have "\<forall>e \<in> set (logs rf). le_Term e \<le> currentTerm rf + 1"
    by (fastforce simp: node_ok_def raft_wf_def)
  with n show ?thesis unfolding raised_def
    by (intro node_ok_persistState) (simp_all add: node_ok_def raft_wf_def arrays_ok_def)
qed

lemma campaign_node_ok: "node_ok rf \<Longrightarrow> node_ok (campaign rf)"
proof -
  assume "node_ok rf"
  then have "node_ok (raised rf)" by (rule raised_node_ok)
  then show ?thesis unfolding campaign_def
    by (intro resetElectionTimer_node_ok node_ok_persistState)
       (simp_all add: node_ok_def raft_wf_def arrays_ok_def)
qed

definition votes :: "int \<Rightarrow> ('c, 'b) Raft \<Rightarrow> int" where
  "votes t rf = (case grantedVotes rf t of None \<Rightarrow> 0 | Some v \<Rightarrow> v)"

definition counted :: "int \<Rightarrow> ('c, 'b) Raft \<Rightarrow> ('c, 'b) Raft" where
  "counted t rf = rf\<lparr>grantedVotes := (grantedVotes rf)(t \<mapsto> votes t rf + 1)\<rparr>"

definition elected :: "int \<Rightarrow> ('c, 'b) Raft \<Rightarrow> ('c, 'b) Raft" where
  "elected t rf = BroadcastAppendEntryMsg True (toLeader (counted t rf))"

lemma handleVoteReply_ok [raft_total]:
  assumes "log_ok (logs rf)" and "arrays_ok rf"
  shows "handleVoteReply a r rf = Some (
    if state rf = Candidate \<and> currentTerm rf = rv_Term a then
      (if rvr_VoteGranted r then
         (if votes (rv_Term a) rf + 1 > int (npeers rf div 2) then elected (rv_Term a) rf
          else counted (rv_Term a) rf)
       else stepDown (rvr_Term r) rf)
    else rf)"
proof -
  have "log_ok (logs (counted t rf))" "arrays_ok (counted t rf)" for t
    using assms by (simp_all add: counted_def arrays_ok_def)
  note cl = ChangeState_Leader [OF this]
  show ?thesis
    using cl [unfolded counted_def]
    by (auto simp: handleVoteReply_def isValidCandidate_def elected_def counted_def votes_def
        updateTermAndStepDown_ok Let_def)
qed

lemma counted_simps [simp]:
  "npeers (counted t rf) = npeers rf" "me (counted t rf) = me rf" "logs (counted t rf) = logs rf"
  "currentTerm (counted t rf) = currentTerm rf" "voteFor (counted t rf) = voteFor rf"
  "state (counted t rf) = state rf" "persister (counted t rf) = persister rf"
  "grantedVotes (counted t rf) = (grantedVotes rf)(t \<mapsto> votes t rf + 1)"
  "electionTimer (counted t rf) = electionTimer rf" "lastApplied (counted t rf) = lastApplied rf"
  "nextIndex (counted t rf) = nextIndex rf" "matchIndex (counted t rf) = matchIndex rf"
  "lastIncludedIndex (counted t rf) = lastIncludedIndex rf"
  "lastIncludedTerm (counted t rf) = lastIncludedTerm rf"
  by (simp_all add: counted_def)

lemma counted_node_ok: "node_ok rf \<Longrightarrow> node_ok (counted t rf)"
  by (erule node_ok_cong) simp_all

lemma elected_node_ok: "node_ok rf \<Longrightarrow> node_ok (elected t rf)"
  unfolding elected_def
  by (rule node_ok_cong [of rf], assumption)
     (simp_all add: toLeader_def node_ok_def raft_wf_def arrays_ok_def)

section \<open>Installing a snapshot\<close>

definition newLog :: "'b InstallSnapShotArgs \<Rightarrow> 'c LogEntry list \<Rightarrow> 'c LogEntry list" where
  "newLog args ls =
     (let LI = is_LastIncludedIndex args; LT = is_LastIncludedTerm args in
      generateSingleLog LI LT @
        (if LI < lastIdx ls \<and> termAt ls LI = LT then drop (nat (LI - firstIdx ls + 1)) ls else []))"

lemma install_log_ok [raft_total]:
  assumes "log_ok (logs rf)" and "firstIdx (logs rf) \<le> is_LastIncludedIndex args"
  shows "install_log args rf = Some (newLog args (logs rf))"
proof (cases "is_LastIncludedIndex args < lastIdx (logs rf)")
  case True
  let ?ls = "logs rf" and ?k = "is_LastIncludedIndex args - firstIdx (logs rf)"
  have k: "0 \<le> ?k" "?k + 1 < int (length ?ls)"
    using assms True by (auto simp: log_ok_lastIdx)
  have h: "le_Index (hd ?ls) = firstIdx ?ls" "le_Index (last ?ls) = lastIdx ?ls"
    by (simp_all add: firstIdx_def lastIdx_def)
  have "go_nth ?ls ?k = Some (?ls ! nat ?k)" "slice_from ?ls (?k + 1) = Some (drop (nat (?k + 1)) ?ls)"
    using k by (simp_all add: go_nth_def slice_from_def)
  then show ?thesis
    using True k assms(2)
    by (simp add: install_log_def getFirstLog_ok [OF assms(1)] getLatestLog_ok [OF assms(1)] h Let_def
        newLog_def truncateLogs_def termAt_def)
next
  case False
  then show ?thesis
    by (simp add: install_log_def getFirstLog_ok [OF assms(1)] getLatestLog_ok [OF assms(1)]
        newLog_def Let_def flip: lastIdx_def)
qed

lemma newLog_first [simp]:
  "firstIdx (newLog args ls) = is_LastIncludedIndex args"
  "le_Term (hd (newLog args ls)) = is_LastIncludedTerm args"
  by (simp_all add: newLog_def Let_def firstIdx_def)

lemma newLog_log_ok:
  assumes "log_ok ls" and "firstIdx ls \<le> is_LastIncludedIndex args"
  shows "log_ok (newLog args ls)"
proof (rule log_okI [of _ "is_LastIncludedIndex args"])
  fix k assume k: "k < length (newLog args ls)"
  show "le_Index (newLog args ls ! k) = is_LastIncludedIndex args + int k"
  proof (cases k)
    case 0
    then show ?thesis by (simp add: newLog_def Let_def generateSingleLog_def)
  next
    case (Suc m)
    then show ?thesis using k assms
      by (auto simp: newLog_def Let_def generateSingleLog_def log_ok_index split: if_splits)
  qed
qed (simp add: newLog_def Let_def)

lemma set_newLog: "set (newLog args ls) \<subseteq> set (generateSingleLog (is_LastIncludedIndex args)
    (is_LastIncludedTerm args)) \<union> set ls"
  by (auto simp: newLog_def Let_def dest: in_set_dropD)

lemma newLog_terms_ok:
  assumes "log_ok ls" and "terms_ok ls" and "firstIdx ls \<le> is_LastIncludedIndex args"
  shows "terms_ok (newLog args ls)"
proof (cases "is_LastIncludedIndex args < lastIdx ls \<and> termAt ls (is_LastIncludedIndex args) = is_LastIncludedTerm args")
  case True
  let ?k = "nat (is_LastIncludedIndex args - firstIdx ls)"
  have k: "?k < length ls" "nat (is_LastIncludedIndex args - firstIdx ls + 1) = Suc ?k"
    using True assms log_ok_bound [OF assms(1), of "is_LastIncludedIndex args"] by auto
  have "terms_ok (drop ?k ls)"
    using assms(2) by (simp add: terms_ok_def drop_map sorted_wrt_drop flip: drop_map)
  then show ?thesis
    using True k by (simp add: newLog_def Let_def terms_ok_def generateSingleLog_def termAt_def
        flip: Cons_nth_drop_Suc)
next
  case False
  then show ?thesis by (auto simp: newLog_def Let_def)
qed

definition adopt :: "int \<Rightarrow> ('c, 'b) Raft \<Rightarrow> ('c, 'b) Raft" where
  "adopt t rf = resetElectionTimer (toFollower
     (if t > currentTerm rf then rf\<lparr>currentTerm := t, voteFor := -1\<rparr> else rf))"

definition installed :: "'b InstallSnapShotArgs \<Rightarrow> ('c, 'b) Raft \<Rightarrow> ('c, 'b) Raft" where
  "installed args rf = (let LI = is_LastIncludedIndex args; LT = is_LastIncludedTerm args;
      rf = adopt (is_Term args) rf in
    emit [SignalApply] ((persist (gob_slice (is_Data args))
      (rf\<lparr>lastIncludedIndex := LI, lastIncludedTerm := LT, logs := newLog args (logs rf),
         commitIndex := max LI (commitIndex rf), lastApplied := LI\<rparr>))
      \<lparr>pendingSnapshot := Some \<lparr>am_CommandValid = False, am_Command = None, am_CommandIndex = 0,
         am_SnapshotValid = True, am_Snapshot = is_Data args, am_SnapshotTerm = LT,
         am_SnapshotIndex = LI\<rparr>\<rparr>))"

lemma adopt_simps [simp]:
  "npeers (adopt t rf) = npeers rf" "me (adopt t rf) = me rf" "dead (adopt t rf) = dead rf"
  "currentTerm (adopt t rf) = max t (currentTerm rf)" "persister (adopt t rf) = persister rf"
  "commitIndex (adopt t rf) = commitIndex rf" "lastApplied (adopt t rf) = lastApplied rf"
  "state (adopt t rf) = Follower" "nextIndex (adopt t rf) = nextIndex rf"
  "matchIndex (adopt t rf) = matchIndex rf" "electionTimer (adopt t rf)"
  "logs (adopt t rf) = logs rf" "applyCh (adopt t rf) = applyCh rf"
  "lastIncludedIndex (adopt t rf) = lastIncludedIndex rf"
  "lastIncludedTerm (adopt t rf) = lastIncludedTerm rf"
  "pendingSnapshot (adopt t rf) = pendingSnapshot rf"
  "grantedVotes (adopt t rf) = grantedVotes rf" "effects (adopt t rf) = effects rf"
  by (simp_all add: adopt_def)

lemma adopt_vote: "voteFor (adopt t rf) = (if t > currentTerm rf then -1 else voteFor rf)"
  by (simp add: adopt_def)

lemma InstallSnapShot_ok [raft_total]:
  assumes "log_ok (logs rf)" and "firstIdx (logs rf) \<le> lastApplied rf"
  shows "InstallSnapShot args rf = Some (\<lparr>isr_Term = currentTerm rf\<rparr>,
    if is_Term args < currentTerm rf then rf
    else if is_LastIncludedIndex args \<le> lastApplied rf then adopt (is_Term args) rf
    else installed args rf)"
proof (cases "is_Term args < currentTerm rf \<or> is_LastIncludedIndex args \<le> lastApplied rf")
  case True
  then show ?thesis
    by (auto simp: InstallSnapShot_def ChangeState_Follower adopt_def Let_def)
next
  case False
  let ?r = "adopt (is_Term args) rf"
  have r: "resetElectionTimer (toFollower (if is_Term args > currentTerm rf
      then rf\<lparr>currentTerm := is_Term args, voteFor := -1\<rparr> else rf)) = ?r" by (simp add: adopt_def)
  have il: "install_log args ?r = Some (newLog args (logs ?r))"
    using assms False by (intro install_log_ok) simp_all
  have mx: "(if c < LI then a\<lparr>commitIndex := LI\<rparr> else a) = a\<lparr>commitIndex := max LI c\<rparr>"
    if "c = commitIndex a" for c LI and a :: "('c, 'b) Raft" using that by (cases a) (simp add: max_def)
  show ?thesis
    using False
    by (simp add: InstallSnapShot_def ChangeState_Follower Let_def r il mx installed_def not_le)
qed

lemma adopt_node_ok: "node_ok rf \<Longrightarrow> node_ok (adopt t rf)"
  by (cases "t > currentTerm rf") (auto simp: node_ok_def raft_wf_def arrays_ok_def adopt_vote; fastforce)+

definition snap_wf :: "'b InstallSnapShotArgs \<Rightarrow> bool" where
  "snap_wf args \<longleftrightarrow> is_LastIncludedTerm args \<le> is_Term args"

lemma installed_node_ok:
  assumes "node_ok rf" and "snap_wf args" and "lastApplied rf < is_LastIncludedIndex args"
  shows "node_ok (installed args rf)"
proof -
  let ?r = "(adopt (is_Term args) rf)\<lparr>lastIncludedIndex := is_LastIncludedIndex args,
    lastIncludedTerm := is_LastIncludedTerm args, logs := newLog args (logs rf),
    commitIndex := max (is_LastIncludedIndex args) (commitIndex rf),
    lastApplied := is_LastIncludedIndex args\<rparr>"
  have f: "firstIdx (logs rf) \<le> is_LastIncludedIndex args" using assms by (simp add: node_ok_def)
  have "le_Term e \<le> max (is_Term args) (currentTerm rf)" if "e \<in> set (newLog args (logs rf))" for e
    using that set_newLog [of args "logs rf"] assms(1,2)
    by (fastforce simp: generateSingleLog_def snap_wf_def node_ok_def raft_wf_def)
  moreover have "log_ok (logs rf)" "terms_ok (logs rf)"
    using assms(1) by (auto simp: node_ok_def raft_wf_def)
  then have "log_ok (newLog args (logs rf))" "terms_ok (newLog args (logs rf))"
    using f by (simp_all add: newLog_log_ok newLog_terms_ok)
  ultimately have "raft_wf ?r"
    using assms(1) by (simp add: node_ok_def raft_wf_def arrays_ok_def)
  then have "node_ok (persist (gob_slice (is_Data args)) ?r)"
    by (intro node_ok_persist) simp_all
  then show ?thesis unfolding installed_def Let_def
    by (rule node_ok_cong) simp_all
qed

section \<open>Compacting the log\<close>

definition compacted :: "int \<Rightarrow> 'c LogEntry list \<Rightarrow> 'c LogEntry list" where
  "compacted i ls = generateSingleLog i (termAt ls i) @ drop (nat (i - firstIdx ls + 1)) ls"

lemma Snapshot_ok [raft_total]:
  assumes "raft_wf rf"
  shows "Snapshot i data rf = Some (
    if dead rf \<or> i \<le> firstIdx (logs rf) \<or> i > lastIdx (logs rf) then rf
    else persist data (rf\<lparr>lastIncludedIndex := i, lastIncludedTerm := termAt (logs rf) i,
                          logs := compacted i (logs rf)\<rparr>))"
proof (cases "dead rf \<or> i \<le> firstIdx (logs rf) \<or> i > lastIdx (logs rf)")
  case True
  then show ?thesis
    using raft_wf_log [OF assms]
    by (auto simp: Snapshot_def getFirstLog_ok getLatestLog_ok firstIdx_def lastIdx_def Let_def)
next
  case False
  let ?ls = "logs rf" and ?k = "nat (i - firstIdx (logs rf))"
  have lo: "log_ok ?ls" by (rule raft_wf_log [OF assms])
  have k: "?k < length ?ls" "int ?k = i - firstIdx ?ls" "nat (i - firstIdx ?ls + 1) = Suc ?k"
    using False log_ok_bound [OF lo, of i] by auto
  have d: "drop ?k ?ls = (?ls ! ?k) # drop (Suc ?k) ?ls" using k(1) by (simp add: Cons_nth_drop_Suc)
  have e: "le_Index (?ls ! ?k) = i" "le_Term (?ls ! ?k) = termAt ?ls i"
    using log_ok_index [OF lo k(1)] k(2) by (simp_all add: termAt_def)
  have h: "le_Index (hd ?ls) = firstIdx ?ls" "le_Index (last ?ls) = lastIdx ?ls"
    by (simp_all add: firstIdx_def lastIdx_def)
  have n: "go_nth ?ls (i - firstIdx ?ls) = Some (?ls ! ?k)"
    "slice_from ?ls (i - firstIdx ?ls) = Some (drop ?k ?ls)"
    using False k(1) by (auto simp: go_nth_def slice_from_def)
  have c: "(drop ?k ?ls)[0 := (?ls ! ?k)\<lparr>le_Command := None\<rparr>] = compacted i ?ls"
    using d e by (simp add: compacted_def generateSingleLog_def k(3))
  have g: "go_nth (drop ?k ?ls) 0 = Some (?ls ! ?k)"
    "go_upd (drop ?k ?ls) 0 x = Some ((drop ?k ?ls)[0 := x])" for x
    using d k by (simp_all add: go_nth_def go_upd_def)
  show ?thesis
    using False n g c e
    by (simp add: Snapshot_def getFirstLog_ok [OF lo] getLatestLog_ok [OF lo] h Let_def truncateLogs_def)
qed

lemma compacted_newLog:
  assumes "firstIdx ls \<le> i" and "i < lastIdx ls"
  shows "compacted i ls = newLog \<lparr>is_Term = t, is_LeaderId = l, is_LastIncludedIndex = i,
           is_LastIncludedTerm = termAt ls i, is_Data = d\<rparr> ls"
  using assms by (simp add: compacted_def newLog_def)

lemma compacted_last:
  assumes "log_ok ls" and "i = lastIdx ls"
  shows "compacted i ls = generateSingleLog i (termAt ls i)"
  using assms by (simp add: compacted_def log_ok_lastIdx)

lemma compacted_ok:
  assumes "log_ok ls" and "terms_ok ls" and "firstIdx ls \<le> i" and "i \<le> lastIdx ls"
  shows "log_ok (compacted i ls)" and "terms_ok (compacted i ls)"
    and "firstIdx (compacted i ls) = i" and "le_Term (hd (compacted i ls)) = termAt ls i"
proof -
  have "log_ok (compacted i ls) \<and> terms_ok (compacted i ls)"
  proof (cases "i = lastIdx ls")
    case True
    then show ?thesis by (simp add: compacted_last [OF assms(1)])
  next
    case False
    then have "i < lastIdx ls" using assms(4) by simp
    note c = compacted_newLog [OF assms(3) this, of 0 0 "[] :: nat list"]
    show ?thesis unfolding c
      using assms(3) by (simp add: newLog_log_ok [OF assms(1)] newLog_terms_ok [OF assms(1,2)])
  qed
  then show "log_ok (compacted i ls)" and "terms_ok (compacted i ls)" by auto
qed (simp_all add: compacted_def firstIdx_def)

lemma set_compacted:
  "set (compacted i ls) \<subseteq> set (generateSingleLog i (termAt ls i)) \<union> set ls"
  by (auto simp: compacted_def dest: in_set_dropD)

lemma Snapshot_node_ok:
  assumes "node_ok rf" and "i \<le> lastApplied rf" and "Snapshot i data rf = Some rf'"
  shows "node_ok rf'"
proof -
  have wf: "raft_wf rf" by (rule node_ok_wf [OF assms(1)])
  have lo: "log_ok (logs rf)" "terms_ok (logs rf)" using wf by (auto simp: raft_wf_def)
  let ?r = "rf\<lparr>lastIncludedIndex := i, lastIncludedTerm := termAt (logs rf) i,
                logs := compacted i (logs rf)\<rparr>"
  have "node_ok (persist data ?r)" if i: "firstIdx (logs rf) \<le> i" "i \<le> lastIdx (logs rf)"
  proof (rule node_ok_persist)
    have "le_Term e \<le> currentTerm rf" if "e \<in> set (compacted i (logs rf))" for e
      using that set_compacted [of i "logs rf"] termAt_le_current [OF wf i] wf
      by (auto simp: generateSingleLog_def raft_wf_def)
    then show "raft_wf ?r"
      using wf compacted_ok [OF lo i] by (simp add: raft_wf_def arrays_ok_def)
    show "firstIdx (logs ?r) \<le> lastApplied ?r" using compacted_ok [OF lo i] assms(2) by simp
  qed
  then show ?thesis using assms(1,3) by (auto simp: Snapshot_ok [OF wf] split: if_splits)
qed

section \<open>Clients and replies\<close>

definition started :: "'c \<Rightarrow> ('c, 'b) Raft \<Rightarrow> ('c, 'b) Raft" where
  "started command rf =
     (let i = lastIdx (logs rf) + 1;
          r = persistState (rf\<lparr>logs := logs rf @
                [\<lparr>le_Command = Some command, le_Term = currentTerm rf, le_Index = i\<rparr>]\<rparr>)
      in BroadcastAppendEntryMsg False (r\<lparr>matchIndex := (matchIndex rf)[me rf := i],
           nextIndex := (nextIndex rf)[me rf := i + 1]\<rparr>))"

lemma Start_ok [raft_total]:
  assumes "raft_wf rf"
  shows "Start command rf = Some (if state rf \<noteq> Leader then ((-1, -1, False), rf)
    else ((lastIdx (logs rf) + 1, currentTerm rf, True), started command rf))"
proof -
  have ar: "arrays_ok rf" "me rf < npeers rf" using assms by (auto simp: raft_wf_def arrays_ok_def)
  have "updateLogIndices (me rf) m (persistState (rf\<lparr>logs := l\<rparr>))
     = Some ((persistState (rf\<lparr>logs := l\<rparr>))\<lparr>matchIndex := (matchIndex rf)[me rf := m],
              nextIndex := (nextIndex rf)[me rf := m + 1]\<rparr>)" for m l
    using ar by (subst updateLogIndices_ok) (simp_all add: arrays_ok_def)
  then show ?thesis
    using raft_wf_log [OF assms]
    by (simp add: Start_def getLatestLog_ok started_def Let_def lastIdx_def)
qed

lemma snoc_log_ok:
  assumes "log_ok ls" and "le_Index e = lastIdx ls + 1"
  shows "log_ok (ls @ [e])"
  using log_ok_append [OF assms(1), of "length ls" "[e]"] assms
  by (simp add: log_ok_lastIdx)

lemma snoc_raft_wf:
  assumes "raft_wf rf" and "le_Index e = lastIdx (logs rf) + 1" and "le_Term e = currentTerm rf"
  shows "raft_wf (rf\<lparr>logs := logs rf @ [e]\<rparr>)"
proof -
  have "logs rf \<noteq> []" using assms(1) by (simp add: raft_wf_def log_ok_def)
  then show ?thesis
    using assms snoc_log_ok [of "logs rf" e]
    by (auto simp: raft_wf_def arrays_ok_def terms_ok_def sorted_append firstIdx_def)
qed

lemma started_node_ok:
  assumes "node_ok rf"
  shows "node_ok (started command rf)"
proof -
  let ?e = "\<lparr>le_Command = Some command, le_Term = currentTerm rf, le_Index = lastIdx (logs rf) + 1\<rparr>"
  have wf: "raft_wf rf" by (rule node_ok_wf [OF assms])
  have "node_ok (persistState (rf\<lparr>logs := logs rf @ [?e]\<rparr>))"
    using snoc_raft_wf [OF wf, of ?e] assms raft_wf_log [OF wf]
    by (intro node_ok_persistState) (simp_all add: node_ok_def firstIdx_def)
  then show ?thesis unfolding started_def Let_def by (rule node_ok_cong) simp_all
qed

lemma handleAppendEntryReply_node_ok:
  assumes "node_ok rf" and "p < npeers rf"
    and "isValidLeader (ae_Term a) rf \<Longrightarrow> ae_PrevLogIndex a \<le> lastIdx (logs rf)"
  shows "\<exists>rf'. handleAppendEntryReply p a r rf = Some rf' \<and> node_ok rf' \<and> logs rf' = logs rf
    \<and> (rf' = stepDown (aer_Term r) rf \<or>
       (persister rf' = persister rf \<and> currentTerm rf' = currentTerm rf \<and> voteFor rf' = voteFor rf
        \<and> state rf' = state rf \<and> grantedVotes rf' = grantedVotes rf \<and> npeers rf' = npeers rf
        \<and> me rf' = me rf \<and> lastApplied rf' = lastApplied rf))"
proof -
  have wf: "raft_wf rf" by (rule node_ok_wf [OF assms(1)])
  note lo = raft_wf_log [OF wf] raft_wf_arrays [OF wf]
  show ?thesis
  proof (cases "isValidLeader (ae_Term a) rf \<and> (aer_Success r \<or> aer_Term r \<le> currentTerm rf)")
    case False
    then show ?thesis
      using assms(1) stepDown_node_ok [OF assms(1), of "aer_Term r"]
      by (auto simp: handleAppendEntryReply_def updateTermAndStepDown_ok)
  next
    case v: True
    show ?thesis
    proof (cases "aer_Success r")
      case True
      have "node_ok (acceptCommit (rf\<lparr>matchIndex := (matchIndex rf)[p := i],
          nextIndex := (nextIndex rf)[p := i + 1]\<rparr>))" for i
        by (rule node_ok_cong [OF assms(1)]) simp_all
      then show ?thesis using True v
        by (simp add: handleAppendEntryReply_def acceptNewLogEntries_ok [OF lo assms(2)] Let_def)
    next
      case False
      obtain n where n: "rollBackToConflictTerm p a r rf
          = Some (rf\<lparr>nextIndex := (nextIndex rf)[p := n]\<rparr>)"
        using rollBack_result [OF wf assms(2), of a r] assms(3) v by auto
      have "node_ok (emit [SignalReplicate p] (rf\<lparr>nextIndex := (nextIndex rf)[p := n]\<rparr>))"
        by (rule node_ok_cong [OF assms(1)]) simp_all
      then show ?thesis using False v n by (simp add: handleAppendEntryReply_def)
    qed
  qed
qed

lemma handleInstallSnapShotReply_node_ok:
  assumes "node_ok rf" and "p < npeers rf"
  shows "\<exists>rf'. handleInstallSnapShotReply p a r rf = Some rf' \<and> node_ok rf' \<and> logs rf' = logs rf
    \<and> (rf' = stepDown (isr_Term r) rf \<or>
       (persister rf' = persister rf \<and> currentTerm rf' = currentTerm rf \<and> voteFor rf' = voteFor rf
        \<and> state rf' = state rf \<and> grantedVotes rf' = grantedVotes rf \<and> npeers rf' = npeers rf
        \<and> me rf' = me rf \<and> lastApplied rf' = lastApplied rf))"
proof -
  have ar: "arrays_ok rf" using assms(1) by (simp add: node_ok_def raft_wf_def)
  have "node_ok (rf\<lparr>matchIndex := (matchIndex rf)[p := i], nextIndex := (nextIndex rf)[p := i + 1]\<rparr>)" for i
    by (rule node_ok_cong [OF assms(1)]) simp_all
  then show ?thesis
    using assms(1) stepDown_node_ok [OF assms(1), of "isr_Term r"]
    by (auto simp: handleInstallSnapShotReply_def updateTermAndStepDown_ok
        updateLogIndices_ok [OF ar assms(2)])
qed

section \<open>The applier\<close>

definition command_msg :: "'c LogEntry \<Rightarrow> ('c, 'b) ApplyMsg" where
  "command_msg e = \<lparr>am_CommandValid = True, am_Command = le_Command e, am_CommandIndex = le_Index e,
     am_SnapshotValid = False, am_Snapshot = [], am_SnapshotTerm = 0, am_SnapshotIndex = 0\<rparr>"

lemma applier_ok [raft_total]:
  assumes "log_ok (logs rf)" and "firstIdx (logs rf) \<le> lastApplied rf"
  shows "applier rf = Some (
    if dead rf then ApplierReturns
    else case pendingSnapshot rf of
      Some msg \<Rightarrow> ApplierContinues (rf\<lparr>pendingSnapshot := None, applyCh := applyCh rf @ [msg]\<rparr>)
    | None \<Rightarrow>
        if commitIndex rf \<le> lastApplied rf then ApplierWaits
        else if lastIdx (logs rf) < lastApplied rf + 1
             then ApplierContinues (rf\<lparr>lastApplied := firstIdx (logs rf)\<rparr>)
        else ApplierContinues (rf\<lparr>lastApplied := lastApplied rf + 1,
               applyCh := applyCh rf @ [command_msg (entryAt (logs rf) (lastApplied rf + 1))]\<rparr>))"
proof -
  let ?ls = "logs rf" and ?k = "lastApplied rf + 1 - firstIdx (logs rf)"
  have b: "lastApplied rf + 1 \<le> lastIdx ?ls \<longleftrightarrow> ?k < int (length ?ls)"
    by (rule log_ok_bound [OF assms(1)])
  have n: "go_nth ?ls ?k = Some (entryAt ?ls (lastApplied rf + 1))" if "?k < int (length ?ls)"
    using that assms(2) by (auto simp: go_nth_def entryAt_def)
  have h: "le_Index (hd ?ls) = firstIdx ?ls" by (simp add: firstIdx_def)
  have f: "\<not> lastApplied rf < firstIdx ?ls" "\<not> ?k < 0" using assms(2) by simp_all
  show ?thesis
  proof (cases "dead rf \<or> pendingSnapshot rf \<noteq> None \<or> commitIndex rf \<le> lastApplied rf")
    case True
    then show ?thesis by (auto simp: applier_def killed_def)
  next
    case busy: False
    then have st: "applier rf = (if ?k \<ge> int (length ?ls)
        then Some (ApplierContinues (rf\<lparr>lastApplied := firstIdx ?ls\<rparr>))
        else do { entry \<leftarrow> go_nth ?ls ?k;
          Some (ApplierContinues (rf\<lparr>lastApplied := lastApplied rf + 1,
            applyCh := applyCh rf @ [command_msg entry]\<rparr>)) })"
      using f by (simp add: applier_def killed_def getFirstLog_ok [OF assms(1)] h Let_def command_msg_def)
    show ?thesis
    proof (cases "?k < int (length ?ls)")
      case True
      then have "\<not> lastIdx ?ls < lastApplied rf + 1" using b by simp
      then show ?thesis using True busy by (simp add: st n [OF True])
    next
      case False
      then have "lastIdx ?ls < lastApplied rf + 1" using b by simp
      then show ?thesis using False busy by (simp add: st)
    qed
  qed
qed

lemma applier_node_ok:
  assumes "node_ok rf" and "applier rf = Some (ApplierContinues rf')"
  shows "node_ok rf' \<and> logs rf' = logs rf \<and> persister rf' = persister rf
    \<and> currentTerm rf' = currentTerm rf \<and> voteFor rf' = voteFor rf \<and> state rf' = state rf
    \<and> grantedVotes rf' = grantedVotes rf \<and> npeers rf' = npeers rf \<and> me rf' = me rf"
proof -
  have lo: "log_ok (logs rf)" "firstIdx (logs rf) \<le> lastApplied rf"
    using assms(1) by (auto simp: node_ok_def raft_wf_def)
  show ?thesis
    using assms lo(2) unfolding applier_ok [OF lo]
    by (auto simp: node_ok_def raft_wf_def arrays_ok_def split: if_splits option.splits)
qed

lemma AppendEntry_node_ok:
  assumes "node_ok rf" and "ae_wf args"
  shows "\<exists>reply rf'. AppendEntry args rf = Some (reply, rf') \<and> node_ok rf'
    \<and> (rf' = rf \<or> rf' = asFollower (ae_Term args) rf
     \<or> (rf' = accepted args rf \<and> matches args (logs rf)))"
proof -
  have wf: "raft_wf rf" by (rule node_ok_wf [OF assms(1)])
  obtain reply rf' where r: "AppendEntry args rf = Some (reply, rf')"
      "rf' = rf \<or> rf' = asFollower (ae_Term args) rf \<or> (rf' = accepted args rf \<and> matches args (logs rf))"
    using AppendEntry_result [OF wf assms(2)] by blast
  have "node_ok (accepted args rf)" if m: "matches args (logs rf)"
  proof -
    let ?r = "asFollower (ae_Term args) rf"
    have "node_ok (appended args ?r)"
    proof (cases "covers (drop (nat (ae_PrevLogIndex args + 1 - firstIdx (logs ?r))) (logs ?r)) (ae_Entries args)")
      case True
      then show ?thesis using asFollower_node_ok [OF assms(1)] by (simp add: appended_def)
    next
      case False
      have "raft_wf (accepted args rf)" by (rule accepted_wf [OF wf assms(2) m])
      then have "raft_wf (?r\<lparr>logs := merge_log (ae_PrevLogIndex args) (ae_Entries args) (logs ?r)\<rparr>)"
        by (simp add: raft_wf_def arrays_ok_def)
      then show ?thesis
        using False assms(1) firstIdx_merge_log(2) [OF raft_wf_log [OF wf] m, of "ae_Entries args"]
        by (simp only: appended_def if_False, intro node_ok_persistState) (simp_all add: node_ok_def [of rf])
    qed
    then show ?thesis
      by (rule node_ok_cong) (simp_all add: accepted_def Let_def)
  qed
  with r show ?thesis using assms(1) asFollower_node_ok by blast
qed

end
