(* ===== verification/RaftCluster.thy ===== *)
theory RaftCluster
  imports RaftOps
begin

text \<open>
  A cluster of Raft peers: the peers, the packets in flight, and every atomic step of the code
  (timer firings, RPC handlers, the continuations that run when a reply arrives, client calls,
  the applier, crashes with restart from disk, lost packets).  Election safety and the absence
  of panics are invariants of the reachable states.
\<close>

section \<open>Quorums\<close>

locale quorums =
  fixes quorum :: "'p set \<Rightarrow> bool"
  assumes meet: "quorum A \<Longrightarrow> quorum B \<Longrightarrow> A \<inter> B \<noteq> {}"
begin

lemma one_winner:
  assumes "quorum A" and "quorum B"
    and "\<And>p. p \<in> A \<Longrightarrow> vote p = Some a" and "\<And>p. p \<in> B \<Longrightarrow> vote p = Some b"
  shows "a = b"
  using meet [OF assms(1,2)] assms(3,4) by fastforce

end

definition majority :: "nat \<Rightarrow> nat set \<Rightarrow> bool" where
  "majority n A \<longleftrightarrow> A \<subseteq> {..<n} \<and> card A > n div 2"

interpretation maj: quorums "majority n" for n
  by unfold_locales (auto simp: majority_def dest: majorities_meet [of _ n])

section \<open>State and steps\<close>

datatype ('c, 'b) packet =
    VoteReq nat nat RequestVoteArgs
  | VoteRep nat nat RequestVoteArgs RequestVoteReply
  | AppReq nat nat "'c AppendEntryArgs"
  | AppRep nat nat "'c AppendEntryArgs" AppendEntryReply
  | SnapReq nat nat "'b InstallSnapShotArgs"
  | SnapRep nat nat "'b InstallSnapShotArgs" InstallSnapShotReply

record ('c, 'b) Cluster =
  nodes :: "nat \<Rightarrow> ('c, 'b) Raft"
  net :: "('c, 'b) packet multiset"

definition put :: "nat \<Rightarrow> ('c, 'b) Raft \<Rightarrow> ('c, 'b) packet multiset \<Rightarrow> ('c, 'b) Cluster \<Rightarrow> ('c, 'b) Cluster" where
  "put i rf M s = s\<lparr>nodes := (nodes s)(i := rf), net := M\<rparr>"

lemma put_simps [simp]:
  "nodes (put i rf M s) = (nodes s)(i := rf)" "net (put i rf M s) = M"
  by (simp_all add: put_def)

definition packet_of :: "nat \<Rightarrow> nat \<Rightarrow> ('c, 'b) request \<Rightarrow> ('c, 'b) packet" where
  "packet_of i p r = (case r of ReqSnapshot a \<Rightarrow> SnapReq i p a | ReqAppend a \<Rightarrow> AppReq i p a)"

text \<open>
  The packets carry the caller's arguments back to it, as the goroutine that made the call
  holds them.  \<open>crash_election\<close>, \<open>crash_vote\<close> and \<open>crash_append\<close> are crashes between the two
  \<open>persist\<close> calls of one handler.
\<close>

inductive cstep :: "nat \<Rightarrow> ('c, 'b) Cluster \<Rightarrow> ('c, 'b) Cluster \<Rightarrow> bool" for n where
  timeout: "i < n \<Longrightarrow> ticker_election (nodes s i) = Some (calls, rf) \<Longrightarrow>
    cstep n s (put i rf (net s + mset (map (\<lambda>(p, a). VoteReq i p a) calls)) s)"
| heartbeat: "i < n \<Longrightarrow> cstep n s (put i (ticker_heartbeat (nodes s i)) (net s) s)"
| request_vote: "VoteReq i p a \<in># net s \<Longrightarrow> RequestVote a (nodes s p) = Some (r, rf) \<Longrightarrow>
    cstep n s (put p rf (net s - {#VoteReq i p a#} + {#VoteRep i p a r#}) s)"
| vote_reply: "VoteRep i p a r \<in># net s \<Longrightarrow> handleVoteReply a r (nodes s i) = Some rf \<Longrightarrow>
    cstep n s (put i rf (net s - {#VoteRep i p a r#}) s)"
| send: "i < n \<Longrightarrow> p < n \<Longrightarrow> p \<noteq> i \<Longrightarrow> doSendAppendEntry p (nodes s i) = Some (Some q) \<Longrightarrow>
    cstep n s (put i (nodes s i) (net s + {#packet_of i p q#}) s)"
| append_entry: "AppReq i p a \<in># net s \<Longrightarrow> AppendEntry a (nodes s p) = Some (r, rf) \<Longrightarrow>
    cstep n s (put p rf (net s - {#AppReq i p a#} + {#AppRep i p a r#}) s)"
| append_reply: "AppRep i p a r \<in># net s \<Longrightarrow> handleAppendEntryReply p a r (nodes s i) = Some rf \<Longrightarrow>
    cstep n s (put i rf (net s - {#AppRep i p a r#}) s)"
| install_snapshot: "SnapReq i p b \<in># net s \<Longrightarrow> InstallSnapShot b (nodes s p) = Some (q, rf) \<Longrightarrow>
    cstep n s (put p rf (net s - {#SnapReq i p b#} + {#SnapRep i p b q#}) s)"
| snapshot_reply: "SnapRep i p b q \<in># net s \<Longrightarrow>
    handleInstallSnapShotReply p b q (nodes s i) = Some rf \<Longrightarrow>
    cstep n s (put i rf (net s - {#SnapRep i p b q#}) s)"
| start: "i < n \<Longrightarrow> Start c (nodes s i) = Some (res, rf) \<Longrightarrow> cstep n s (put i rf (net s) s)"
| snapshot: "i < n \<Longrightarrow> k \<le> lastApplied (nodes s i) \<Longrightarrow> Snapshot k d (nodes s i) = Some rf \<Longrightarrow>
    cstep n s (put i rf (net s) s)"
| apply_step: "i < n \<Longrightarrow> applier (nodes s i) = Some (ApplierContinues rf) \<Longrightarrow>
    cstep n s (put i rf (net s) s)"
| kill: "i < n \<Longrightarrow> cstep n s (put i (Kill (nodes s i)) (net s) s)"
| crash: "i < n \<Longrightarrow> Make n i (Copy (persister (nodes s i))) = Some rf \<Longrightarrow>
    cstep n s (put i rf (net s) s)"
| crash_election: "i < n \<Longrightarrow> Make n i (Copy (persister (raised (nodes s i)))) = Some rf \<Longrightarrow>
    cstep n s (put i rf (net s) s)"
| crash_vote: "VoteReq i p a \<in># net s \<Longrightarrow>
    Make n p (Copy (persister (stepDown (rv_Term a) (nodes s p)))) = Some rf \<Longrightarrow>
    cstep n s (put p rf (net s) s)"
| crash_append: "AppReq i p b \<in># net s \<Longrightarrow>
    Make n p (Copy (persister (stepDown (ae_Term b) (nodes s p)))) = Some rf \<Longrightarrow>
    cstep n s (put p rf (net s) s)"
| lose: "m \<in># net s \<Longrightarrow> cstep n s (s\<lparr>net := net s - {#m#}\<rparr>)"

definition cinit :: "nat \<Rightarrow> ('c, 'b) Cluster \<Rightarrow> bool" where
  "cinit n s \<longleftrightarrow> (\<forall>i < n. Make n i MakePersister = Some (nodes s i)) \<and> net s = {#}"

inductive creach :: "nat \<Rightarrow> ('c, 'b) Cluster \<Rightarrow> bool" for n where
  init: "cinit n s \<Longrightarrow> creach n s"
| step: "creach n s \<Longrightarrow> cstep n s s' \<Longrightarrow> creach n s'"

section \<open>Steps of the peers alone\<close>

text \<open>The steps of the cluster in which no service takes part.\<close>

inductive pstep :: "nat \<Rightarrow> ('c, 'b) Cluster \<Rightarrow> ('c, 'b) Cluster \<Rightarrow> bool" for n where
  timeout: "i < n \<Longrightarrow> ticker_election (nodes s i) = Some (calls, rf) \<Longrightarrow>
    pstep n s (put i rf (net s + mset (map (\<lambda>(p, a). VoteReq i p a) calls)) s)"
| heartbeat: "i < n \<Longrightarrow> pstep n s (put i (ticker_heartbeat (nodes s i)) (net s) s)"
| request_vote: "VoteReq i p a \<in># net s \<Longrightarrow> RequestVote a (nodes s p) = Some (r, rf) \<Longrightarrow>
    pstep n s (put p rf (net s - {#VoteReq i p a#} + {#VoteRep i p a r#}) s)"
| vote_reply: "VoteRep i p a r \<in># net s \<Longrightarrow> handleVoteReply a r (nodes s i) = Some rf \<Longrightarrow>
    pstep n s (put i rf (net s - {#VoteRep i p a r#}) s)"
| send: "i < n \<Longrightarrow> p < n \<Longrightarrow> p \<noteq> i \<Longrightarrow> doSendAppendEntry p (nodes s i) = Some (Some q) \<Longrightarrow>
    pstep n s (put i (nodes s i) (net s + {#packet_of i p q#}) s)"
| append_entry: "AppReq i p a \<in># net s \<Longrightarrow> AppendEntry a (nodes s p) = Some (r, rf) \<Longrightarrow>
    pstep n s (put p rf (net s - {#AppReq i p a#} + {#AppRep i p a r#}) s)"
| append_reply: "AppRep i p a r \<in># net s \<Longrightarrow> handleAppendEntryReply p a r (nodes s i) = Some rf \<Longrightarrow>
    pstep n s (put i rf (net s - {#AppRep i p a r#}) s)"
| install_snapshot: "SnapReq i p b \<in># net s \<Longrightarrow> InstallSnapShot b (nodes s p) = Some (q, rf) \<Longrightarrow>
    pstep n s (put p rf (net s - {#SnapReq i p b#} + {#SnapRep i p b q#}) s)"
| snapshot_reply: "SnapRep i p b q \<in># net s \<Longrightarrow>
    handleInstallSnapShotReply p b q (nodes s i) = Some rf \<Longrightarrow>
    pstep n s (put i rf (net s - {#SnapRep i p b q#}) s)"
| apply_step: "i < n \<Longrightarrow> applier (nodes s i) = Some (ApplierContinues rf) \<Longrightarrow>
    pstep n s (put i rf (net s) s)"
| lose: "m \<in># net s \<Longrightarrow> pstep n s (s\<lparr>net := net s - {#m#}\<rparr>)"

lemma pstep_cstep: "pstep n s s' \<Longrightarrow> cstep n s s'"
  by (induction rule: pstep.induct) (rule cstep.intros; assumption)+

text \<open>What is on the disk of a peer when it crashes, also between two writes of one handler.\<close>

inductive at_crash :: "nat \<Rightarrow> ('c, 'b) Cluster \<Rightarrow> nat \<Rightarrow> ('c, 'b) disk \<Rightarrow> bool" for n s where
  "i < n \<Longrightarrow> at_crash n s i (persister (nodes s i))"
| "i < n \<Longrightarrow> at_crash n s i (persister (raised (nodes s i)))"
| "VoteReq i p a \<in># net s \<Longrightarrow> at_crash n s p (persister (stepDown (rv_Term a) (nodes s p)))"
| "AppReq i p b \<in># net s \<Longrightarrow> at_crash n s p (persister (stepDown (ae_Term b) (nodes s p)))"

lemma at_crash_cstep:
  assumes "at_crash n s i d" and "Make n i (Copy d) = Some rf"
  shows "cstep n s (put i rf (net s) s)"
  using assms by cases (auto intro: cstep.crash cstep.crash_election cstep.crash_vote cstep.crash_append)

section \<open>The invariant\<close>

abbreviation disk :: "('c, 'b) Cluster \<Rightarrow> nat \<Rightarrow> ('c, 'b) disk" where
  "disk s i \<equiv> persister (nodes s i)"

fun vkey :: "('c, 'b) packet \<Rightarrow> (nat \<times> nat \<times> int) multiset" where
  "vkey (VoteReq i p a) = {#(i, p, rv_Term a)#}"
| "vkey (VoteRep i p a r) = {#(i, p, rv_Term a)#}"
| "vkey _ = {#}"

definition vkeys :: "('c, 'b) packet multiset \<Rightarrow> (nat \<times> nat \<times> int) multiset" where
  "vkeys M = \<Sum>\<^sub># (image_mset vkey M)"

text \<open>A request for log entries is of a term its sender has led, and fits its sender's log.\<close>

definition lead_ok :: "('c, 'b) Raft \<Rightarrow> 'c AppendEntryArgs \<Rightarrow> bool" where
  "lead_ok rf a \<longleftrightarrow> ae_Term a \<le> pterm (persister rf)
     \<and> (currentTerm rf = ae_Term a \<longrightarrow> state rf \<noteq> Candidate
        \<and> (state rf = Leader \<longrightarrow> ae_PrevLogIndex a \<le> lastIdx (logs rf)))"

type_synonym history = "nat \<Rightarrow> int \<rightharpoonup> int"

fun packet_ok :: "nat \<Rightarrow> history \<Rightarrow> (nat \<Rightarrow> ('c, 'b) Raft) \<Rightarrow> ('c, 'b) packet \<Rightarrow> bool" where
  "packet_ok n H N (VoteReq i p a) = (i < n \<and> p < n \<and> p \<noteq> i \<and> rv_CandidateId a = int i
     \<and> rv_Term a \<le> pterm (persister (N i)))"
| "packet_ok n H N (VoteRep i p a r) = (i < n \<and> p < n \<and> p \<noteq> i \<and> rv_Term a \<le> pterm (persister (N i))
     \<and> (rvr_VoteGranted r \<longrightarrow> H p (rv_Term a) = Some (int i)))"
| "packet_ok n H N (AppReq i p a) = (i < n \<and> p < n \<and> ae_wf a \<and> lead_ok (N i) a)"
| "packet_ok n H N (AppRep i p a r) = (i < n \<and> p < n \<and> lead_ok (N i) a)"
| "packet_ok n H N (SnapReq i p b) = (i < n \<and> p < n \<and> snap_wf b)"
| "packet_ok n H N (SnapRep i p b r) = (i < n \<and> p < n)"

text \<open>
  \<open>H p t\<close> is the candidate for whom peer \<open>p\<close> has voted in term \<open>t\<close>, and \<open>C i t\<close> the set of the
  other peers whose votes candidate \<open>i\<close> has counted in term \<open>t\<close>.
\<close>

definition hist_ok :: "history \<Rightarrow> nat \<Rightarrow> ('c, 'b) disk \<Rightarrow> bool" where
  "hist_ok H i d \<longleftrightarrow> (\<forall>t v. H i t = Some v \<longrightarrow> t \<le> pterm d)
     \<and> H i (pterm d) = (if pvote d = -1 then None else Some (pvote d))"

definition tally_ok :: "nat \<Rightarrow> (int \<Rightarrow> nat set) \<Rightarrow> ('c, 'b) Raft \<Rightarrow> bool" where
  "tally_ok n C rf \<longleftrightarrow>
     (state rf \<noteq> Follower \<longrightarrow> voteFor rf = int (me rf) \<and> pterm (persister rf) = currentTerm rf)
     \<and> (state rf = Candidate \<longrightarrow> votes (currentTerm rf) rf = 1 + int (card (C (currentTerm rf))))
     \<and> (state rf = Leader \<longrightarrow> 1 + card (C (currentTerm rf)) > n div 2)
     \<and> (\<forall>t. C t \<noteq> {} \<longrightarrow> t \<le> pterm (persister rf))"

definition peer_ok :: "nat \<Rightarrow> history \<Rightarrow> (nat \<Rightarrow> int \<Rightarrow> nat set) \<Rightarrow> nat \<Rightarrow> ('c, 'b) Raft \<Rightarrow> bool" where
  "peer_ok n H C i rf \<longleftrightarrow> node_ok rf \<and> me rf = i \<and> npeers rf = n \<and> hist_ok H i (persister rf)
     \<and> tally_ok n (C i) rf"

definition cinv :: "nat \<Rightarrow> history \<Rightarrow> (nat \<Rightarrow> int \<Rightarrow> nat set) \<Rightarrow> ('c, 'b) Cluster \<Rightarrow> bool" where
  "cinv n H C s \<longleftrightarrow> (\<forall>i < n. peer_ok n H C i (nodes s i))
     \<and> (\<forall>i < n. \<forall>t. \<forall>p \<in> C i t. p < n \<and> p \<noteq> i \<and> H p t = Some (int i)
          \<and> count (vkeys (net s)) (i, p, t) = 0)
     \<and> (\<forall>k. count (vkeys (net s)) k \<le> 1)
     \<and> (\<forall>m \<in># net s. packet_ok n H (nodes s) m)"

lemma vkeys_simps [simp]:
  "vkeys {#} = {#}" "vkeys (M + N) = vkeys M + vkeys N" "vkeys (add_mset m M) = vkey m + vkeys M"
  by (simp_all add: vkeys_def)

lemma vkeys_diff: "m \<in># M \<Longrightarrow> vkeys (M - {#m#}) + vkey m = vkeys M"
  by (metis insert_DiffM union_commute vkeys_simps(3))

lemma cinvD:
  assumes "cinv n H C s"
  shows "i < n \<Longrightarrow> peer_ok n H C i (nodes s i)"
    and "i < n \<Longrightarrow> p \<in> C i t \<Longrightarrow> p < n \<and> p \<noteq> i \<and> H p t = Some (int i) \<and> count (vkeys (net s)) (i, p, t) = 0"
    and "count (vkeys (net s)) k \<le> 1"
    and "m \<in># net s \<Longrightarrow> packet_ok n H (nodes s) m"
  using assms by (simp_all add: cinv_def split_paired_all del: split_paired_All)

text \<open>How a peer may change while the packets already in flight stay valid.\<close>

definition advances :: "('c, 'b) Raft \<Rightarrow> ('c, 'b) Raft \<Rightarrow> bool" where
  "advances rf rf' \<longleftrightarrow> pterm (persister rf) \<le> pterm (persister rf')
     \<and> (state rf' \<noteq> Follower \<and> currentTerm rf' \<le> pterm (persister rf) \<longrightarrow>
          currentTerm rf' = currentTerm rf \<and> lastIdx (logs rf) \<le> lastIdx (logs rf')
          \<and> (state rf' = state rf \<or> state rf = Candidate \<and> state rf' = Leader))"

lemma lead_ok_advances:
  assumes "lead_ok rf a" and "advances rf rf'"
  shows "lead_ok rf' a"
  using assms by (cases "state rf'") (auto simp: lead_ok_def advances_def)

lemma packet_ok_advances:
  assumes "packet_ok n H N m" and "advances (N i) rf'" and "\<And>p t v. H p t = Some v \<Longrightarrow> H' p t = Some v"
  shows "packet_ok n H' (N(i := rf')) m"
proof (cases m)
  case (AppReq j p a)
  then show ?thesis using assms lead_ok_advances [OF _ assms(2)] by auto
next
  case (AppRep j p a r)
  then show ?thesis using assms lead_ok_advances [OF _ assms(2)] by auto
qed (use assms in \<open>auto simp: advances_def\<close>)

text \<open>
  One step: votes already cast stay, a vote is counted only from a granted reply in flight, and
  no peer goes back.
\<close>

definition evolves :: "nat \<Rightarrow> history \<Rightarrow> (nat \<Rightarrow> int \<Rightarrow> nat set) \<Rightarrow> ('c, 'b) Cluster \<Rightarrow>
    history \<Rightarrow> (nat \<Rightarrow> int \<Rightarrow> nat set) \<Rightarrow> ('c, 'b) Cluster \<Rightarrow> bool" where
  "evolves n H C s H' C' s' \<longleftrightarrow> cinv n H' C' s'
     \<and> (\<forall>p t v. H p t = Some v \<longrightarrow> H' p t = Some v)
     \<and> (\<forall>i p t. p \<in> C' i t \<longrightarrow> p \<in> C i t
          \<or> (\<exists>a r. VoteRep i p a r \<in># net s \<and> rvr_VoteGranted r \<and> rv_Term a = t))
     \<and> (\<forall>i. advances (nodes s i) (nodes s' i))"

lemma evolvesI:
  assumes "cinv n H' C' s'" and "\<And>p t v. H p t = Some v \<Longrightarrow> H' p t = Some v"
    and "\<And>i p t. p \<in> C' i t \<Longrightarrow> p \<in> C i t
          \<or> (\<exists>a r. VoteRep i p a r \<in># net s \<and> rvr_VoteGranted r \<and> rv_Term a = t)"
    and "\<And>i. advances (nodes s i) (nodes s' i)"
  shows "evolves n H C s H' C' s'"
  using assms by (simp add: evolves_def)

lemma evolves_cinv: "evolves n H C s H' C' s' \<Longrightarrow> cinv n H' C' s'"
  by (simp add: evolves_def)

text \<open>The frame rule: one peer and the network change.\<close>

lemma cinv_update:
  assumes inv: "cinv n H C s" and i: "i < n"
    and peer: "peer_ok n H' C' i rf'" and adv: "advances (nodes s i) rf'"
    and H': "\<And>p t v. H p t = Some v \<Longrightarrow> H' p t = Some v" "\<And>p. p \<noteq> i \<Longrightarrow> H' p = H p"
    and C': "\<And>j. j \<noteq> i \<Longrightarrow> C' j = C j"
      "\<And>p t. p \<in> C' i t \<Longrightarrow> p \<in> C i t \<or> (p < n \<and> p \<noteq> i \<and> H' p t = Some (int i)
          \<and> count (vkeys M) (i, p, t) = 0
          \<and> (\<exists>a r. VoteRep i p a r \<in># net s \<and> rvr_VoteGranted r \<and> rv_Term a = t))"
    and M: "\<And>j p t. j < n \<Longrightarrow> p \<in> C j t \<Longrightarrow> count (vkeys M) (j, p, t) = 0"
      "\<And>k. count (vkeys M) k \<le> 1"
      "\<And>m. m \<in># M \<Longrightarrow> m \<in># net s \<or> packet_ok n H' ((nodes s)(i := rf')) m"
  shows "evolves n H C s H' C' (put i rf' M s)"
proof (rule evolvesI [OF _ H'(1)])
  show "advances (nodes s j) (nodes (put i rf' M s) j)" for j
    using adv by (cases "j = i") (simp_all add: advances_def)
  show "p \<in> C j t \<or> (\<exists>a r. VoteRep j p a r \<in># net s \<and> rvr_VoteGranted r \<and> rv_Term a = t)"
    if "p \<in> C' j t" for j p t using that C' by (cases "j = i") auto
  show "cinv n H' C' (put i rf' M s)"
    unfolding cinv_def
  proof (intro conjI allI impI ballI)
    fix j assume j: "j < n"
    show "peer_ok n H' C' j (nodes (put i rf' M s) j)"
      using cinvD(1) [OF inv j] peer H'(2) C'(1) by (cases "j = i") (auto simp: peer_ok_def hist_ok_def)
    fix t p assume p: "p \<in> C' j t"
    then have "p \<in> C j t \<or> (p < n \<and> p \<noteq> j \<and> H' p t = Some (int j) \<and> count (vkeys M) (j, p, t) = 0)"
      using C' by (cases "j = i") auto
    then have "p < n \<and> p \<noteq> j \<and> H' p t = Some (int j) \<and> count (vkeys M) (j, p, t) = 0"
      using cinvD(2) [OF inv j] H'(1) M(1) [OF j] by blast
    then show "p < n" "p \<noteq> j" "H' p t = Some (int j)" "count (vkeys (net (put i rf' M s))) (j, p, t) = 0"
      by auto
  next
    show "count (vkeys (net (put i rf' M s))) k \<le> 1" for k using M(2) by simp
    fix m assume "m \<in># net (put i rf' M s)"
    then have "m \<in># net s \<or> packet_ok n H' ((nodes s)(i := rf')) m" using M(3) by simp
    then show "packet_ok n H' (nodes (put i rf' M s)) m"
      using packet_ok_advances [OF cinvD(4) [OF inv] adv H'(1)] by auto
  qed
qed

text \<open>
  Steps without a vote: the peer keeps its role or becomes a follower, and its disk keeps the
  vote or moves to a newer term without one.
\<close>

definition quiet :: "('c, 'b) Raft \<Rightarrow> ('c, 'b) Raft \<Rightarrow> bool" where
  "quiet rf rf' \<longleftrightarrow> me rf' = me rf \<and> npeers rf' = npeers rf
     \<and> (pterm (persister rf') = pterm (persister rf) \<and> pvote (persister rf') = pvote (persister rf)
        \<or> pterm (persister rf') > pterm (persister rf) \<and> pvote (persister rf') = -1)
     \<and> (state rf' = Follower \<or> state rf' = state rf \<and> currentTerm rf' = currentTerm rf
          \<and> voteFor rf' = voteFor rf \<and> grantedVotes rf' = grantedVotes rf
          \<and> pterm (persister rf') = pterm (persister rf) \<and> lastIdx (logs rf) \<le> lastIdx (logs rf'))"

lemma quiet_peer_ok:
  assumes "peer_ok n H C i rf" and "quiet rf rf'" and "node_ok rf'"
  shows "peer_ok n H C i rf'"
proof -
  have "hist_ok H i (persister rf')"
    using assms(1,2) by (fastforce simp: peer_ok_def hist_ok_def quiet_def)
  moreover have "tally_ok n (C i) rf'"
    using assms(1,2) by (fastforce simp: peer_ok_def tally_ok_def quiet_def votes_def)
  ultimately show ?thesis using assms by (simp add: peer_ok_def quiet_def)
qed

lemma quiet_advances: "quiet rf rf' \<Longrightarrow> advances rf rf'"
  by (auto simp: quiet_def advances_def)

lemma cinv_quiet:
  assumes "cinv n H C s" and "i < n" and "quiet (nodes s i) rf'" and "node_ok rf'"
    and "vkeys M \<subseteq># vkeys (net s)"
    and "\<And>m. m \<in># M \<Longrightarrow> m \<in># net s \<or> packet_ok n H ((nodes s)(i := rf')) m"
  shows "evolves n H C s H C (put i rf' M s)"
proof (rule cinv_update [OF assms(1,2)])
  have le: "count (vkeys M) k \<le> count (vkeys (net s)) k" for k
    using assms(5) by (simp add: mset_subset_eq_count)
  show "count (vkeys M) k \<le> 1" for k using le [of k] cinvD(3) [OF assms(1), of k] by linarith
  show "count (vkeys M) (j, p, t) = 0" if "j < n" "p \<in> C j t" for j p t
    using le [of "(j, p, t)"] cinvD(2) [OF assms(1) that] by simp
qed (use assms quiet_peer_ok cinvD(1) [OF assms(1,2)] quiet_advances in auto)

section \<open>The quiet operations\<close>

lemma quiet_refl [simp]: "quiet rf rf"
  by (simp add: quiet_def)

lemma quiet_follower:
  assumes "state rf' = Follower" and "me rf' = me rf" and "npeers rf' = npeers rf"
    and "pterm (persister rf') = pterm (persister rf) \<and> pvote (persister rf') = pvote (persister rf)
        \<or> pterm (persister rf') > pterm (persister rf) \<and> pvote (persister rf') = -1"
  shows "quiet rf rf'"
  using assms by (simp add: quiet_def)

lemma quiet_same:
  assumes "me rf' = me rf" and "npeers rf' = npeers rf" and "persister rf' = persister rf"
    and "state rf' = state rf" and "currentTerm rf' = currentTerm rf" and "voteFor rf' = voteFor rf"
    and "grantedVotes rf' = grantedVotes rf" and "logs rf' = logs rf"
  shows "quiet rf rf'"
  using assms by (simp add: quiet_def)

text \<open>Writing the current term and vote to disk.\<close>

lemma saves_current:
  assumes "node_ok rf"
  shows "currentTerm rf = pterm (persister rf) \<and> voteFor rf = pvote (persister rf)
     \<or> currentTerm rf > pterm (persister rf) \<and> voteFor rf = -1"
  using assms by (auto simp: node_ok_def)

lemma stepDown_quiet: "node_ok rf \<Longrightarrow> quiet rf (stepDown t rf)"
  using node_ok_pterm [of rf] by (auto simp: stepDown_def intro!: quiet_follower)

lemma asFollower_saved: "persister (asFollower t rf) = persister (stepDown t rf)"
  by (simp add: asFollower_def)

lemma asFollower_quiet: "node_ok rf \<Longrightarrow> quiet rf (asFollower t rf)"
  using stepDown_quiet [of rf t]
  by (intro quiet_follower) (auto simp: asFollower_saved quiet_def)

lemma accepted_quiet:
  assumes "node_ok rf"
  shows "quiet rf (accepted a rf)"
proof (rule quiet_follower)
  let ?r = "asFollower (ae_Term a) rf"
  have q: "quiet rf ?r" and n: "node_ok ?r"
    using assms by (simp_all add: asFollower_quiet asFollower_node_ok)
  show "pterm (persister (accepted a rf)) = pterm (persister rf)
        \<and> pvote (persister (accepted a rf)) = pvote (persister rf)
        \<or> pterm (persister (accepted a rf)) > pterm (persister rf) \<and> pvote (persister (accepted a rf)) = -1"
    using q saves_current [OF n] by (auto simp: appended_def quiet_def)
qed simp_all

lemma AppendEntry_quiet:
  assumes "node_ok rf" and "ae_wf a" and "AppendEntry a rf = Some (r, rf')"
  shows "quiet rf rf' \<and> node_ok rf'"
  using AppendEntry_node_ok [OF assms(1,2)] assms(3) asFollower_quiet [OF assms(1)]
    accepted_quiet [OF assms(1)] by auto

lemma adopt_quiet: "quiet rf (adopt t rf)"
  by (rule quiet_follower) simp_all

lemma installed_simps [simp]:
  "me (installed a rf) = me rf" "npeers (installed a rf) = npeers rf" "state (installed a rf) = Follower"
  "pterm (persister (installed a rf)) = max (is_Term a) (currentTerm rf)"
  "pvote (persister (installed a rf)) = voteFor (adopt (is_Term a) rf)"
  by (simp_all add: installed_def Let_def)

lemma InstallSnapShot_quiet:
  assumes "node_ok rf" and "snap_wf b" and "InstallSnapShot b rf = Some (q, rf')"
  shows "quiet rf rf' \<and> node_ok rf'"
proof -
  have lo: "log_ok (logs rf)" "firstIdx (logs rf) \<le> lastApplied rf"
    using assms(1) by (auto simp: node_ok_def raft_wf_def)
  have "quiet rf (installed b rf)" if "\<not> is_Term b < currentTerm rf"
    using that saves_current [OF assms(1)] by (intro quiet_follower) (auto simp: adopt_vote)
  then show ?thesis
    using assms(3) adopt_quiet adopt_node_ok [OF assms(1)] installed_node_ok [OF assms(1,2)] assms(1)
    unfolding InstallSnapShot_ok [OF lo] by (auto split: if_splits)
qed

text \<open>A leader or candidate has its term and vote on disk.\<close>

lemma persisted_quiet:
  assumes "node_ok rf" and "state rf \<noteq> Follower \<Longrightarrow> pterm (persister rf) = currentTerm rf"
    and "me rf' = me rf" and "npeers rf' = npeers rf" and "state rf' = state rf"
    and "currentTerm rf' = currentTerm rf" and "voteFor rf' = voteFor rf"
    and "grantedVotes rf' = grantedVotes rf" and "lastIdx (logs rf) \<le> lastIdx (logs rf')"
    and "pterm (persister rf') = currentTerm rf" and "pvote (persister rf') = voteFor rf"
  shows "quiet rf rf'"
  using saves_current [OF assms(1)] assms(2-) by (cases "state rf") (auto simp: quiet_def)

lemma lastIdx_compacted:
  assumes "log_ok ls" and "firstIdx ls \<le> i" and "i \<le> lastIdx ls"
  shows "lastIdx (compacted i ls) = lastIdx ls"
proof (cases "i = lastIdx ls")
  case True
  then show ?thesis by (simp add: compacted_last [OF assms(1)])
next
  case False
  then have "nat (i - firstIdx ls + 1) < length ls" using assms by (auto simp: log_ok_lastIdx)
  then show ?thesis by (simp add: compacted_def lastIdx_def)
qed

lemma Snapshot_quiet:
  assumes "node_ok rf" and "state rf \<noteq> Follower \<Longrightarrow> pterm (persister rf) = currentTerm rf"
    and "Snapshot k d rf = Some rf'"
  shows "quiet rf rf'"
proof (cases "dead rf \<or> k \<le> firstIdx (logs rf) \<or> k > lastIdx (logs rf)")
  case True
  then show ?thesis using assms(3) by (simp add: Snapshot_ok [OF node_ok_wf [OF assms(1)]])
next
  case False
  then show ?thesis
    using assms(3) lastIdx_compacted [OF node_ok_log [OF assms(1)], of k]
    by (intro persisted_quiet [OF assms(1,2)])
       (auto simp: Snapshot_ok [OF node_ok_wf [OF assms(1)]])
qed

lemma started_quiet:
  assumes "node_ok rf" and "state rf \<noteq> Follower \<Longrightarrow> pterm (persister rf) = currentTerm rf"
  shows "quiet rf (started c rf)"
  using assms(2) by (intro persisted_quiet [OF assms(1)]) (auto simp: started_def Let_def lastIdx_def)

lemma Start_quiet:
  assumes "node_ok rf" and "state rf \<noteq> Follower \<Longrightarrow> pterm (persister rf) = currentTerm rf"
    and "Start c rf = Some (res, rf')"
  shows "quiet rf rf' \<and> node_ok rf'"
  using assms started_quiet [OF assms(1,2)] started_node_ok [OF assms(1)]
  by (auto simp: Start_ok [OF node_ok_wf [OF assms(1)]] split: if_splits)

lemma heartbeat_quiet: "quiet rf (ticker_heartbeat rf)" and heartbeat_node_ok:
  "node_ok rf \<Longrightarrow> node_ok (ticker_heartbeat rf)"
proof -
  show "quiet rf (ticker_heartbeat rf)" by (rule quiet_same) (simp_all add: ticker_heartbeat_def Let_def)
  show "node_ok rf \<Longrightarrow> node_ok (ticker_heartbeat rf)"
    by (erule node_ok_cong) (simp_all add: ticker_heartbeat_def Let_def)
qed

lemma Kill_quiet: "quiet rf (Kill rf)" and Kill_node_ok: "node_ok rf \<Longrightarrow> node_ok (Kill rf)"
proof -
  show "quiet rf (Kill rf)" by (rule quiet_same) (simp_all add: Kill_def)
  show "node_ok rf \<Longrightarrow> node_ok (Kill rf)" by (erule node_ok_cong) (simp_all add: Kill_def)
qed

lemma revived_simps [simp]:
  "me (revived n i d) = i" "npeers (revived n i d) = n" "state (revived n i d) = Follower"
  "persister (revived n i d) = d"
  by (simp_all add: revived_def boot_def split: prod.splits)

section \<open>Every step preserves the invariant\<close>

lemma vkeys_bound:
  assumes "cinv n H C s" and "(i, p, t) \<in># vkeys (net s)"
  shows "t \<le> pterm (disk s i)"
proof -
  obtain m where m: "m \<in># net s" "(i, p, t) \<in># vkey m" using assms(2) by (auto simp: vkeys_def)
  then have "packet_ok n H (nodes s) m" by (intro cinvD(4) [OF assms(1)])
  then show ?thesis using m(2) by (cases m) auto
qed

lemma peer_okD:
  assumes "peer_ok n H C i rf"
  shows "node_ok rf" "me rf = i" "npeers rf = n" "raft_wf rf" "log_ok (logs rf)" "arrays_ok rf"
    "pterm (persister rf) \<le> currentTerm rf"
    "state rf \<noteq> Follower \<Longrightarrow> pterm (persister rf) = currentTerm rf"
    "state rf \<noteq> Follower \<Longrightarrow> voteFor rf = int i"
  using assms node_ok_pterm [of rf] by (auto simp: peer_ok_def tally_ok_def node_ok_def raft_wf_def)

lemma count_distinct_le: "distinct xs \<Longrightarrow> count (mset xs) k \<le> 1"
  by (induction xs) auto

lemma vkeys_requests: "vkeys (mset (map (\<lambda>p. VoteReq i p a) ps)) = mset (map (\<lambda>p. (i, p, rv_Term a)) ps)"
  by (induction ps) auto

lemma campaign_peer_ok:
  assumes "peer_ok n H C i rf"
  shows "peer_ok n (H(i := (H i)(currentTerm rf + 1 \<mapsto> int i))) C i (campaign rf)"
proof -
  note d = peer_okD [OF assms]
  have "C i (currentTerm rf + 1) = {}"
    using assms d(7) by (force simp: peer_ok_def tally_ok_def)
  then have "tally_ok n (C i) (campaign rf)"
    using assms d(7) by (fastforce simp: peer_ok_def tally_ok_def votes_def)
  moreover have "hist_ok (H(i := (H i)(currentTerm rf + 1 \<mapsto> int i))) i (persister (campaign rf))"
    using assms d(2,7) by (fastforce simp: peer_ok_def hist_ok_def)
  ultimately show ?thesis using d campaign_node_ok by (simp add: peer_ok_def)
qed

lemma hist_fresh:
  assumes "peer_ok n H C i rf" and "t > pterm (persister rf)"
  shows "H i t = None"
  using assms by (cases "H i t") (force simp: peer_ok_def hist_ok_def)+

lemma step_timeout:
  fixes s :: "('a, 'b) Cluster"
  assumes inv: "cinv n H C s" and i: "i < n"
    and tk: "ticker_election (nodes s i) = Some (calls, rf)"
  shows "\<exists>H' C'. evolves n H C s H' C' (put i rf (net s + mset (map (\<lambda>(p, a). VoteReq i p a) calls)) s)"
proof -
  let ?rf = "nodes s i"
  let ?t = "currentTerm ?rf + 1"
  note p = cinvD(1) [OF inv i] and d = peer_okD [OF cinvD(1) [OF inv i]]
  show ?thesis
  proof (cases "dead ?rf")
    case True
    then have "calls = []" "rf = ?rf" using tk d(5) by (simp_all add: ticker_election_ok)
    then show ?thesis using cinv_quiet [OF inv i quiet_refl d(1)] by auto
  next
    case False
    define R :: "('a, 'b) packet multiset"
      where "R = mset (map (\<lambda>p. VoteReq i p (ballot ?rf)) (others n i))"
    let ?H = "H(i := (H i)(?t \<mapsto> int i))"
    have c: "calls = map (\<lambda>p. (p, ballot ?rf)) (others n i)" "rf = campaign ?rf"
      using tk d(2,3,5) False by (simp_all add: ticker_election_ok)
    have R: "mset (map (\<lambda>(p, a). VoteReq i p a) calls) = R" by (simp add: c(1) comp_def R_def)
    have k: "vkeys R = mset (map (\<lambda>p. (i, p, ?t)) (others n i))" by (simp only: R_def vkeys_requests) simp
    have old: "count (vkeys (net s)) (i, q, ?t) = 0" for q
      using vkeys_bound [OF inv, of i q ?t] d(7) by (force simp: count_eq_zero_iff)
    have C0: "C i ?t = {}" using p d(7) by (force simp: peer_ok_def tally_ok_def)
    have "evolves n H C s ?H C (put i rf (net s + R) s)"
    proof (rule cinv_update [OF inv i])
      show "peer_ok n ?H C i rf" using campaign_peer_ok [OF p] c(2) by simp
      show "advances ?rf rf" using d(7) c(2) by (simp add: advances_def)
      show "?H q t = Some v" if "H q t = Some v" for q t v
        using that hist_fresh [OF p, of ?t] d(7) by auto
      show "count (vkeys (net s + R)) (j, q, t) = 0" if "j < n" "q \<in> C j t" for j q t
        using cinvD(2) [OF inv that] C0 that by (auto simp: k count_eq_zero_iff)
      show "count (vkeys (net s + R)) x \<le> 1" for x
      proof (cases "x \<in># vkeys R")
        case True
        then have "count (vkeys (net s)) x = 0" using old by (auto simp: k)
        moreover have "count (vkeys R) x \<le> 1"
          unfolding k by (rule count_distinct_le) (simp add: distinct_map inj_on_def)
        ultimately show ?thesis by simp
      next
        case False
        then show ?thesis using cinvD(3) [OF inv, of x] by (simp add: not_in_iff)
      qed
      show "m \<in># net s \<or> packet_ok n ?H ((nodes s)(i := rf)) m" if "m \<in># net s + R" for m
        using that d(2) c(2) i by (auto simp: R_def)
    qed auto
    then show ?thesis using R by metis
  qed
qed

lemma vkeys_answer:
  assumes "m \<in># M" and "vkey m' = vkey m"
  shows "vkeys (M - {#m#} + {#m'#}) = vkeys M"
  using vkeys_diff [OF assms(1)] assms(2) by (simp add: union_commute)

lemma vkeys_remove: "vkeys (M - {#m#}) \<subseteq># vkeys M"
proof (cases "m \<in># M")
  case True
  then show ?thesis using vkeys_diff [OF True] mset_subset_eq_add_left by metis
next
  case False
  then show ?thesis by (simp add: diff_single_trivial)
qed

lemma voted_follower:
  assumes "peer_ok n H C p rf" and "\<not> refuses a rf" and "rv_CandidateId a = int i" and "i \<noteq> p"
  shows "state (voted a rf) = Follower"
  using peer_okD(9) [OF assms(1)] assms(2-4)
  by (cases "state rf") (auto simp: refuses_def stepDown_def)

lemma voted_peer_ok:
  assumes ok: "peer_ok n H C p rf" and nr: "\<not> refuses a rf" and i: "rv_CandidateId a = int i" "i \<noteq> p"
  shows "peer_ok n (H(p := (H p)(rv_Term a \<mapsto> int i))) C p (voted a rf)"
proof -
  note d = peer_okD [OF ok]
  have t: "max (rv_Term a) (currentTerm rf) = rv_Term a" using nr by (auto simp: refuses_def)
  have "hist_ok (H(p := (H p)(rv_Term a \<mapsto> int i))) p (persister (voted a rf))"
    using ok d(7) i(1) t by (fastforce simp: peer_ok_def hist_ok_def)
  moreover have "tally_ok n (C p) (voted a rf)"
    using ok d(7) t voted_follower [OF ok nr i] by (fastforce simp: peer_ok_def tally_ok_def)
  ultimately show ?thesis using d voted_node_ok by (simp add: peer_ok_def)
qed

text \<open>A vote never contradicts an earlier one: this is where the persisted vote matters.\<close>

lemma vote_consistent:
  assumes ok: "peer_ok n H C p rf" and nr: "\<not> refuses a rf" and i: "rv_CandidateId a = int i"
    and v: "H p (rv_Term a) = Some v"
  shows "v = int i"
proof -
  note d = peer_okD [OF ok]
  have "rv_Term a \<le> pterm (persister rf)" using ok v by (auto simp: peer_ok_def hist_ok_def)
  then have t: "rv_Term a = currentTerm rf" "pterm (persister rf) = currentTerm rf"
    using nr d(7) by (auto simp: refuses_def)
  then have "pvote (persister rf) = voteFor rf" using d(1) by (simp add: node_ok_def)
  moreover have "pvote (persister rf) = v" "v \<noteq> -1"
    using ok v t by (auto simp: peer_ok_def hist_ok_def split: if_splits)
  ultimately show ?thesis using nr i t(1) by (auto simp: refuses_def)
qed

lemma step_request_vote:
  assumes inv: "cinv n H C s" and m: "VoteReq i p a \<in># net s"
    and rv: "RequestVote a (nodes s p) = Some (r, rf)"
  shows "\<exists>H' C'. evolves n H C s H' C' (put p rf (net s - {#VoteReq i p a#} + {#VoteRep i p a r#}) s)"
proof -
  let ?rf = "nodes s p" and ?M = "net s - {#VoteReq i p a#} + {#VoteRep i p a r#}"
  have pk: "i < n" "p < n" "p \<noteq> i" "rv_CandidateId a = int i" "rv_Term a \<le> pterm (disk s i)"
    using cinvD(4) [OF inv m] by auto
  note ok = cinvD(1) [OF inv pk(2)]
  note d = peer_okD [OF ok]
  have K: "vkeys ?M = vkeys (net s)" by (rule vkeys_answer [OF m]) simp
  have sub: "x \<in># net s \<or> x = VoteRep i p a r" if "x \<in># ?M" for x
    using that by (auto dest: in_diffD)
  show ?thesis
  proof (cases "\<not> refuses a ?rf \<and> upToDate a (logs ?rf)")
    case True
    then have r: "r = \<lparr>rvr_Term = rv_Term a, rvr_VoteGranted = True\<rparr>" "rf = voted a ?rf"
      using rv d(5) by (simp_all add: RequestVote_ok)
    let ?H = "H(p := (H p)(rv_Term a \<mapsto> int i))"
    have "evolves n H C s ?H C (put p rf ?M s)"
    proof (rule cinv_update [OF inv pk(2)])
      show "peer_ok n ?H C p rf"
        unfolding r(2) using True pk by (intro voted_peer_ok [OF ok]) auto
      show "advances ?rf rf"
        using voted_follower [OF ok _ pk(4)] True pk(3) d(7) r(2) by (simp add: advances_def)
      show "?H q t = Some v" if "H q t = Some v" for q t v
        using that vote_consistent [OF ok _ pk(4), of v] True by auto
      show "x \<in># net s \<or> packet_ok n ?H ((nodes s)(p := rf)) x" if "x \<in># ?M" for x
        using sub [OF that] pk r by auto
      show "count (vkeys ?M) (j, q, t) = 0" if "j < n" "q \<in> C j t" for j q t
        unfolding K using cinvD(2) [OF inv that] by simp
      show "count (vkeys ?M) k \<le> 1" for k unfolding K by (rule cinvD(3) [OF inv])
    qed auto
    then show ?thesis by blast
  next
    case False
    then have r: "\<not> rvr_VoteGranted r" "rf = ?rf \<or> rf = stepDown (rv_Term a) ?rf"
      using rv d(5) by (auto simp: RequestVote_ok split: if_splits)
    have q: "quiet ?rf rf" "node_ok rf"
      using r(2) stepDown_quiet [OF d(1)] stepDown_node_ok [OF d(1)] d(1) by auto
    have "evolves n H C s H C (put p rf ?M s)"
    proof (rule cinv_quiet [OF inv pk(2) q])
      show "vkeys ?M \<subseteq># vkeys (net s)" using K by simp
      show "x \<in># net s \<or> packet_ok n H ((nodes s)(p := rf)) x" if "x \<in># ?M" for x
        using sub [OF that] pk r(1) by auto
    qed
    then show ?thesis by blast
  qed
qed

lemma cinv_quiet_remove:
  assumes "cinv n H C s" and "i < n" and "quiet (nodes s i) rf'" and "node_ok rf'"
  shows "evolves n H C s H C (put i rf' (net s - {#m#}) s)"
  by (rule cinv_quiet [OF assms vkeys_remove]) (auto dest: in_diffD)

lemma cinv_quiet_answer:
  assumes "cinv n H C s" and "i < n" and "quiet (nodes s i) rf'" and "node_ok rf'"
    and "m \<in># net s" and "vkey m' = vkey m" and "packet_ok n H ((nodes s)(i := rf')) m'"
  shows "evolves n H C s H C (put i rf' (net s - {#m#} + {#m'#}) s)"
proof (rule cinv_quiet [OF assms(1-4)])
  show "vkeys (net s - {#m#} + {#m'#}) \<subseteq># vkeys (net s)"
    using vkeys_answer [OF assms(5,6)] by simp
  show "x \<in># net s \<or> packet_ok n H ((nodes s)(i := rf')) x" if "x \<in># net s - {#m#} + {#m'#}" for x
    using that assms(7) by (auto dest: in_diffD)
qed

lemma elected_simps [simp]:
  "npeers (elected t rf) = npeers rf" "me (elected t rf) = me rf" "logs (elected t rf) = logs rf"
  "currentTerm (elected t rf) = currentTerm rf" "voteFor (elected t rf) = voteFor rf"
  "state (elected t rf) = Leader" "persister (elected t rf) = persister rf"
  by (simp_all add: elected_def)

lemma count_peer_ok:
  assumes ok: "peer_ok n H C i rf" and st: "state rf = Candidate" "currentTerm rf = t"
    and new: "q \<notin> C i t" "finite (C i t)"
    and rf': "rf' = (if votes t rf + 1 > int (npeers rf div 2) then elected t rf else counted t rf)"
  shows "peer_ok n H (C(i := (C i)(t := insert q (C i t)))) i rf'"
proof -
  note d = peer_okD [OF ok]
  have v: "votes t rf = 1 + int (card (C i t))" using ok st by (simp add: peer_ok_def tally_ok_def)
  have pt: "pterm (persister rf) = t" using d(8) st by simp
  have "tally_ok n ((C i)(t := insert q (C i t))) rf'"
    using ok st new v pt d(3) unfolding rf' by (auto simp: peer_ok_def tally_ok_def votes_def)
  then show ?thesis
    using ok d counted_node_ok elected_node_ok unfolding rf' by (auto simp: peer_ok_def hist_ok_def)
qed

lemma step_vote_reply:
  assumes inv: "cinv n H C s" and m: "VoteRep i p a r \<in># net s"
    and h: "handleVoteReply a r (nodes s i) = Some rf"
  shows "\<exists>H' C'. evolves n H C s H' C' (put i rf (net s - {#VoteRep i p a r#}) s)"
proof -
  let ?rf = "nodes s i" and ?t = "rv_Term a" and ?M = "net s - {#VoteRep i p a r#}"
  have pk: "i < n" "p < n" "p \<noteq> i" "rvr_VoteGranted r \<Longrightarrow> H p ?t = Some (int i)"
    using cinvD(4) [OF inv m] by auto
  note ok = cinvD(1) [OF inv pk(1)]
  note d = peer_okD [OF ok]
  note hv = h [unfolded handleVoteReply_ok [OF d(5,6)]]
  show ?thesis
  proof (cases "state ?rf = Candidate \<and> currentTerm ?rf = ?t \<and> rvr_VoteGranted r")
    case True
    then have rf: "rf = (if votes ?t ?rf + 1 > int (npeers ?rf div 2) then elected ?t ?rf else counted ?t ?rf)"
      using hv by simp
    let ?C = "C(i := (C i)(?t := insert p (C i ?t)))"
    have k: "count (vkeys ?M) (i, p, ?t) + 1 = count (vkeys (net s)) (i, p, ?t)"
      using arg_cong [OF vkeys_diff [OF m], of "\<lambda>M. count M (i, p, ?t)"] by simp
    have new: "p \<notin> C i ?t" using cinvD(2) [OF inv pk(1), of p ?t] k by auto
    have fin: "finite (C i ?t)"
      by (rule finite_subset [of _ "{..<n}"]) (use cinvD(2) [OF inv pk(1)] in auto)
    have le: "count (vkeys ?M) x \<le> count (vkeys (net s)) x" for x
      using vkeys_remove [of "net s" "VoteRep i p a r"] by (simp add: mset_subset_eq_count)
    have "evolves n H C s H ?C (put i rf ?M s)"
    proof (rule cinv_update [OF inv pk(1)])
      show "peer_ok n H ?C i rf" by (rule count_peer_ok [OF ok _ _ new fin rf]) (use True in auto)
      show "advances ?rf rf" using True unfolding rf by (simp add: advances_def)
      show "q \<in> C i t \<or> (q < n \<and> q \<noteq> i \<and> H q t = Some (int i) \<and> count (vkeys ?M) (i, q, t) = 0
            \<and> (\<exists>a r. VoteRep i q a r \<in># net s \<and> rvr_VoteGranted r \<and> rv_Term a = t))"
        if "q \<in> ?C i t" for q t
        using that pk True k m cinvD(3) [OF inv, of "(i, p, ?t)"] by (auto split: if_splits)
      show "count (vkeys ?M) (j, q, t) = 0" if "j < n" "q \<in> C j t" for j q t
        using cinvD(2) [OF inv that] le [of "(j, q, t)"] by simp
      show "count (vkeys ?M) x \<le> 1" for x using le [of x] cinvD(3) [OF inv, of x] by linarith
    qed (auto dest: in_diffD)
    then show ?thesis by blast
  next
    case False
    then have "rf = ?rf \<or> rf = stepDown (rvr_Term r) ?rf" using hv by (auto split: if_splits)
    then have "quiet ?rf rf" "node_ok rf"
      using stepDown_quiet [OF d(1)] stepDown_node_ok [OF d(1)] d(1) by auto
    then show ?thesis using cinv_quiet_remove [OF inv pk(1)] by blast
  qed
qed

lemma doSend_total:
  assumes "raft_wf rf" and "p < npeers rf"
  shows "doSendAppendEntry p rf \<noteq> None"
    and "doSendAppendEntry p rf = Some (Some (ReqSnapshot b)) \<Longrightarrow> snap_wf b"
    and "doSendAppendEntry p rf = Some (Some (ReqAppend a)) \<Longrightarrow>
      ae_wf a \<and> ae_Term a = currentTerm rf \<and> state rf = Leader \<and> ae_PrevLogIndex a \<le> lastIdx (logs rf)"
proof -
  have lo: "log_ok (logs rf)" and len: "length (nextIndex rf) = npeers rf"
    using assms(1) by (auto simp: raft_wf_def arrays_ok_def)
  have hd: "le_Term (hd (logs rf)) \<le> currentTerm rf"
    using assms(1) by (simp add: raft_wf_def log_ok_def)
  have ds: "doSendAppendEntry p rf = (if state rf \<noteq> Leader then Some None
      else if nextIndex rf ! p - 1 < firstIdx (logs rf)
      then do { args \<leftarrow> makeInstallSnapShotArgs rf; Some (Some (ReqSnapshot args)) }
      else do { args \<leftarrow> genAppendEntryArgs (nextIndex rf ! p - 1) rf; Some (Some (ReqAppend args)) })"
    using assms(2) len
    by (simp add: doSendAppendEntry_def getFirstLog_ok [OF lo] go_simps Let_def flip: firstIdx_def)
  show "doSendAppendEntry p rf \<noteq> None"
    using gen_wf [OF assms(1), of "nextIndex rf ! p - 1"]
    by (auto simp: ds makeInstallSnapShotArgs_def getFirstLog_ok [OF lo])
  show "snap_wf b" if "doSendAppendEntry p rf = Some (Some (ReqSnapshot b))"
    using that hd unfolding ds
    by (auto simp: makeInstallSnapShotArgs_def getFirstLog_ok [OF lo] snap_wf_def
        bind_eq_Some_conv split: if_splits)
  show "ae_wf a \<and> ae_Term a = currentTerm rf \<and> state rf = Leader \<and> ae_PrevLogIndex a \<le> lastIdx (logs rf)"
    if "doSendAppendEntry p rf = Some (Some (ReqAppend a))"
  proof -
    have g: "genAppendEntryArgs (nextIndex rf ! p - 1) rf = Some a" "state rf = Leader"
        "firstIdx (logs rf) \<le> nextIndex rf ! p - 1"
      using that unfolding ds by (auto simp: bind_eq_Some_conv split: if_splits)
    then show ?thesis using gen_wf [OF assms(1) g(3)] by (auto simp: matches_def)
  qed
qed

lemma step_send:
  assumes inv: "cinv n H C s" and i: "i < n" "p < n"
    and ds: "doSendAppendEntry p (nodes s i) = Some (Some q)"
  shows "evolves n H C s H C (put i (nodes s i) (net s + {#packet_of i p q#}) s)"
proof -
  note d = peer_okD [OF cinvD(1) [OF inv i(1)]]
  have pn: "p < npeers (nodes s i)" using d(3) i(2) by simp
  have "vkey (packet_of i p q) = {#}" by (cases q) (simp_all add: packet_of_def)
  moreover have "packet_ok n H (nodes s) (packet_of i p q)"
    using doSend_total(2,3) [OF d(4) pn] ds d(8) i
    by (cases q) (auto simp: packet_of_def lead_ok_def)
  ultimately show ?thesis by (intro cinv_quiet [OF inv i(1) quiet_refl d(1)]) auto
qed

lemma revived_quiet:
  assumes "cinv n H C s" and "i < n" and "quiet (nodes s i) rf1" and "node_ok rf1"
    and "Make n i (Copy (persister rf1)) = Some rf"
  shows "evolves n H C s H C (put i rf (net s) s)"
proof -
  note d = peer_okD [OF cinvD(1) [OF assms(1,2)]]
  have r: "rf = revived n i (persister rf1)"
    using assms(5) Make_revived [of "persister rf1" n i] node_ok_plogs [OF assms(4)]
      node_ok_log [OF assms(4)] by simp
  have "quiet (nodes s i) rf" unfolding r
    using assms(3) d(2,3) by (intro quiet_follower) (auto simp: quiet_def)
  then show ?thesis
    using cinv_quiet [OF assms(1,2), of rf "net s"] revived_node_ok [OF assms(4,2)] r by auto
qed

lemma step_crash_election:
  assumes inv: "cinv n H C s" and i: "i < n"
    and mk: "Make n i (Copy (persister (raised (nodes s i)))) = Some rf"
  shows "\<exists>H' C'. evolves n H C s H' C' (put i rf (net s) s)"
proof -
  let ?rf = "nodes s i"
  let ?t = "currentTerm ?rf + 1" and ?d = "persister (raised ?rf)"
  note ok = cinvD(1) [OF inv i]
  note d = peer_okD [OF ok]
  have n: "node_ok (raised ?rf)" by (rule raised_node_ok [OF d(1)])
  have r: "rf = revived n i ?d"
    using mk Make_revived [of ?d n i] node_ok_plogs [OF n] node_ok_log [OF n] by simp
  have pd: "pterm ?d = ?t" "pvote ?d = voteFor ?rf" by (simp_all add: raised_def)
  let ?H = "H(i := (H i)(?t := (if voteFor ?rf = -1 then None else Some (voteFor ?rf))))"
  have new: "H i ?t = None" using hist_fresh [OF ok, of ?t] d(7) by simp
  have "evolves n H C s ?H C (put i rf (net s) s)"
  proof (rule cinv_update [OF inv i])
    have "hist_ok ?H i ?d" using ok d(7) pd by (fastforce simp: peer_ok_def hist_ok_def)
    moreover have "tally_ok n (C i) rf"
      using ok d(7) pd by (fastforce simp: r peer_ok_def tally_ok_def)
    ultimately show "peer_ok n ?H C i rf"
      using revived_node_ok [OF n i] by (simp add: r peer_ok_def)
    show "advances ?rf rf" using d(7) pd by (simp add: r advances_def)
    show "?H p t = Some v" if "H p t = Some v" for p t v using that new by auto
  qed (use cinvD(2,3) [OF inv] in auto)
  then show ?thesis by blast
qed

lemma cinv_lose: "cinv n H C s \<Longrightarrow> evolves n H C s H C (s\<lparr>net := net s - {#m#}\<rparr>)"
proof -
  assume inv: "cinv n H C s"
  have le: "count (vkeys (net s - {#m#})) x \<le> count (vkeys (net s)) x" for x
    using vkeys_remove [of "net s" m] by (simp add: mset_subset_eq_count)
  have "cinv n H C (s\<lparr>net := net s - {#m#}\<rparr>)"
    unfolding cinv_def
  proof (intro conjI allI impI ballI)
    fix i t p assume "i < n" "p \<in> C i t"
    note c = cinvD(2) [OF inv this]
    show "p < n" "p \<noteq> i" "H p t = Some (int i)" using c by auto
    show "count (vkeys (net (s\<lparr>net := net s - {#m#}\<rparr>))) (i, p, t) = 0"
      using c le [of "(i, p, t)"] by simp
  next
    fix k show "count (vkeys (net (s\<lparr>net := net s - {#m#}\<rparr>))) k \<le> 1"
      using le [of k] cinvD(3) [OF inv, of k] by simp
  qed (use inv in \<open>auto simp: cinv_def dest: in_diffD\<close>)
  then show ?thesis by (auto simp: evolves_def advances_def)
qed

lemma step_append_entry:
  assumes inv: "cinv n H C s" and m: "AppReq i p a \<in># net s"
    and ae: "AppendEntry a (nodes s p) = Some (r, rf)"
  shows "evolves n H C s H C (put p rf (net s - {#AppReq i p a#} + {#AppRep i p a r#}) s)"
proof -
  have pk: "i < n" "p < n" "ae_wf a" "lead_ok (nodes s i) a" using cinvD(4) [OF inv m] by auto
  note d = peer_okD [OF cinvD(1) [OF inv pk(2)]]
  have q: "quiet (nodes s p) rf" "node_ok rf" using AppendEntry_quiet [OF d(1) pk(3) ae] by auto
  have "lead_ok (((nodes s)(p := rf)) i) a"
    using pk(4) lead_ok_advances [OF _ quiet_advances [OF q(1)]] by auto
  then show ?thesis using pk by (intro cinv_quiet_answer [OF inv pk(2) q m]) simp_all
qed

lemma reply_quiet:
  assumes "node_ok rf" and "logs rf' = logs rf"
    and "rf' = stepDown t rf \<or>
       (persister rf' = persister rf \<and> currentTerm rf' = currentTerm rf \<and> voteFor rf' = voteFor rf
        \<and> state rf' = state rf \<and> grantedVotes rf' = grantedVotes rf \<and> npeers rf' = npeers rf
        \<and> me rf' = me rf \<and> lastApplied rf' = lastApplied rf)"
  shows "quiet rf rf'"
  using assms(2,3) stepDown_quiet [OF assms(1), of t] quiet_same [of rf' rf] by metis

lemma step_append_reply:
  assumes inv: "cinv n H C s" and m: "AppRep i p a r \<in># net s"
    and h: "handleAppendEntryReply p a r (nodes s i) = Some rf"
  shows "evolves n H C s H C (put i rf (net s - {#AppRep i p a r#}) s)"
proof -
  have pk: "i < n" "p < n" "lead_ok (nodes s i) a" using cinvD(4) [OF inv m] by auto
  note d = peer_okD [OF cinvD(1) [OF inv pk(1)]]
  have "ae_PrevLogIndex a \<le> lastIdx (logs (nodes s i))" if "isValidLeader (ae_Term a) (nodes s i)"
    using that pk(3) by (auto simp: lead_ok_def isValidLeader_def)
  note hr = handleAppendEntryReply_node_ok [OF d(1), of p a r, unfolded h, OF _ this]
  have "quiet (nodes s i) rf" "node_ok rf"
    using hr pk(2) d(3) reply_quiet [OF d(1), of rf "aer_Term r"] by auto
  then show ?thesis by (intro cinv_quiet_remove [OF inv pk(1)])
qed

lemma step_install_snapshot:
  assumes inv: "cinv n H C s" and m: "SnapReq i p b \<in># net s"
    and h: "InstallSnapShot b (nodes s p) = Some (q, rf)"
  shows "evolves n H C s H C (put p rf (net s - {#SnapReq i p b#} + {#SnapRep i p b q#}) s)"
proof -
  have pk: "i < n" "p < n" "snap_wf b" using cinvD(4) [OF inv m] by auto
  note d = peer_okD [OF cinvD(1) [OF inv pk(2)]]
  have "quiet (nodes s p) rf" "node_ok rf" using InstallSnapShot_quiet [OF d(1) pk(3) h] by auto
  then show ?thesis using pk by (intro cinv_quiet_answer [OF inv pk(2) _ _ m]) simp_all
qed

lemma step_snapshot_reply:
  assumes inv: "cinv n H C s" and m: "SnapRep i p b q \<in># net s"
    and h: "handleInstallSnapShotReply p b q (nodes s i) = Some rf"
  shows "evolves n H C s H C (put i rf (net s - {#SnapRep i p b q#}) s)"
proof -
  have pk: "i < n" "p < n" using cinvD(4) [OF inv m] by auto
  note d = peer_okD [OF cinvD(1) [OF inv pk(1)]]
  have "quiet (nodes s i) rf" "node_ok rf"
    using handleInstallSnapShotReply_node_ok [OF d(1), of p b q] h pk(2) d(3)
      reply_quiet [OF d(1), of rf "isr_Term q"] by auto
  then show ?thesis by (intro cinv_quiet_remove [OF inv pk(1)])
qed

lemma cinv_local:
  assumes "cinv n H C s" and "i < n" and "quiet (nodes s i) rf" and "node_ok rf"
  shows "evolves n H C s H C (put i rf (net s) s)"
  using assms by (intro cinv_quiet) auto

lemma cinv_step:
  assumes "cstep n s s'" and inv: "cinv n H C s"
  shows "\<exists>H' C'. evolves n H C s H' C' s'"
  using assms(1)
proof cases
  case (timeout i calls rf)
  then show ?thesis using step_timeout [OF inv] by simp
next
  case (heartbeat i)
  then show ?thesis
    using cinv_local [OF inv _ heartbeat_quiet heartbeat_node_ok] peer_okD(1) [OF cinvD(1) [OF inv]] by blast
next
  case (request_vote i p a r rf)
  then show ?thesis using step_request_vote [OF inv] by simp
next
  case (vote_reply i p a r rf)
  then show ?thesis using step_vote_reply [OF inv] by simp
next
  case (send i p q)
  then show ?thesis using step_send [OF inv] by blast
next
  case (append_entry i p a r rf)
  then show ?thesis using step_append_entry [OF inv] by blast
next
  case (append_reply i p a r rf)
  then show ?thesis using step_append_reply [OF inv] by blast
next
  case (install_snapshot i p b q rf)
  then show ?thesis using step_install_snapshot [OF inv] by blast
next
  case (snapshot_reply i p b q rf)
  then show ?thesis using step_snapshot_reply [OF inv] by blast
next
  case (start i c res rf)
  note d = peer_okD [OF cinvD(1) [OF inv start(2)]]
  show ?thesis
    using Start_quiet [OF d(1,8) start(3)] cinv_local [OF inv start(2)] start(1) by blast
next
  case (snapshot i k d rf)
  note p = peer_okD [OF cinvD(1) [OF inv snapshot(2)]]
  show ?thesis
    using Snapshot_quiet [OF p(1,8) snapshot(4)] Snapshot_node_ok [OF p(1) snapshot(3,4)]
      cinv_local [OF inv snapshot(2)] snapshot(1) by blast
next
  case (apply_step i rf)
  note d = peer_okD [OF cinvD(1) [OF inv apply_step(2)]]
  have "quiet (nodes s i) rf \<and> node_ok rf"
    using applier_node_ok [OF d(1) apply_step(3)] quiet_same by metis
  then show ?thesis using cinv_local [OF inv apply_step(2)] apply_step(1) by blast
next
  case (kill i)
  then show ?thesis
    using cinv_local [OF inv _ Kill_quiet Kill_node_ok] peer_okD(1) [OF cinvD(1) [OF inv]] by blast
next
  case (crash i rf)
  then show ?thesis
    using revived_quiet [OF inv _ quiet_refl] peer_okD(1) [OF cinvD(1) [OF inv]] by blast
next
  case (crash_election i rf)
  then show ?thesis using step_crash_election [OF inv] by simp
next
  case (crash_vote i p a rf)
  then have p: "p < n" using cinvD(4) [OF inv] by fastforce
  note d = peer_okD(1) [OF cinvD(1) [OF inv p]]
  show ?thesis using crash_vote(1,3) revived_quiet [OF inv p stepDown_quiet stepDown_node_ok] d by blast
next
  case (crash_append i p b rf)
  then have p: "p < n" using cinvD(4) [OF inv] by fastforce
  note d = peer_okD(1) [OF cinvD(1) [OF inv p]]
  show ?thesis using crash_append(1,3) revived_quiet [OF inv p stepDown_quiet stepDown_node_ok] d by blast
next
  case (lose m)
  then show ?thesis using cinv_lose [OF inv] by blast
qed

lemma cinv_init:
  assumes "cinit n s"
  shows "cinv n (\<lambda>_ _. None) (\<lambda>_ _. {}) s"
proof -
  have b: "nodes s i = boot n i MakePersister" if "i < n" for i
  proof -
    have "Make n i MakePersister = Some (nodes s i)" using assms that by (simp add: cinit_def)
    then show ?thesis by (simp add: Make_fresh)
  qed
  have "peer_ok n (\<lambda>_ _. None) (\<lambda>_ _. {}) i (nodes s i)" if "i < n" for i
    using boot_node_ok [OF that] unfolding b [OF that]
    by (auto simp: peer_ok_def hist_ok_def tally_ok_def boot_def pterm_def pvote_def saved_fresh)
  then show ?thesis using assms by (auto simp: cinv_def cinit_def)
qed

lemma creach_cinv: "creach n s \<Longrightarrow> \<exists>H C. cinv n H C s"
proof (induction rule: creach.induct)
  case (init s)
  then show ?case using cinv_init by blast
next
  case (step s s')
  then show ?case using cinv_step evolves_cinv by blast
qed

section \<open>Election safety\<close>

text \<open>The votes of a leader: its own and those it has counted.\<close>

lemma leader_quorum:
  assumes inv: "cinv n H C s" and i: "i < n" and l: "state (nodes s i) = Leader"
  defines "t \<equiv> currentTerm (nodes s i)"
  shows "majority n (insert i (C i t))" and "\<And>p. p \<in> insert i (C i t) \<Longrightarrow> H p t = Some (int i)"
proof -
  note ok = cinvD(1) [OF inv i] and c = cinvD(2) [OF inv i]
  note d = peer_okD [OF ok]
  have pt: "pterm (disk s i) = t" using d(8) l by (simp add: t_def)
  have "pvote (disk s i) = int i" using d(1,9) l pt by (auto simp: node_ok_def t_def)
  then have "H i t = Some (int i)" using ok pt by (auto simp: peer_ok_def hist_ok_def)
  then show "H p t = Some (int i)" if "p \<in> insert i (C i t)" for p using that c by auto
  have "finite (C i t)" by (rule finite_subset [of _ "{..<n}"]) (use c in auto)
  moreover have "i \<notin> C i t" using c by blast
  moreover have "1 + card (C i t) > n div 2" using ok l by (simp add: peer_ok_def tally_ok_def t_def)
  ultimately show "majority n (insert i (C i t))" using c i by (auto simp: majority_def)
qed

lemma one_leader:
  assumes inv: "cinv n H C s" and "i < n" and "j < n"
    and "state (nodes s i) = Leader" and "state (nodes s j) = Leader"
    and "currentTerm (nodes s i) = currentTerm (nodes s j)"
  shows "i = j"
proof -
  note li = leader_quorum [OF inv assms(2,4)] and lj = leader_quorum [OF inv assms(3,5)]
  have "int i = int j"
    using maj.one_winner [OF li(1) lj(1), of "\<lambda>p. H p (currentTerm (nodes s i))" "int i" "int j"]
      li(2) lj(2) assms(6) by simp
  then show ?thesis by simp
qed

text \<open>
  C3: election safety.  In every state the cluster can reach, whatever packets are delayed,
  reordered or lost, whichever peers crash (also in the middle of a handler, between two writes
  to disk) and restart from their disks, at most one peer is leader in a given term.
\<close>

theorem election_safety:
  assumes "creach n s" and "i < n" and "j < n"
    and "state (nodes s i) = Leader" and "state (nodes s j) = Leader"
    and "currentTerm (nodes s i) = currentTerm (nodes s j)"
  shows "i = j"
proof -
  obtain H C where "cinv n H C s" using creach_cinv [OF assms(1)] by blast
  from one_leader [OF this assms(2-)] show ?thesis .
qed

text \<open>A concrete election of peer 0 by the vote of peer 1 in a cluster of three.\<close>

definition ex_boot :: "('c, 'b) Cluster" where
  "ex_boot = \<lparr>nodes = (\<lambda>i. boot 3 i MakePersister), net = {#}\<rparr>"

definition ex_ballot :: RequestVoteArgs where
  "ex_ballot = \<lparr>rv_Term = 1, rv_CandidateId = 0, rv_LastLogIndex = 0, rv_LastLogTerm = 0\<rparr>"

definition ex_campaign :: "('c, 'b) Cluster" where
  "ex_campaign = put 0 (campaign (nodes ex_boot 0))
     (mset (map (\<lambda>p. VoteReq 0 p ex_ballot) (others 3 0))) ex_boot"

definition ex_vote :: "('c, 'b) Cluster" where
  "ex_vote = put 1 (voted ex_ballot (nodes ex_boot 1)) (net ex_campaign - {#VoteReq 0 1 ex_ballot#}
     + {#VoteRep 0 1 ex_ballot \<lparr>rvr_Term = 1, rvr_VoteGranted = True\<rparr>#}) ex_campaign"

definition ex_elected :: "('c, 'b) Cluster" where
  "ex_elected = put 0 (elected 1 (campaign (nodes ex_boot 0)))
     (net ex_vote - {#VoteRep 0 1 ex_ballot \<lparr>rvr_Term = 1, rvr_VoteGranted = True\<rparr>#}) ex_vote"

lemma ex_boot_simps:
  "log_ok (logs (nodes ex_boot i))" "\<not> dead (nodes ex_boot i)" "npeers (nodes ex_boot i) = 3"
  "me (nodes ex_boot i) = i" "currentTerm (nodes ex_boot i) = 0" "voteFor (nodes ex_boot i) = -1"
  "logs (nodes ex_boot i) = generateSingleLog 0 0"
  by (simp_all add: ex_boot_def boot_def)

lemma ex_elected_steps:
  "pstep 3 ex_boot ex_campaign" "pstep 3 ex_campaign ex_vote" "pstep 3 ex_vote ex_elected"
proof -
  have bl: "ballot (nodes ex_boot 0) = ex_ballot"
    by (simp add: ballot_def ex_ballot_def ex_boot_simps lastIdx_def generateSingleLog_def)
  have tk: "ticker_election (nodes ex_boot 0)
      = Some (map (\<lambda>p. (p, ex_ballot)) (others 3 0), campaign (nodes ex_boot 0))"
    by (simp add: ticker_election_ok ex_boot_simps bl)
  have c: "ex_campaign = put 0 (campaign (nodes ex_boot 0))
      (net ex_boot + mset (map (\<lambda>(p, a). VoteReq 0 p a) (map (\<lambda>p. (p, ex_ballot)) (others 3 0)))) ex_boot"
    by (simp add: ex_campaign_def ex_boot_def comp_def)
  show "pstep 3 ex_boot ex_campaign" unfolding c by (rule pstep.timeout [OF _ tk]) simp
  have n1: "nodes ex_campaign 1 = nodes ex_boot 1" by (simp add: ex_campaign_def)
  have rv: "RequestVote ex_ballot (nodes ex_campaign 1)
      = Some (\<lparr>rvr_Term = 1, rvr_VoteGranted = True\<rparr>, voted ex_ballot (nodes ex_boot 1))"
    unfolding n1
    by (simp add: RequestVote_ok refuses_def upToDate_def ex_ballot_def lastIdx_def ex_boot_simps log_ok_def generateSingleLog_def)
  have "VoteReq 0 1 ex_ballot \<in># net ex_campaign" by (simp add: ex_campaign_def)
  from pstep.request_vote [OF this rv] show "pstep 3 ex_campaign ex_vote" by (simp add: ex_vote_def)
  have n0: "nodes ex_vote 0 = campaign (nodes ex_boot 0)" by (simp add: ex_vote_def ex_campaign_def)
  have ar: "arrays_ok (campaign (nodes ex_boot 0))"
    by (simp add: campaign_def raised_def arrays_ok_def) (simp add: ex_boot_def boot_def)
  have h: "handleVoteReply ex_ballot \<lparr>rvr_Term = 1, rvr_VoteGranted = True\<rparr> (nodes ex_vote 0)
      = Some (elected 1 (campaign (nodes ex_boot 0)))"
    unfolding n0 by (simp add: handleVoteReply_ok ex_ballot_def votes_def ex_boot_simps ar)
  have "VoteRep 0 1 ex_ballot \<lparr>rvr_Term = 1, rvr_VoteGranted = True\<rparr> \<in># net ex_vote"
    by (simp add: ex_vote_def)
  from pstep.vote_reply [OF this h] show "pstep 3 ex_vote ex_elected" by (simp add: ex_elected_def)
qed

lemma ex_elected_reach: "creach 3 (ex_elected :: ('c, 'b) Cluster)"
proof -
  have "creach 3 ex_boot" by (rule creach.init) (simp add: cinit_def ex_boot_def Make_fresh)
  from creach.step [OF creach.step [OF creach.step [OF this]]] show ?thesis
    using ex_elected_steps pstep_cstep by blast
qed

lemmas ex_elected_nat = ex_elected_reach [where ?'c = nat and ?'b = nat]

theorem election_safety_witness:
  "creach 3 (ex_elected :: (nat, nat) Cluster) \<and> state (nodes (ex_elected :: (nat, nat) Cluster) 0) = Leader \<and> currentTerm (nodes (ex_elected :: (nat, nat) Cluster) 0) = 1
   \<and> \<not> (state (nodes (ex_elected :: (nat, nat) Cluster) 1) = Leader \<and> currentTerm (nodes (ex_elected :: (nat, nat) Cluster) 1) = 1)"
proof -
  have l: "state (nodes (ex_elected :: (nat, nat) Cluster) 0) = Leader" "currentTerm (nodes (ex_elected :: (nat, nat) Cluster) 0) = 1"
    by (simp_all add: ex_elected_def ex_boot_simps)
  then show ?thesis using election_safety [OF ex_elected_nat, of 0 1] ex_elected_nat by auto
qed

section \<open>No panics\<close>

definition handler_ok :: "('c, 'b) Cluster \<Rightarrow> ('c, 'b) packet \<Rightarrow> bool" where
  "handler_ok s m = (case m of
     VoteReq i p a \<Rightarrow> RequestVote a (nodes s p) \<noteq> None
   | VoteRep i p a r \<Rightarrow> handleVoteReply a r (nodes s i) \<noteq> None
   | AppReq i p a \<Rightarrow> AppendEntry a (nodes s p) \<noteq> None
   | AppRep i p a r \<Rightarrow> handleAppendEntryReply p a r (nodes s i) \<noteq> None
   | SnapReq i p b \<Rightarrow> InstallSnapShot b (nodes s p) \<noteq> None
   | SnapRep i p b q \<Rightarrow> handleInstallSnapShotReply p b q (nodes s i) \<noteq> None)"

lemma cinv_handler_ok:
  assumes inv: "cinv n H C s" and m: "m \<in># net s"
  shows "handler_ok s m"
proof -
  note P = cinvD(4) [OF inv m] and ok = peer_okD [OF cinvD(1) [OF inv]]
  show ?thesis
  proof (cases m)
    case (VoteReq i p a)
    then show ?thesis using P ok(5) by (simp add: handler_ok_def RequestVote_ok)
  next
    case (VoteRep i p a r)
    then show ?thesis using P ok(5,6) by (simp add: handler_ok_def handleVoteReply_ok)
  next
    case (AppReq i p a)
    then show ?thesis using P AppendEntry_node_ok [OF ok(1)] by (fastforce simp: handler_ok_def)
  next
    case (AppRep i p a r)
    then have pk: "i < n" "p < n" "lead_ok (nodes s i) a" using P by auto
    then have "ae_PrevLogIndex a \<le> lastIdx (logs (nodes s i))" if "isValidLeader (ae_Term a) (nodes s i)"
      using that by (auto simp: lead_ok_def isValidLeader_def)
    then show ?thesis
      using handleAppendEntryReply_node_ok [OF ok(1) [OF pk(1)], of p a r] ok(3) [OF pk(1)] pk(2) AppRep
      by (auto simp: handler_ok_def)
  next
    case (SnapReq i p b)
    then show ?thesis using P ok(1) by (simp add: handler_ok_def InstallSnapShot_ok node_ok_def raft_wf_def)
  next
    case (SnapRep i p b q)
    then have pk: "i < n" "p < n" using P by auto
    then show ?thesis
      using handleInstallSnapShotReply_node_ok [OF ok(1) [OF pk(1)], of p b q] ok(3) [OF pk(1)] SnapRep
      by (auto simp: handler_ok_def)
  qed
qed

text \<open>
  C5: no panics.  In every reachable state of the cluster no method of a peer panics: no handler
  of a packet in flight, no timer, no client call, no iteration of the applier or of a
  replicator indexes a slice out of range, and a restart from disk always succeeds.
\<close>

theorem cluster_never_panics:
  assumes "creach n s" and "i < n"
  shows "(\<forall>m. m \<in># net s \<longrightarrow> handler_ok s m)
    \<and> ticker_election (nodes s i) \<noteq> None \<and> applier (nodes s i) \<noteq> None
    \<and> (\<forall>c. Start c (nodes s i) \<noteq> None) \<and> (\<forall>k d. Snapshot k d (nodes s i) \<noteq> None)
    \<and> (\<forall>p < n. doSendAppendEntry p (nodes s i) \<noteq> None \<and> replicator p (nodes s i) \<noteq> None)
    \<and> Make n i (Copy (persister (nodes s i))) \<noteq> None"
proof -
  obtain H C where inv: "cinv n H C s" using creach_cinv [OF assms(1)] by blast
  note d = peer_okD [OF cinvD(1) [OF inv assms(2)]]
  have la: "firstIdx (logs (nodes s i)) \<le> lastApplied (nodes s i)" using d(1) by (simp add: node_ok_def)
  have r: "replicator p (nodes s i) \<noteq> None" if "p < n" for p
    using doSend_total(1) [OF d(4), of p] that d(3,6)
    by (auto simp: replicator_def shouleReplicateLog_def getLatestLog_ok [OF d(5)] go_simps arrays_ok_def)
  show ?thesis
    using cinv_handler_ok [OF inv] doSend_total(1) [OF d(4)] d(3) r Make_revived [of "disk s i" n i]
      node_ok_plogs [OF d(1)] d(5)
    by (simp add: ticker_election_ok applier_ok [OF d(5) la] Start_ok [OF d(4)] Snapshot_ok [OF d(4)])
qed

theorem cluster_never_panics_witness:
  "creach 3 (ex_elected :: (nat, nat) Cluster) \<and> Start 7 (nodes (ex_elected :: (nat, nat) Cluster) 0) \<noteq> None \<and> ticker_election (nodes (ex_elected :: (nat, nat) Cluster) 1) \<noteq> None"
  using cluster_never_panics [OF ex_elected_nat, of 0] cluster_never_panics [OF ex_elected_nat, of 1]
    ex_elected_nat by simp

end
