(* ===== verification/RaftProps.thy ===== *)
theory RaftProps
  imports RaftCluster
begin

text \<open>
  Properties of a Raft peer over its own lifetime: votes and logs across crashes, snapshots,
  clients, the stream of applied commands and the timers.
\<close>

section \<open>Crash and restart\<close>

text \<open>
  C7: crash safety of the log and the vote.  A peer rebuilt by \<open>Make\<close> from the disk of a peer in
  any reachable state has exactly that peer's log and snapshot point, starts as a follower at
  the snapshot point, and its term is the last persisted one, never above the lost one; if it is
  the lost one then the vote is the same too.
\<close>

theorem restart_roundtrip:
  assumes "creach n s" and "i < n"
  shows "\<exists>rf'. Make n i (Copy (persister (nodes s i))) = Some rf' \<and> node_ok rf'
    \<and> logs rf' = logs (nodes s i) \<and> lastIncludedIndex rf' = lastIncludedIndex (nodes s i)
    \<and> lastIncludedTerm rf' = lastIncludedTerm (nodes s i)
    \<and> state rf' = Follower \<and> commitIndex rf' = firstIdx (logs rf') \<and> lastApplied rf' = firstIdx (logs rf')
    \<and> currentTerm rf' \<le> currentTerm (nodes s i)
    \<and> (currentTerm rf' = currentTerm (nodes s i) \<longrightarrow> voteFor rf' = voteFor (nodes s i))"
proof -
  let ?rf = "nodes s i" and ?r = "revived n i (persister (nodes s i))"
  obtain H C where "cinv n H C s" using creach_cinv [OF assms(1)] by blast
  note d = peer_okD [OF cinvD(1) [OF this assms(2)]]
  obtain t v where s: "saved (persister ?rf) = (t, v, logs ?rf, lastIncludedIndex ?rf, lastIncludedTerm ?rf)"
    using d(1) by (cases "saved (persister ?rf)") (auto simp: node_ok_def)
  have "t \<le> currentTerm ?rf" "t = currentTerm ?rf \<longrightarrow> v = voteFor ?rf"
    using d(1) s by (auto simp: node_ok_def pterm_def pvote_def)
  moreover have "Make n i (Copy (persister ?rf)) = Some ?r"
    using node_ok_plogs [OF d(1)] d(5) by (simp add: Make_revived)
  ultimately show ?thesis
    using revived_node_ok [OF d(1) assms(2)] s by (intro exI [of _ ?r]) (simp add: revived_def boot_def)
qed

theorem restart_roundtrip_witness:
  "\<exists>rf'. Make 3 0 (Copy (persister (nodes (ex_elected :: (nat, nat) Cluster) 0))) = Some rf'
     \<and> state rf' = Follower \<and> logs rf' = logs (nodes (ex_elected :: (nat, nat) Cluster) 0)"
  using restart_roundtrip [OF ex_elected_nat, of 0] by auto


definition ex_rival :: RequestVoteArgs where
  "ex_rival = ex_ballot\<lparr>rv_CandidateId := 2\<rparr>"


text \<open>
  C35: a term that is not persisted.  \<open>InstallSnapShot\<close> with a newer term and a snapshot that is
  not newer than what has been applied answers after raising \<open>currentTerm\<close> in memory only: a peer
  restarted from its disk is back in an older term.
\<close>

theorem InstallSnapShot_forgets_term:
  assumes "node_ok rf" and "i < n" and "currentTerm rf < is_Term args"
    and "is_LastIncludedIndex args \<le> lastApplied rf"
  shows "\<exists>reply rf' rf''. InstallSnapShot args rf = Some (reply, rf') \<and> currentTerm rf' = is_Term args
    \<and> Make n i (Copy (persister rf')) = Some rf'' \<and> currentTerm rf'' < is_Term args"
proof -
  let ?r = "revived n i (persister rf)"
  have lo: "log_ok (logs rf)" "firstIdx (logs rf) \<le> lastApplied rf"
    using assms(1) by (auto simp: node_ok_def raft_wf_def)
  have "Make n i (Copy (persister rf)) = Some ?r"
    using node_ok_plogs [OF assms(1)] lo(1) by (simp add: Make_revived)
  moreover have "currentTerm ?r = pterm (persister rf)"
    by (simp add: revived_def pterm_def split: prod.splits)
  ultimately show ?thesis
    using assms(3,4) node_ok_pterm [OF assms(1)] by (simp add: InstallSnapShot_ok [OF lo])
qed

definition ex_snapshot :: "nat InstallSnapShotArgs" where
  "ex_snapshot = \<lparr>is_Term = 4, is_LeaderId = 2, is_LastIncludedIndex = 0, is_LastIncludedTerm = 0,
     is_Data = []\<rparr>"

theorem InstallSnapShot_forgets_term_witness:
  "\<exists>reply rf' rf''. InstallSnapShot ex_snapshot (nodes (ex_boot :: (nat, nat) Cluster) 1) = Some (reply, rf')
     \<and> currentTerm rf' = 4 \<and> Make 3 1 (Copy (persister rf')) = Some rf'' \<and> currentTerm rf'' < 4"
proof -
  have "node_ok (nodes (ex_boot :: (nat, nat) Cluster) 1)" by (simp add: ex_boot_def boot_node_ok)
  moreover have "lastApplied (nodes (ex_boot :: (nat, nat) Cluster) 1) = 0" by (simp add: ex_boot_def boot_def)
  ultimately show ?thesis
    using InstallSnapShot_forgets_term [of "nodes (ex_boot :: (nat, nat) Cluster) 1" 1 3 ex_snapshot]
    by (simp add: ex_snapshot_def ex_boot_simps)
qed

section \<open>Snapshots\<close>

lemma entryAt_suffix:
  assumes "log_ok ls" and "firstIdx ls \<le> i" and "i < j" and "j \<le> lastIdx ls"
  shows "entryAt (generateSingleLog i t @ drop (nat (i - firstIdx ls + 1)) ls) j = entryAt ls j"
proof -
  have f: "firstIdx (generateSingleLog i t @ drop (nat (i - firstIdx ls + 1)) ls) = i"
    by (simp add: firstIdx_def)
  have len: "nat (j - firstIdx ls) < length ls" using assms log_ok_bound [OF assms(1), of j] by auto
  have "nat (i - firstIdx ls + 1) + (nat (j - i) - 1) = nat (j - firstIdx ls)" using assms by auto
  then show ?thesis
    using assms(3) len unfolding entryAt_def f by (simp add: generateSingleLog_def nth_Cons')
qed

text \<open>
  \<open>Snapshot\<close> compacts the log and nothing else.  For an applied index inside the log it keeps
  every entry after that index, makes that index with its term the first one, stores the
  snapshot on disk with the compacted log, and leaves term, vote, commit and apply index alone.
\<close>

theorem Snapshot_compacts:
  assumes "node_ok rf" and "\<not> dead rf" and "firstIdx (logs rf) < k" and "k \<le> lastIdx (logs rf)"
    and "k \<le> lastApplied rf"
  shows "\<exists>rf'. Snapshot k (Some d) rf = Some rf' \<and> node_ok rf' \<and> firstIdx (logs rf') = k
    \<and> le_Term (hd (logs rf')) = termAt (logs rf) k \<and> lastIdx (logs rf') = lastIdx (logs rf)
    \<and> (\<forall>j. k < j \<and> j \<le> lastIdx (logs rf) \<longrightarrow> entryAt (logs rf') j = entryAt (logs rf) j)
    \<and> ReadSnapshot (persister rf') = d \<and> plogs (persister rf') = logs rf'
    \<and> currentTerm rf' = currentTerm rf \<and> voteFor rf' = voteFor rf
    \<and> commitIndex rf' = commitIndex rf \<and> lastApplied rf' = lastApplied rf"
proof -
  have wf: "raft_wf rf" by (rule node_ok_wf [OF assms(1)])
  have lo: "log_ok (logs rf)" "terms_ok (logs rf)" using wf by (auto simp: raft_wf_def)
  let ?r = "persist (Some d) (rf\<lparr>lastIncludedIndex := k, lastIncludedTerm := termAt (logs rf) k,
              logs := compacted k (logs rf)\<rparr>)"
  have S: "Snapshot k (Some d) rf = Some ?r" using assms by (simp add: Snapshot_ok [OF wf])
  have n: "node_ok ?r" by (rule Snapshot_node_ok [OF assms(1,5) S])
  have k: "firstIdx (logs rf) \<le> k" using assms(3) by simp
  have "entryAt (compacted k (logs rf)) j = entryAt (logs rf) j" if "k < j" "j \<le> lastIdx (logs rf)" for j
    unfolding compacted_def by (rule entryAt_suffix [OF lo(1) k that])
  moreover have "ReadSnapshot (persister ?r) = d" by (simp add: persist_def Let_def)
  ultimately show ?thesis
    using S n compacted_ok [OF lo k assms(4)] lastIdx_compacted [OF lo(1) k assms(4)] by simp
qed

lemma ex_applied_ok:
  "node_ok (persistState (ex_follower\<lparr>lastApplied := 2, commitIndex := 2\<rparr>))"
  by (rule node_ok_persistState)
     (use ex_follower_wf in \<open>simp_all add: raft_wf_def arrays_ok_def\<close>)

theorem Snapshot_compacts_witness:
  "\<exists>rf'. Snapshot 2 (Some [5]) (persistState (ex_follower\<lparr>lastApplied := 2, commitIndex := 2\<rparr>)) = Some rf'
     \<and> firstIdx (logs rf') = 2 \<and> lastIdx (logs rf') = 3 \<and> ReadSnapshot (persister rf') = [5]"
proof -
  have "\<not> dead ex_follower" by (simp add: ex_follower_def boot_def)
  then show ?thesis
    using Snapshot_compacts [OF ex_applied_ok, of 2 "[5]"] ex_leader_simps(1,2) by auto
qed

text \<open>
  \<open>InstallSnapShot\<close> with a snapshot newer than what has been applied replaces the prefix.
  The log then starts at the snapshot's last index and term; entries after it are kept exactly
  when the follower's own entry at that index has the snapshot's term, and dropped otherwise;
  the snapshot is on disk and handed to the applier before anything else.
\<close>

theorem InstallSnapShot_installs:
  assumes "node_ok rf" and "snap_wf args" and "currentTerm rf \<le> is_Term args"
    and "lastApplied rf < is_LastIncludedIndex args"
  shows "\<exists>reply rf' msg. InstallSnapShot args rf = Some (reply, rf') \<and> node_ok rf'
    \<and> currentTerm rf' = is_Term args \<and> state rf' = Follower
    \<and> firstIdx (logs rf') = is_LastIncludedIndex args
    \<and> le_Term (hd (logs rf')) = is_LastIncludedTerm args
    \<and> (if is_LastIncludedIndex args < lastIdx (logs rf)
          \<and> termAt (logs rf) (is_LastIncludedIndex args) = is_LastIncludedTerm args
       then \<forall>j. is_LastIncludedIndex args < j \<and> j \<le> lastIdx (logs rf) \<longrightarrow>
              entryAt (logs rf') j = entryAt (logs rf) j
       else lastIdx (logs rf') = is_LastIncludedIndex args)
    \<and> lastApplied rf' = is_LastIncludedIndex args
    \<and> commitIndex rf' = max (is_LastIncludedIndex args) (commitIndex rf)
    \<and> (is_Data args \<noteq> [] \<longrightarrow> ReadSnapshot (persister rf') = is_Data args)
    \<and> pendingSnapshot rf' = Some msg \<and> am_SnapshotValid msg \<and> am_Snapshot msg = is_Data args
    \<and> am_SnapshotIndex msg = is_LastIncludedIndex args"
proof -
  have lo: "log_ok (logs rf)" "firstIdx (logs rf) \<le> lastApplied rf"
    using assms(1) by (auto simp: node_ok_def raft_wf_def)
  let ?LI = "is_LastIncludedIndex args" and ?r = "installed args rf"
  have f: "firstIdx (logs rf) \<le> ?LI" using lo(2) assms(4) by simp
  have L: "logs ?r = newLog args (logs rf)" by (simp add: installed_def Let_def)
  have "entryAt (newLog args (logs rf)) j = entryAt (logs rf) j"
    if "?LI < lastIdx (logs rf) \<and> termAt (logs rf) ?LI = is_LastIncludedTerm args"
      "?LI < j" "j \<le> lastIdx (logs rf)" for j
    using entryAt_suffix [OF lo(1) f that(2,3)] that(1) by (simp add: newLog_def Let_def)
  moreover have "lastIdx (newLog args (logs rf)) = ?LI"
    if "\<not> (?LI < lastIdx (logs rf) \<and> termAt (logs rf) ?LI = is_LastIncludedTerm args)"
    using that by (auto simp: newLog_def Let_def)
  moreover have "is_Data args \<noteq> [] \<longrightarrow> ReadSnapshot (persister ?r) = is_Data args"
    by (simp add: installed_def Let_def persist_def gob_slice_def)
  moreover have "InstallSnapShot args rf = Some (\<lparr>isr_Term = currentTerm rf\<rparr>, ?r)"
    using assms(3,4) by (simp add: InstallSnapShot_ok [OF lo])
  moreover have "currentTerm ?r = is_Term args" "lastApplied ?r = ?LI"
    "commitIndex ?r = max ?LI (commitIndex rf)"
    using assms(3) by (simp_all add: installed_def Let_def)
  moreover have "\<exists>msg. pendingSnapshot ?r = Some msg \<and> am_SnapshotValid msg
      \<and> am_Snapshot msg = is_Data args \<and> am_SnapshotIndex msg = ?LI"
    by (simp add: installed_def Let_def)
  ultimately show ?thesis
    using installed_node_ok [OF assms(1,2,4)] L by (auto simp del: split_paired_Ex)
qed

theorem InstallSnapShot_installs_witness:
  "\<exists>reply rf'. InstallSnapShot \<lparr>is_Term = 3, is_LeaderId = 0, is_LastIncludedIndex = 3,
       is_LastIncludedTerm = 2, is_Data = [9]\<rparr>
       (persistState (ex_follower\<lparr>lastApplied := 2, commitIndex := 2\<rparr>)) = Some (reply, rf')
     \<and> firstIdx (logs rf') = 3 \<and> ReadSnapshot (persister rf') = [9]"
  using InstallSnapShot_installs [OF ex_applied_ok, of "\<lparr>is_Term = 3, is_LeaderId = 0,
      is_LastIncludedIndex = 3, is_LastIncludedTerm = 2, is_Data = [9]\<rparr>"] ex_leader_simps(7)
  by (auto simp: snap_wf_def)

section \<open>Clients\<close>

text \<open>
  \<open>Start\<close>.  Only a leader accepts a command; it then appends the command at the returned
  index, one past its last entry, with the returned current term, persists it before returning,
  counts itself as a holder of it, and wakes the replicator of every other peer.
\<close>

theorem Start_appends:
  assumes "node_ok rf"
  shows "\<exists>index term isLeader rf'. Start c rf = Some ((index, term, isLeader), rf') \<and> node_ok rf'
    \<and> isLeader = (state rf = Leader)
    \<and> (if isLeader then index = lastIdx (logs rf) + 1 \<and> term = currentTerm rf
         \<and> logs rf' = logs rf @ [\<lparr>le_Command = Some c, le_Term = term, le_Index = index\<rparr>]
         \<and> plogs (persister rf') = logs rf' \<and> matchIndex rf' ! me rf = index
         \<and> effects rf' = effects rf @ map SignalReplicate (others (npeers rf) (me rf))
       else rf' = rf)"
proof -
  have wf: "raft_wf rf" by (rule node_ok_wf [OF assms])
  have "me rf < length (matchIndex rf)" using wf by (simp add: raft_wf_def arrays_ok_def)
  moreover have "plogs (persister (started c rf)) = logs (started c rf)"
    by (rule node_ok_plogs [OF started_node_ok [OF assms]])
  ultimately show ?thesis
    using assms started_node_ok [OF assms, of c]
    by (simp add: Start_ok [OF wf]) (simp add: started_def Let_def BroadcastAppendEntryMsg_def
        emit_def others_def)
qed

theorem Start_appends_witness:
  "\<exists>rf'. Start 7 (nodes (ex_elected :: (nat, nat) Cluster) 0) = Some ((1, 1, True), rf')"
proof -
  have n: "node_ok (nodes (ex_elected :: (nat, nat) Cluster) 0)"
    using creach_cinv [OF ex_elected_nat] cinvD(1) peer_okD(1) by fastforce
  have "state (nodes (ex_elected :: (nat, nat) Cluster) 0) = Leader" "currentTerm (nodes (ex_elected :: (nat, nat) Cluster) 0) = 1"
    "lastIdx (logs (nodes (ex_elected :: (nat, nat) Cluster) 0)) = 0"
    by (simp_all add: ex_elected_def ex_boot_simps)
  then show ?thesis using Start_appends [OF n, of 7] by auto
qed

section \<open>The stream of applied commands\<close>

text \<open>Iterations of the applier's loop, until it waits or returns or the fuel is used up.\<close>

primrec applier_loop :: "nat \<Rightarrow> ('c, 'b) Raft \<Rightarrow> ('c, 'b) Raft option" where
  "applier_loop 0 rf = Some rf"
| "applier_loop (Suc k) rf = do {
     r \<leftarrow> applier rf;
     case r of ApplierContinues rf' \<Rightarrow> applier_loop k rf' | _ \<Rightarrow> Some rf
   }"

lemma applier_loop_commands:
  assumes "log_ok (logs rf)" and "firstIdx (logs rf) \<le> lastApplied rf" and "\<not> dead rf"
    and "pendingSnapshot rf = None" and "lastApplied rf + int k \<le> commitIndex rf"
    and "commitIndex rf \<le> lastIdx (logs rf)"
  shows "applier_loop k rf = Some (rf\<lparr>lastApplied := lastApplied rf + int k,
    applyCh := applyCh rf @ map (\<lambda>j. command_msg (entryAt (logs rf) j))
                 [lastApplied rf + 1..lastApplied rf + int k]\<rparr>)"
  using assms
proof (induction k arbitrary: rf)
  case 0
  then show ?case by simp
next
  case (Suc k)
  let ?r = "rf\<lparr>lastApplied := lastApplied rf + 1,
    applyCh := applyCh rf @ [command_msg (entryAt (logs rf) (lastApplied rf + 1))]\<rparr>"
  have a: "applier rf = Some (ApplierContinues ?r)"
    using Suc.prems by (simp add: applier_ok)
  have "[lastApplied rf + 1..lastApplied rf + int (Suc k)]
      = (lastApplied rf + 1) # [lastApplied rf + 1 + 1..lastApplied rf + int (Suc k)]"
    by (intro upto_rec1) simp
  then show ?case using Suc.IH [of ?r] Suc.prems a by (simp add: algebra_simps)
qed

text \<open>
  The apply channel.  From a state with a pending snapshot or committed entries that are
  not yet applied, the applier sends the snapshot first and then exactly the committed commands
  in index order, without gaps or repetitions, and then waits.
\<close>

theorem applier_delivers_in_order:
  assumes "node_ok rf" and "\<not> dead rf" and "lastApplied rf \<le> commitIndex rf"
    and "commitIndex rf \<le> lastIdx (logs rf)"
    and "fuel = nat (commitIndex rf - lastApplied rf) + (if pendingSnapshot rf = None then 0 else 1)"
  shows "\<exists>rf'. applier_loop fuel rf = Some rf' \<and> applier rf' = Some ApplierWaits
    \<and> lastApplied rf' = commitIndex rf
    \<and> applyCh rf' = applyCh rf @ (case pendingSnapshot rf of None \<Rightarrow> [] | Some msg \<Rightarrow> [msg])
        @ map (\<lambda>j. command_msg (entryAt (logs rf) j)) [lastApplied rf + 1..commitIndex rf]"
proof -
  have lo: "log_ok (logs rf)" "firstIdx (logs rf) \<le> lastApplied rf"
    using assms(1) by (auto simp: node_ok_def raft_wf_def)
  let ?k = "nat (commitIndex rf - lastApplied rf)"
  let ?r = "rf\<lparr>pendingSnapshot := None, applyCh := applyCh rf
      @ (case pendingSnapshot rf of None \<Rightarrow> [] | Some msg \<Rightarrow> [msg])\<rparr>"
  have "applier_loop fuel rf = applier_loop ?k ?r"
  proof (cases "pendingSnapshot rf")
    case None
    then have r: "?r = rf" by (cases rf) simp
    show ?thesis unfolding r using None assms(5) by simp
  next
    case (Some msg)
    then show ?thesis using assms(2,5) by (simp add: applier_ok [OF lo])
  qed
  moreover have "applier_loop ?k ?r = Some (?r\<lparr>lastApplied := commitIndex rf,
      applyCh := applyCh ?r @ map (\<lambda>j. command_msg (entryAt (logs rf) j))
                 [lastApplied rf + 1..commitIndex rf]\<rparr>)"
    using applier_loop_commands [of ?r ?k] lo assms by simp
  ultimately show ?thesis using lo assms(2,3) by (simp add: applier_ok)
qed

theorem applier_delivers_in_order_witness:
  "\<exists>rf'. applier_loop 2 (persistState (ex_follower\<lparr>commitIndex := 2\<rparr>)) = Some rf'
     \<and> applyCh rf' = [command_msg (ex_entry 1 1), command_msg (ex_entry 1 2)]"
proof -
  let ?r = "persistState (ex_follower\<lparr>commitIndex := 2\<rparr>)"
  have n: "node_ok ?r"
    by (rule node_ok_persistState) (use ex_follower_wf in
        \<open>simp_all add: raft_wf_def arrays_ok_def ex_follower_def boot_def\<close>)
  have v: "\<not> dead ex_follower" "lastApplied ex_follower = 0" "pendingSnapshot ex_follower = None"
    "applyCh ex_follower = []"
    "entryAt (logs ex_leader) 1 = ex_entry 1 1" "entryAt (logs ex_leader) 2 = ex_entry 1 2"
    by (simp_all add: entryAt_def firstIdx_def ex_leader_def ex_follower_def boot_def generateSingleLog_def)
  have "[1..2] = [1, 2 :: int]" by (simp add: upto.simps)
  then show ?thesis
    using applier_delivers_in_order [OF n _ _ _ refl] v ex_leader_simps(2) by auto
qed

section \<open>Timers\<close>

definition timers_ok :: "('c, 'b) Raft \<Rightarrow> bool" where
  "timers_ok rf \<longleftrightarrow> (state rf \<noteq> Leader \<longrightarrow> electionTimer rf) \<and> (state rf = Leader \<longrightarrow> heartbeatTimer rf)"

lemma timers_stepDown: "timers_ok rf \<Longrightarrow> timers_ok (stepDown t rf)"
  by (auto simp: timers_ok_def stepDown_def toFollower_def)

lemma timers_follower: "state rf = Follower \<Longrightarrow> electionTimer rf \<Longrightarrow> timers_ok rf"
  by (simp add: timers_ok_def)

lemma timers_same:
  "timers_ok rf \<Longrightarrow> state rf' = state rf \<Longrightarrow> electionTimer rf' = electionTimer rf \<Longrightarrow>
     heartbeatTimer rf' = heartbeatTimer rf \<Longrightarrow> timers_ok rf'"
  by (simp add: timers_ok_def)

lemma timers_handleVoteReply:
  assumes "log_ok (logs rf)" and "arrays_ok rf" and "timers_ok rf" and "handleVoteReply a r rf = Some rf'"
  shows "timers_ok rf'"
proof -
  have "timers_ok (elected t rf)" if "state rf = Candidate" for t
    using that by (simp add: timers_ok_def elected_def toLeader_def)
  moreover have "timers_ok (counted t rf)" for t using assms(3) by (simp add: timers_ok_def counted_def)
  ultimately show ?thesis
    using assms(3,4) timers_stepDown by (auto simp: handleVoteReply_ok [OF assms(1,2)] split: if_splits)
qed

lemma timers_replies:
  assumes wf: "raft_wf rf" and p: "p < npeers rf" and t: "timers_ok rf"
  shows "isValidLeader (ae_Term a) rf \<longrightarrow> ae_PrevLogIndex a \<le> lastIdx (logs rf) \<Longrightarrow>
      handleAppendEntryReply p a r rf = Some rf' \<Longrightarrow> timers_ok rf'"
    and "handleInstallSnapShotReply p b q rf = Some rf' \<Longrightarrow> timers_ok rf'"
proof -
  note lo = raft_wf_log [OF wf] raft_wf_arrays [OF wf]
  show "timers_ok rf'" if "isValidLeader (ae_Term a) rf \<longrightarrow> ae_PrevLogIndex a \<le> lastIdx (logs rf)"
    "handleAppendEntryReply p a r rf = Some rf'"
  proof (cases "isValidLeader (ae_Term a) rf")
    case True
    have "timers_ok (acceptCommit (rf\<lparr>matchIndex := m, nextIndex := k\<rparr>))" for m k
      by (rule timers_same [OF t]) (simp_all add: acceptCommit_def Let_def)
    moreover have "timers_ok (emit [SignalReplicate p] (rf\<lparr>nextIndex := m\<rparr>))" for m
      by (rule timers_same [OF t]) simp_all
    ultimately show ?thesis
      using that True timers_stepDown [OF t] rollBack_result [OF wf p, of a r]
      by (auto simp: handleAppendEntryReply_def updateTermAndStepDown_ok
          acceptNewLogEntries_ok [OF lo p] Let_def split: if_splits)
  next
    case False
    then show ?thesis using that t by (simp add: handleAppendEntryReply_def)
  qed
  show "timers_ok rf'" if "handleInstallSnapShotReply p b q rf = Some rf'"
    using that t timers_stepDown [OF t]
    by (auto simp: handleInstallSnapShotReply_def updateTermAndStepDown_ok
        updateLogIndices_ok [OF lo(2) p] timers_ok_def split: if_splits)
qed

lemma timers_revived: "timers_ok (revived n i d)"
  by (rule timers_follower) (simp_all add: revived_def boot_def split: prod.splits)

lemma timers_put:
  "(\<forall>i < n. timers_ok (nodes s i)) \<Longrightarrow> timers_ok rf \<Longrightarrow> \<forall>i < n. timers_ok (nodes (put j rf M s) i)"
  by simp

lemma timers_step:
  assumes st: "cstep n s s'" and inv: "cinv n H C s" and t: "\<forall>i < n. timers_ok (nodes s i)"
  shows "\<forall>i < n. timers_ok (nodes s' i)"
proof -
  note ok = peer_okD [OF cinvD(1) [OF inv]] and P = cinvD(4) [OF inv]
  have mk: "timers_ok rf" if "Make n i (Copy (persister r)) = Some rf" "node_ok r" for i r rf
    using that Make_revived [of "persister r" n i] node_ok_plogs [OF that(2)] node_ok_log [OF that(2)]
      timers_revived by auto
  from st show ?thesis
  proof cases
    case (timeout i calls rf)
    have "timers_ok (campaign (nodes s i))" by (simp add: timers_ok_def)
    then have "timers_ok rf"
      using timeout t by (auto simp: ticker_election_ok [OF ok(5) [OF timeout(2)]] split: if_splits)
    then show ?thesis using timers_put [OF t] timeout(1) by blast
  next
    case (heartbeat i)
    then have "timers_ok (ticker_heartbeat (nodes s i))"
      using t by (auto simp: timers_ok_def ticker_heartbeat_def Let_def)
    then show ?thesis using timers_put [OF t] heartbeat(1) by blast
  next
    case (request_vote i p a r rf)
    then have p: "p < n" using P by fastforce
    have "timers_ok (voted a (nodes s p))"
      using t p timers_stepDown [of "nodes s p" "rv_Term a"]
      by (auto simp: timers_ok_def voted_def)
    then have "timers_ok rf"
      using request_vote(3) t p timers_stepDown
      by (auto simp: RequestVote_ok [OF ok(5) [OF p]] split: if_splits)
    then show ?thesis using timers_put [OF t] request_vote(1) by blast
  next
    case (vote_reply i p a r rf)
    then have i: "i < n" using P by fastforce
    show ?thesis
      using timers_handleVoteReply [OF ok(5,6) [OF i] _ vote_reply(3)] t i timers_put [OF t] vote_reply(1)
      by blast
  next
    case (send i p q)
    then show ?thesis using t by simp
  next
    case (append_entry i p a r rf)
    then have p: "p < n" "ae_wf a" using P by fastforce+
    have "timers_ok rf"
      using AppendEntry_result [OF ok(4) [OF p(1)] p(2)] append_entry(3) t p(1)
      by (auto intro: timers_follower)
    then show ?thesis using timers_put [OF t] append_entry(1) by blast
  next
    case (append_reply i p a r rf)
    then have p: "i < n" "p < n" "lead_ok (nodes s i) a" using P by fastforce+
    then have "timers_ok rf"
      using timers_replies(1) [OF ok(4) [OF p(1)], of p a r rf] t ok(3) [OF p(1)] append_reply(3)
      by (auto simp: lead_ok_def isValidLeader_def)
    then show ?thesis using timers_put [OF t] append_reply(1) by blast
  next
    case (install_snapshot i p b q rf)
    then have p: "p < n" using P by fastforce
    have lo: "log_ok (logs (nodes s p))" "firstIdx (logs (nodes s p)) \<le> lastApplied (nodes s p)"
      using ok(1) [OF p] by (auto simp: node_ok_def raft_wf_def)
    have "timers_ok (installed b (nodes s p))" "timers_ok (adopt (is_Term b) (nodes s p))"
      by (auto intro!: timers_follower simp: installed_def Let_def)
    then have "timers_ok rf"
      using install_snapshot(3) t p unfolding InstallSnapShot_ok [OF lo] by (auto split: if_splits)
    then show ?thesis using timers_put [OF t] install_snapshot(1) by blast
  next
    case (snapshot_reply i p b q rf)
    then have p: "i < n" "p < n" using P by fastforce+
    then have "timers_ok rf"
      using timers_replies(2) [OF ok(4) [OF p(1)], of p b q rf] t ok(3) [OF p(1)] snapshot_reply(3) by auto
    then show ?thesis using timers_put [OF t] snapshot_reply(1) by blast
  next
    case (start i c res rf)
    have "timers_ok rf"
      using start(3) t start(2) by (auto simp: Start_ok [OF ok(4) [OF start(2)]] started_def Let_def
          timers_ok_def split: if_splits)
    then show ?thesis using timers_put [OF t] start(1) by blast
  next
    case (snapshot i k d rf)
    have "timers_ok rf"
      using snapshot(2,4) t by (auto simp: Snapshot_ok [OF ok(4) [OF snapshot(2)]] timers_ok_def
          split: if_splits)
    then show ?thesis using timers_put [OF t] snapshot(1) by blast
  next
    case (apply_step i rf)
    have lo: "log_ok (logs (nodes s i))" "firstIdx (logs (nodes s i)) \<le> lastApplied (nodes s i)"
      using ok(1) [OF apply_step(2)] by (auto simp: node_ok_def raft_wf_def)
    have "timers_ok rf"
      using apply_step(2,3) t unfolding applier_ok [OF lo]
      by (auto simp: timers_ok_def split: if_splits option.splits)
    then show ?thesis using timers_put [OF t] apply_step(1) by blast
  next
    case (kill i)
    then have "timers_ok (Kill (nodes s i))" using t by (auto simp: timers_ok_def Kill_def)
    then show ?thesis using timers_put [OF t] kill(1) by blast
  next
    case (crash i rf)
    then show ?thesis using mk ok(1) timers_put [OF t] by blast
  next
    case (crash_election i rf)
    then show ?thesis using mk ok(1) raised_node_ok timers_put [OF t] by blast
  next
    case (crash_vote i p a rf)
    then have "p < n" using P by fastforce
    then show ?thesis using crash_vote mk ok(1) stepDown_node_ok timers_put [OF t] by blast
  next
    case (crash_append i p b rf)
    then have "p < n" using P by fastforce
    then show ?thesis using crash_append mk ok(1) stepDown_node_ok timers_put [OF t] by blast
  next
    case (lose m)
    then show ?thesis using t by simp
  qed
qed

lemma timers_reach:
  assumes "creach n s"
  shows "\<forall>i < n. timers_ok (nodes s i)"
  using assms
proof (induction rule: creach.induct)
  case (init s)
  show ?case
  proof (intro allI impI)
    fix i assume "i < n"
    then have "Make n i MakePersister = Some (nodes s i)" using init by (simp add: cinit_def)
    then have "nodes s i = boot n i MakePersister" by (simp add: Make_fresh)
    then show "timers_ok (nodes s i)" by (simp add: timers_ok_def boot_def)
  qed
next
  case (step s s')
  then show ?case using creach_cinv timers_step by blast
qed

text \<open>
  The timers never go silent.  In every reachable state a peer that is not the leader has
  its election timer running, so it will start an election when it hears from no leader, and a
  leader has its heartbeat timer running.
\<close>

theorem timers_always_armed:
  assumes "creach n s" and "i < n"
  shows "(state (nodes s i) \<noteq> Leader \<longrightarrow> electionTimer (nodes s i))
    \<and> (state (nodes s i) = Leader \<longrightarrow> heartbeatTimer (nodes s i))"
  using timers_reach [OF assms(1)] assms(2) by (simp add: timers_ok_def)

theorem timers_always_armed_witness:
  "state (nodes (ex_elected :: (nat, nat) Cluster) 0) = Leader \<and> heartbeatTimer (nodes (ex_elected :: (nat, nat) Cluster) 0)"
proof -
  have "state (nodes (ex_elected :: (nat, nat) Cluster) 0) = Leader" by (simp add: ex_elected_def)
  then show ?thesis using timers_always_armed [OF ex_elected_nat, of 0] by simp
qed

section \<open>A cluster of one\<close>

lemma quiet_leader: "quiet rf rf' \<Longrightarrow> state rf \<noteq> Leader \<Longrightarrow> state rf' \<noteq> Leader"
  by (auto simp: quiet_def)

lemma voted_leader: "state rf \<noteq> Leader \<Longrightarrow> state (stepDown t rf) \<noteq> Leader"
  by (simp add: stepDown_def)

lemma alone_step:
  assumes st: "cstep 1 s s'" and inv: "cinv 1 H C s" and l: "state (nodes s 0) \<noteq> Leader"
  shows "state (nodes s' 0) \<noteq> Leader"
proof -
  note ok = peer_okD [OF cinvD(1) [OF inv, of 0]] and P = cinvD(4) [OF inv]
  have mk: "state rf \<noteq> Leader" if "Make 1 0 (Copy (persister r)) = Some rf" "node_ok r" for r rf
    using that Make_revived [of "persister r" 1 0] node_ok_plogs [OF that(2)] node_ok_log [OF that(2)]
    by auto
  from st show ?thesis
  proof cases
    case (timeout i calls rf)
    then show ?thesis using l ok(5) by (auto simp: ticker_election_ok split: if_splits)
  next
    case (heartbeat i)
    then show ?thesis using quiet_leader [OF heartbeat_quiet l] by simp
  next
    case (request_vote i p a r rf)
    then show ?thesis using P by fastforce
  next
    case (vote_reply i p a r rf)
    then show ?thesis using P by fastforce
  next
    case (append_entry i p a r rf)
    then have "p = 0" "ae_wf a" using P by fastforce+
    then show ?thesis using append_entry AppendEntry_quiet [OF ok(1)] quiet_leader [OF _ l] by auto
  next
    case (append_reply i p a r rf)
    then have "i = 0" using P by fastforce
    then show ?thesis
      using append_reply l voted_leader [OF l] by (auto simp: handleAppendEntryReply_def isValidLeader_def)
  next
    case (install_snapshot i p b q rf)
    then have "p = 0" "snap_wf b" using P by fastforce+
    then show ?thesis using install_snapshot InstallSnapShot_quiet [OF ok(1)] quiet_leader [OF _ l] by auto
  next
    case (snapshot_reply i p b q rf)
    then have "i = 0" using P by fastforce
    then show ?thesis using snapshot_reply l by (auto simp: handleInstallSnapShotReply_def)
  next
    case (start i c res rf)
    then show ?thesis using l by (simp add: Start_def)
  next
    case (snapshot i k d rf)
    then show ?thesis using Snapshot_quiet [OF ok(1,8)] quiet_leader [OF _ l] by auto
  next
    case (apply_step i rf)
    then show ?thesis using applier_node_ok [OF ok(1)] l by auto
  next
    case (kill i)
    then show ?thesis using quiet_leader [OF Kill_quiet l] by simp
  next
    case (crash i rf)
    then show ?thesis using mk ok(1) by auto
  next
    case (crash_election i rf)
    then show ?thesis using mk raised_node_ok [OF ok(1)] by auto
  next
    case (crash_vote i p a rf)
    then show ?thesis using P by fastforce
  next
    case (crash_append i p b rf)
    then have "p = 0" using P by fastforce
    then show ?thesis using crash_append mk stepDown_node_ok [OF ok(1)] by auto
  qed (use l in auto)
qed

text \<open>
  C36: a cluster of one peer never has a leader.  The majority of votes is only checked when a
  reply of another peer arrives, and there is no other peer.
\<close>

theorem single_peer_no_leader:
  assumes "creach 1 s"
  shows "state (nodes s 0) \<noteq> Leader"
  using assms
proof (induction rule: creach.induct)
  case (init s)
  then have "Make 1 0 MakePersister = Some (nodes s 0)" by (simp add: cinit_def)
  then have "nodes s 0 = boot 1 0 MakePersister" by (simp add: Make_fresh)
  then show ?case by (simp add: boot_def)
next
  case (step s s')
  then show ?case using creach_cinv alone_step by blast
qed

theorem single_peer_no_leader_witness:
  "\<exists>s :: (nat, nat) Cluster. creach 1 s \<and> currentTerm (nodes s 0) = 1 \<and> state (nodes s 0) \<noteq> Leader"
proof -
  let ?s0 = "\<lparr>nodes = (\<lambda>i. boot 1 i MakePersister), net = {#}\<rparr> :: (nat, nat) Cluster"
  let ?rf = "boot 1 0 MakePersister :: (nat, nat) Raft"
  let ?s1 = "put 0 (campaign ?rf) {#} ?s0"
  have "others 1 0 = []" by (simp add: others_def)
  then have "ticker_election ?rf = Some ([], campaign ?rf)"
    using ticker_election_ok [of ?rf] by (simp add: boot_def)
  then have "cstep 1 ?s0 ?s1" using cstep.timeout [of 0 1 ?s0 "[]" "campaign ?rf"] by simp
  moreover have "creach 1 ?s0" by (rule creach.init) (simp add: cinit_def Make_fresh)
  ultimately have r: "creach 1 ?s1" by (rule creach.step [rotated])
  moreover have "currentTerm (nodes ?s1 0) = 1" by (simp add: boot_def)
  ultimately show ?thesis using single_peer_no_leader [OF r] by blast
qed

end
