(* ===== verification/RaftLog.thy ===== *)
theory RaftLog
  imports RaftOps "HOL-Library.Sublist"
begin

text \<open>
  Logs without compaction.  A peer keeps only the part of its log after the last snapshot; here
  that part is the \<open>view\<close> of a full log that starts at the entry with index 0.  A full log is
  \<open>good\<close> when every prefix of it that ends with an entry of term \<open>t\<close> is a prefix of the log of
  the leader of term \<open>t\<close>.  On good logs every operation of a peer on its log is a simple one: merging
  a request keeps the log or takes over the sender's, a snapshot changes only the view.
\<close>

section \<open>Full logs and their views\<close>

definition genesis :: "'c LogEntry" where
  "genesis = hd (generateSingleLog 0 0)"

definition view :: "nat \<Rightarrow> 'c LogEntry list \<Rightarrow> 'c LogEntry list" where
  "view f F = generateSingleLog (int f) (le_Term (F ! f)) @ drop (Suc f) F"

definition full_log :: "'c LogEntry list \<Rightarrow> bool" where
  "full_log F \<longleftrightarrow> log_ok F \<and> terms_ok F \<and> hd F = genesis"

lemma genesis_simps [simp]: "le_Index genesis = 0" "le_Term genesis = 0" "le_Command genesis = None"
  by (simp_all add: genesis_def generateSingleLog_def)

lemma full_log_simps:
  assumes "full_log F"
  shows "log_ok F" "terms_ok F" "F \<noteq> []" "0 < length F" "firstIdx F = 0" "F ! 0 = genesis"
    "lastIdx F = int (length F) - 1"
  using assms by (auto simp: full_log_def firstIdx_def hd_conv_nth log_ok_lastIdx)

lemma full_log_index: "full_log F \<Longrightarrow> k < length F \<Longrightarrow> le_Index (F ! k) = int k"
  using log_ok_index [of F k] by (simp add: full_log_simps)

lemma full_log_mono:
  assumes "full_log F" and "i \<le> j" and "j < length F"
  shows "le_Term (F ! i) \<le> le_Term (F ! j)"
  using assms sorted_nth_mono [of "map le_Term F" i j] by (simp add: full_log_def terms_ok_def)

lemma full_log_term: "full_log F \<Longrightarrow> k < length F \<Longrightarrow> 0 \<le> le_Term (F ! k)"
  using full_log_mono [of F 0 k] by (simp add: full_log_simps)

lemma full_log_last: "full_log F \<Longrightarrow> last F = F ! (length F - 1)"
  by (simp add: full_log_simps last_conv_nth)

lemma full_log_take: "full_log F \<Longrightarrow> full_log (take (Suc m) F)"
proof -
  assume F: "full_log F"
  have "sorted (take (Suc m) (map le_Term F))"
    using F by (intro sorted_wrt_take) (simp add: full_log_def terms_ok_def)
  then have "terms_ok (take (Suc m) F)" by (simp add: terms_ok_def take_map)
  moreover have "log_ok (take (Suc m) F)"
    using full_log_index [OF F] full_log_simps(3) [OF F] by (intro log_okI [of _ 0]) simp_all
  moreover have "hd (take (Suc m) F) = genesis" using F by (simp add: full_log_def)
  ultimately show ?thesis by (simp add: full_log_def)
qed

lemma full_log_single: "full_log (generateSingleLog 0 0)"
  by (simp add: full_log_def genesis_def)

lemma full_log_snoc:
  assumes "full_log F" and "le_Index e = int (length F)" and "le_Term (last F) \<le> le_Term e"
  shows "full_log (F @ [e])"
proof -
  have "le_Term x \<le> le_Term e" if "x \<in> set F" for x
  proof -
    obtain k where k: "k < length F" "x = F ! k" using \<open>x \<in> set F\<close> by (auto simp: in_set_conv_nth)
    have "le_Term (F ! k) \<le> le_Term (F ! (length F - 1))"
      by (rule full_log_mono [OF assms(1)]) (use k in linarith)+
    then show ?thesis using k full_log_last [OF assms(1)] assms(3) by simp
  qed
  moreover have "log_ok (F @ [e])"
    using assms by (intro snoc_log_ok) (simp_all add: full_log_simps)
  ultimately show ?thesis
    using assms(1) by (auto simp: full_log_def terms_ok_def sorted_append)
qed

lemma length_view [simp]: "f < length F \<Longrightarrow> length (view f F) = length F - f"
  by (simp add: view_def generateSingleLog_def)

lemma view_nth:
  assumes "0 < k" and "f + k < length F"
  shows "view f F ! k = F ! (f + k)"
  using assms by (cases k) (simp_all add: view_def generateSingleLog_def)

lemma view_0: "le_Term (view f F ! 0) = le_Term (F ! f)" "le_Index (view f F ! 0) = int f"
  by (simp_all add: view_def generateSingleLog_def)

lemma firstIdx_view [simp]: "firstIdx (view f F) = int f"
  by (simp add: view_def generateSingleLog_def firstIdx_def)

lemma view_genesis: "full_log F \<Longrightarrow> view 0 F = F"
  by (cases F) (auto simp: view_def full_log_def genesis_def generateSingleLog_def log_ok_def)

lemma termAt_view:
  assumes "f \<le> k" and "k < length F"
  shows "termAt (view f F) (int k) = le_Term (F ! k)"
proof (cases "k = f")
  case True
  then show ?thesis by (simp add: termAt_def view_0)
next
  case False
  then have "nat (int k - int f) = k - f" "0 < k - f" "f + (k - f) = k" using assms by auto
  then show ?thesis using assms view_nth [of "k - f" f F] by (simp add: termAt_def)
qed

lemma lastIdx_view: "full_log F \<Longrightarrow> f < length F \<Longrightarrow> lastIdx (view f F) = int (length F) - 1"
  using full_log_index [of F "length F - 1"]
  by (cases "Suc f < length F") (auto simp: lastIdx_def view_def generateSingleLog_def full_log_last)

lemma last_view: "F \<noteq> [] \<Longrightarrow> f < length F \<Longrightarrow> le_Term (last (view f F)) = le_Term (last F)"
proof (cases "Suc f < length F")
  case False
  assume "F \<noteq> []" "f < length F"
  then have "f = length F - 1" "drop (Suc f) F = []" using False by auto
  then show ?thesis using \<open>F \<noteq> []\<close> by (simp add: view_def generateSingleLog_def last_conv_nth)
qed (simp add: view_def)

lemma view_view:
  assumes "f \<le> k" and "k < length F"
  shows "compacted (int k) (view f F) = view k F"
proof -
  have "nat (int k - int f + 1) = Suc (k - f)" using assms by auto
  then have "drop (nat (int k - int f + 1)) (view f F) = drop (Suc k) F"
    using assms by (simp add: view_def generateSingleLog_def)
  then show ?thesis using assms by (simp add: compacted_def termAt_view) (simp add: view_def)
qed

lemma view_single: "length F = Suc k \<Longrightarrow> view k F = generateSingleLog (int k) (le_Term (F ! k))"
  by (simp add: view_def)

lemma view_snoc: "f < length F \<Longrightarrow> view f (F @ [e]) = view f F @ [e]"
  by (simp add: view_def nth_append)

section \<open>Logs that come from leaders\<close>

type_synonym 'c leads = "int \<Rightarrow> 'c LogEntry list option"

definition good :: "'c leads \<Rightarrow> 'c LogEntry list \<Rightarrow> bool" where
  "good L F \<longleftrightarrow> full_log F \<and> (\<forall>k. 0 < k \<longrightarrow> k < length F \<longrightarrow>
     (\<exists>G. L (le_Term (F ! k)) = Some G \<and> prefix (take (Suc k) F) G))"

text \<open>The leaders' logs only grow.\<close>

definition grown :: "'c leads \<Rightarrow> 'c leads \<Rightarrow> bool" where
  "grown L L' \<longleftrightarrow> (\<forall>t G. L t = Some G \<longrightarrow> (\<exists>G'. L' t = Some G' \<and> prefix G G'))"

lemma grown_refl [simp]: "grown L L"
  by (auto simp: grown_def)

lemma grown_trans: "grown L L' \<Longrightarrow> grown L' L'' \<Longrightarrow> grown L L''"
  unfolding grown_def by (blast intro: prefix_order.trans)

lemma grownD: "grown L L' \<Longrightarrow> L t = Some G \<Longrightarrow> \<exists>G'. L' t = Some G' \<and> prefix G G'"
  by (simp add: grown_def)

lemma good_full: "good L F \<Longrightarrow> full_log F"
  by (simp add: good_def)

lemma goodD: "good L F \<Longrightarrow> 0 < k \<Longrightarrow> k < length F \<Longrightarrow>
    \<exists>G. L (le_Term (F ! k)) = Some G \<and> prefix (take (Suc k) F) G"
  by (simp add: good_def)

lemma goodI:
  assumes "full_log F" and "\<And>k. 0 < k \<Longrightarrow> k < length F \<Longrightarrow>
    \<exists>G. L (le_Term (F ! k)) = Some G \<and> prefix (take (Suc k) F) G"
  shows "good L F"
  using assms by (simp add: good_def)

lemma good_grown:
  assumes "good L F" and "grown L L'"
  shows "good L' F"
proof (rule goodI [OF good_full [OF assms(1)]])
  fix k assume "0 < k" "k < length F"
  then obtain G where G: "L (le_Term (F ! k)) = Some G" "prefix (take (Suc k) F) G"
    using goodD [OF assms(1)] by blast
  then show "\<exists>G. L' (le_Term (F ! k)) = Some G \<and> prefix (take (Suc k) F) G"
    using grownD [OF assms(2) G(1)] prefix_order.trans [OF G(2)] by blast
qed

lemma good_take:
  assumes "good L F"
  shows "good L (take (Suc m) F)"
proof (rule goodI [OF full_log_take [OF good_full [OF assms]]])
  fix k assume k: "0 < k" "k < length (take (Suc m) F)"
  then have "take (Suc k) (take (Suc m) F) = take (Suc k) F" "take (Suc m) F ! k = F ! k" "k < length F"
    by (simp_all add: min_absorb1)
  then show "\<exists>G. L (le_Term (take (Suc m) F ! k)) = Some G \<and> prefix (take (Suc k) (take (Suc m) F)) G"
    using goodD [OF assms k(1)] by simp
qed

lemma good_single: "good L (generateSingleLog 0 0)"
  by (simp add: good_def full_log_single)

lemma take_prefix_eq: "prefix F G \<Longrightarrow> k \<le> length F \<Longrightarrow> take k G = take k F"
  by (auto simp: prefix_def)

text \<open>Log matching: two good logs with an entry of the same term at an index agree up to there.\<close>

lemma good_match:
  assumes "good L F" and "good L F'" and "k < length F" and "k < length F'"
    and "le_Term (F ! k) = le_Term (F' ! k)"
  shows "take (Suc k) F = take (Suc k) F'"
proof (cases "k = 0")
  case True
  then show ?thesis
    using full_log_simps(3,6) [OF good_full [OF assms(1)]] full_log_simps(3,6) [OF good_full [OF assms(2)]]
    by (cases F; cases F') auto
next
  case False
  obtain G where G: "L (le_Term (F ! k)) = Some G" "prefix (take (Suc k) F) G"
    using goodD [OF assms(1), of k] False assms(3) by auto
  have "prefix (take (Suc k) F') G"
    using goodD [OF assms(2), of k] False assms(4,5) G(1) by auto
  then show ?thesis
    using G(2) take_prefix_eq [of "take (Suc k) F" G "Suc k"] take_prefix_eq [of "take (Suc k) F'" G "Suc k"]
      assms(3,4) by simp
qed

lemma good_snoc:
  assumes "good L F" and "full_log (F @ [e])" and "le_Term e = t" and "L t = Some F"
  shows "good (L(t \<mapsto> F @ [e])) (F @ [e])"
proof -
  have g: "grown L (L(t \<mapsto> F @ [e]))" using assms(4) by (auto simp: grown_def)
  have "\<exists>G. (L(t \<mapsto> F @ [e])) (le_Term ((F @ [e]) ! k)) = Some G \<and> prefix (take (Suc k) (F @ [e])) G"
    if k: "0 < k" "k < length (F @ [e])" for k
  proof (cases "k < length F")
    case True
    then show ?thesis using goodD [OF good_grown [OF assms(1) g], of k] k(1) by (simp add: nth_append)
  next
    case False
    then have "k = length F" using k(2) by simp
    then show ?thesis using assms(3) by simp
  qed
  then show ?thesis by (rule goodI [OF assms(2)])
qed

section \<open>Merging\<close>

lemma merge_tail_same:
  assumes "\<And>m. m < length ys \<Longrightarrow> m < length es \<Longrightarrow> le_Term (ys ! m) = le_Term (es ! m) \<Longrightarrow> ys ! m = es ! m"
  shows "merge_tail ys es = (if covers ys es then ys else es)"
  using assms
proof (induction ys es rule: merge_tail.induct)
  case (3 y ys e es)
  have "y = e" if "le_Term y = le_Term e" using "3.prems" [of 0] that by simp
  moreover have "ys ! m = es ! m" if "m < length ys" "m < length es" "le_Term (ys ! m) = le_Term (es ! m)" for m
    using "3.prems" [of "Suc m"] that by simp
  ultimately show ?case using "3.IH" by auto
qed auto

text \<open>The log after a request that carries the entries of \<open>F'\<close> after index \<open>k\<close>.\<close>

definition merged :: "nat \<Rightarrow> 'c LogEntry list \<Rightarrow> 'c LogEntry list \<Rightarrow> 'c LogEntry list" where
  "merged k F' F = (if covers (drop (Suc k) F) (drop (Suc k) F') then F else F')"

lemma merge_view:
  assumes "good L F" and "good L F'" and "f \<le> k" and "k < length F" and "k < length F'"
    and "le_Term (F ! k) = le_Term (F' ! k)"
  shows "merge_log (int k) (drop (Suc k) F') (view f F) = view f (merged k F' F)"
proof -
  have eq: "take (Suc k) F = take (Suc k) F'" by (rule good_match [OF assms(1,2,4,5,6)])
  have "F ! (Suc k + m) = F' ! (Suc k + m)"
    if "Suc k + m < length F" "Suc k + m < length F'" "le_Term (F ! (Suc k + m)) = le_Term (F' ! (Suc k + m))" for m
    using good_match [OF assms(1,2) that] that(1,2)
    by (metis lessI nth_take)
  then have m: "merge_tail (drop (Suc k) F) (drop (Suc k) F')
      = (if covers (drop (Suc k) F) (drop (Suc k) F') then drop (Suc k) F else drop (Suc k) F')"
    by (intro merge_tail_same) simp
  have n: "nat (int k + 1 - int f) = Suc (k - f)" using assms(3) by auto
  have d: "drop (Suc (k - f)) (view f X) = drop (Suc k) X" for X :: "'a LogEntry list"
    using assms(3) by (simp add: view_def generateSingleLog_def)
  have t: "take (Suc (k - f)) (view f X) = generateSingleLog (int f) (le_Term (X ! f))
      @ drop (Suc f) (take (Suc k) X)" for X :: "'a LogEntry list"
    using assms(3) by (simp add: view_def generateSingleLog_def drop_take)
  have "X ! f = take (Suc k) X ! f" for X :: "'a LogEntry list" using assms(3) by simp
  then have "F ! f = F' ! f" using eq by metis
  then have t': "take (Suc (k - f)) (view f F) = take (Suc (k - f)) (view f F')" by (simp add: t eq)
  have j: "take (Suc (k - f)) (view f X) @ drop (Suc k) X = view f X" for X :: "'a LogEntry list"
    unfolding d [of X, symmetric] by (rule append_take_drop_id)
  show ?thesis
    using j [of F] j [of F', folded t'] by (auto simp: merge_log_def Let_def n d m merged_def)
qed

lemma good_merged: "good L F \<Longrightarrow> good L F' \<Longrightarrow> good L (merged k F' F)"
  by (simp add: merged_def)

text \<open>The request's log is a prefix of the result.\<close>

lemma prefix_merged:
  assumes "good L F" and "good L F'" and "k < length F" and "k < length F'"
    and "le_Term (F ! k) = le_Term (F' ! k)"
  shows "prefix F' (merged k F' F)"
proof (cases "covers (drop (Suc k) F) (drop (Suc k) F')")
  case True
  let ?m = "length F' - 1"
  have m: "?m < length F'" "Suc ?m = length F'" using assms(4) by auto
  have c: "length F' \<le> length F"
    "\<And>j. j < length F' - Suc k \<Longrightarrow> le_Term (F ! (Suc k + j)) = le_Term (F' ! (Suc k + j))"
    using True assms(3,4) by (auto simp: covers_iff)
  have "le_Term (F ! ?m) = le_Term (F' ! ?m)"
  proof (cases "?m = k")
    case False
    then have "Suc k + (?m - Suc k) = ?m" "?m - Suc k < length F' - Suc k" using assms(4) by auto
    then show ?thesis using c(2) [of "?m - Suc k"] by metis
  qed (use assms(5) in simp)
  then have "take (Suc ?m) F = take (Suc ?m) F'"
    using good_match [OF assms(1,2), of ?m] m c(1) by simp
  then show ?thesis using True m(2) c(1) by (metis merged_def take_all_iff take_is_prefix order_refl)
next
  case False
  then show ?thesis by (simp add: merged_def)
qed

text \<open>What the log shares with the sender's whole log \<open>G\<close> it keeps.\<close>

lemma merged_keeps:
  assumes "take (Suc N) F = take (Suc N) G" and "N < length F" and "N < length G"
  shows "N < length (merged k (take (Suc M) G) F)"
    and "take (Suc N) (merged k (take (Suc M) G) F) = take (Suc N) G"
proof -
  have "covers (drop (Suc k) F) (drop (Suc k) (take (Suc M) G))" if "M < N"
  proof -
    have nth: "F ! j = G ! j" if "j \<le> M" for j
      using assms(1) that \<open>M < N\<close> by (metis le_imp_less_Suc less_trans nth_take order_less_le)
    have "le_Term (drop (Suc k) F ! m) = le_Term (drop (Suc k) (take (Suc M) G) ! m)"
      if "m < length (drop (Suc k) (take (Suc M) G))" for m
    proof -
      have "Suc k \<le> length (take (Suc M) G)" "Suc k + m \<le> M" "Suc k \<le> length F"
        using that assms(2) \<open>M < N\<close> by auto
      then show ?thesis using nth [of "Suc k + m"] by simp
    qed
    then show ?thesis using assms(2,3) \<open>M < N\<close> by (simp add: covers_iff)
  qed
  then have "covers (drop (Suc k) F) (drop (Suc k) (take (Suc M) G)) \<or> N \<le> M" by linarith
  then show "N < length (merged k (take (Suc M) G) F)"
    and "take (Suc N) (merged k (take (Suc M) G) F) = take (Suc N) G"
    using assms by (auto simp: merged_def min_def)
qed

section \<open>Installing a snapshot\<close>

text \<open>The log after the installation of a snapshot at index \<open>k\<close> of the log \<open>G\<close>.\<close>

definition spliced :: "nat \<Rightarrow> 'c LogEntry list \<Rightarrow> 'c LogEntry list \<Rightarrow> 'c LogEntry list" where
  "spliced k G F = (if Suc k < length F \<and> le_Term (F ! k) = le_Term (G ! k) then F else take (Suc k) G)"

lemma newLog_view:
  assumes "full_log F" and "f \<le> k" and "f < length F" and "k < length G"
    and "is_LastIncludedIndex b = int k" and "is_LastIncludedTerm b = le_Term (G ! k)"
  shows "newLog b (view f F) = view k (spliced k G F)"
proof (cases "Suc k < length F \<and> le_Term (F ! k) = le_Term (G ! k)")
  case True
  then have "termAt (view f F) (int k) = le_Term (G ! k)" using termAt_view [of f k F] assms(2) by simp
  moreover have "int k < lastIdx (view f F)" using True lastIdx_view [OF assms(1,3)] by linarith
  ultimately have "newLog b (view f F) = compacted (int k) (view f F)"
    using assms(5,6) by (simp add: newLog_def compacted_def Let_def)
  then show ?thesis using True view_view [of f k F] assms(2) by (simp add: spliced_def)
next
  case False
  then have "\<not> (int k < lastIdx (view f F) \<and> termAt (view f F) (int k) = le_Term (G ! k))"
    using lastIdx_view [OF assms(1,3)] termAt_view [of f k F] assms(2) by auto
  then have "newLog b (view f F) = generateSingleLog (int k) (le_Term (G ! k))"
    using assms(5,6) by (auto simp: newLog_def Let_def)
  then show ?thesis using False view_single [of "take (Suc k) G" k] assms(4)
    by (simp only: spliced_def if_False) simp
qed

lemma good_spliced: "good L F \<Longrightarrow> good L G \<Longrightarrow> good L (spliced k G F)"
  by (simp add: spliced_def good_take)

lemma length_spliced: "k < length G \<Longrightarrow> k < length (spliced k G F)"
  by (auto simp: spliced_def)

lemma prefix_spliced:
  assumes "good L F" and "good L G" and "k < length G"
  shows "prefix (take (Suc k) G) (spliced k G F)"
proof (cases "Suc k < length F \<and> le_Term (F ! k) = le_Term (G ! k)")
  case True
  then have "take (Suc k) F = take (Suc k) G" using good_match [OF assms(1,2) _ assms(3)] by simp
  then show ?thesis using True take_is_prefix [of "Suc k" F] by (simp add: spliced_def)
next
  case False
  then show ?thesis by (simp only: spliced_def if_False prefix_order.refl)
qed

lemma spliced_keeps:
  assumes "take (Suc N) F = take (Suc N) G" and "N < length F" and "N < length G"
  shows "N < length (spliced k G F)" and "take (Suc N) (spliced k G F) = take (Suc N) G"
proof -
  have "F ! k = G ! k" if "k < N" using assms(1) that by (metis less_SucI nth_take)
  then have "Suc k < length F \<and> le_Term (F ! k) = le_Term (G ! k) \<or> N \<le> k"
    using assms(2) by (metis Suc_lessI not_less less_trans_Suc)
  then show "N < length (spliced k G F)" and "take (Suc N) (spliced k G F) = take (Suc N) G"
    using assms by (auto simp: spliced_def min_def)
qed

end
