(* ===== verification/RaftGhost.thy ===== *)
theory RaftGhost
  imports RaftLog RaftCluster
begin

text \<open>
  Safety of the replicated log.  The invariant of the cluster is extended by ghost state: the
  uncompacted log of every peer, the log of the leader of every term, and for every peer and
  term the entries of that term the peer has stored while in it.  From it follow log matching,
  leader completeness and state machine safety, through crashes, lost and delayed packets,
  compaction and the installation of snapshots.
\<close>

section \<open>Ghost state\<close>

text \<open>
  \<open>gfull i\<close> is the log of peer \<open>i\<close> without compaction, \<open>glead t\<close> the longest log of the leader of
  term \<open>t\<close>, and \<open>gacks p t\<close> the indices of the entries of term \<open>t\<close> that peer \<open>p\<close> stored in term \<open>t\<close>.
\<close>

record 'c ghost =
  gfull :: "nat \<Rightarrow> 'c LogEntry list"
  glead :: "'c leads"
  gacks :: "nat \<Rightarrow> int \<Rightarrow> nat set"

text \<open>
  An entry of term \<open>t\<close> is chosen when a majority has stored it in that term.  It can still be
  chosen when a majority has stored it or is not yet past term \<open>t\<close> on disk.
\<close>

definition chosen :: "nat \<Rightarrow> 'c ghost \<Rightarrow> int \<Rightarrow> nat \<Rightarrow> bool" where
  "chosen n G t N \<longleftrightarrow> (\<exists>Q. majority n Q \<and> (\<forall>p \<in> Q. N \<in> gacks G p t))"

definition choosable :: "nat \<Rightarrow> (nat \<Rightarrow> int) \<Rightarrow> 'c ghost \<Rightarrow> int \<Rightarrow> nat \<Rightarrow> bool" where
  "choosable n T G t N \<longleftrightarrow> (\<exists>Q. majority n Q \<and> (\<forall>p \<in> Q. N \<in> gacks G p t \<or> T p \<le> t))"

text \<open>The log \<open>F\<close> starts with the log of the leader of term \<open>t\<close> up to index \<open>N\<close>.\<close>

definition has :: "'c ghost \<Rightarrow> int \<Rightarrow> nat \<Rightarrow> 'c LogEntry list \<Rightarrow> bool" where
  "has G t N F \<longleftrightarrow> (\<exists>X. glead G t = Some X \<and> N < length X \<and> prefix (take (Suc N) X) F)"

definition safe_log :: "nat \<Rightarrow> (nat \<Rightarrow> int) \<Rightarrow> 'c ghost \<Rightarrow> nat \<Rightarrow> int \<Rightarrow> 'c LogEntry list \<Rightarrow> bool" where
  "safe_log n T G p t F \<longleftrightarrow> (\<forall>t0 N. t0 < t \<longrightarrow> N \<in> gacks G p t0 \<longrightarrow> choosable n T G t0 N \<longrightarrow> has G t0 N F)"

text \<open>The log \<open>F\<close> up to index \<open>c\<close> is covered by an entry chosen in a term of at most \<open>\<tau>\<close>.\<close>

definition committed :: "nat \<Rightarrow> 'c ghost \<Rightarrow> int \<Rightarrow> nat \<Rightarrow> 'c LogEntry list \<Rightarrow> bool" where
  "committed n G \<tau> c F \<longleftrightarrow> c < length F \<and> (c = 0 \<or> (\<exists>t N X. t \<le> \<tau> \<and> chosen n G t N \<and> glead G t = Some X
     \<and> c \<le> N \<and> N < length X \<and> take (Suc c) F = take (Suc c) X))"

definition delivered :: "nat \<Rightarrow> 'c ghost \<Rightarrow> ('c, 'b) ApplyMsg \<Rightarrow> bool" where
  "delivered n G m \<longleftrightarrow> (am_CommandValid m \<longrightarrow> (\<exists>t N X k. chosen n G t N \<and> glead G t = Some X
     \<and> 0 < k \<and> k \<le> N \<and> N < length X \<and> m = command_msg (X ! k)))"

section \<open>The invariant\<close>

definition app_ok :: "nat \<Rightarrow> 'c ghost \<Rightarrow> 'c AppendEntryArgs \<Rightarrow> bool" where
  "app_ok n G a \<longleftrightarrow> (\<exists>X k M. glead G (ae_Term a) = Some X \<and> k \<le> M \<and> M < length X
     \<and> ae_PrevLogIndex a = int k \<and> ae_PrevLogTerm a = le_Term (X ! k)
     \<and> ae_Entries a = drop (Suc k) (take (Suc M) X)
     \<and> (ae_LeaderCommit a \<le> 0 \<or> (\<exists>t N. t \<le> ae_Term a \<and> chosen n G t N
          \<and> ae_LeaderCommit a \<le> int N \<and> N \<le> M \<and> has G t N X)))"

definition snap_ok :: "nat \<Rightarrow> 'c ghost \<Rightarrow> 'b InstallSnapShotArgs \<Rightarrow> bool" where
  "snap_ok n G b \<longleftrightarrow> (\<exists>X k. glead G (is_Term b) = Some X \<and> is_LastIncludedIndex b = int k
     \<and> is_LastIncludedTerm b = le_Term (X ! k) \<and> committed n G (is_Term b) k X)"

text \<open>Peer \<open>p\<close> stores the log of the leader of term \<open>t\<close> up to index \<open>m\<close>.\<close>

definition acked :: "'c ghost \<Rightarrow> nat \<Rightarrow> int \<Rightarrow> int \<Rightarrow> bool" where
  "acked G p t m \<longleftrightarrow> (\<exists>X. glead G t = Some X \<and> m < int (length X)
     \<and> (\<forall>N. 0 < N \<longrightarrow> int N \<le> m \<longrightarrow> le_Term (X ! N) = t \<longrightarrow> N \<in> gacks G p t))"

fun pkt_ok :: "nat \<Rightarrow> 'c ghost \<Rightarrow> ('c, 'b) packet \<Rightarrow> bool" where
  "pkt_ok n G (AppReq i p a) = app_ok n G a"
| "pkt_ok n G (AppRep i p a r) = (aer_Success r \<longrightarrow>
     acked G p (ae_Term a) (ae_PrevLogIndex a + int (length (ae_Entries a))))"
| "pkt_ok n G (SnapReq i p b) = snap_ok n G b"
| "pkt_ok n G (SnapRep i p b r) = (isr_Term r \<le> is_Term b \<longrightarrow> acked G p (is_Term b) (is_LastIncludedIndex b))"
| "pkt_ok n G _ = True"

definition acks_ok :: "'c ghost \<Rightarrow> nat \<Rightarrow> int \<Rightarrow> bool" where
  "acks_ok G p \<tau> \<longleftrightarrow> (\<forall>t N. N \<in> gacks G p t \<longrightarrow> 0 < N \<and> t \<le> \<tau>
     \<and> (\<exists>X. glead G t = Some X \<and> N < length X \<and> le_Term (X ! N) = t))"

definition leader_inv :: "nat \<Rightarrow> 'c ghost \<Rightarrow> nat \<Rightarrow> ('c, 'b) Raft \<Rightarrow> bool" where
  "leader_inv n G i rf \<longleftrightarrow> (state rf = Leader \<longrightarrow> glead G (currentTerm rf) = Some (gfull G i)
     \<and> (\<forall>p < n. acked G p (currentTerm rf) (matchIndex rf ! p)))"

definition log_inv :: "nat \<Rightarrow> (nat \<Rightarrow> int) \<Rightarrow> 'c ghost \<Rightarrow> nat \<Rightarrow> ('c, 'b) Raft \<Rightarrow> bool" where
  "log_inv n T G i rf \<longleftrightarrow> good (glead G) (gfull G i)
     \<and> (\<exists>f. f < length (gfull G i) \<and> logs rf = view f (gfull G i))
     \<and> (\<forall>N. 0 < N \<longrightarrow> N < length (gfull G i) \<longrightarrow> le_Term (gfull G i ! N) = pterm (persister rf) \<longrightarrow>
          N \<in> gacks G i (pterm (persister rf)))
     \<and> acks_ok G i (pterm (persister rf)) \<and> (\<forall>t. safe_log n T G i t (gfull G i))"

definition commit_inv :: "nat \<Rightarrow> 'c ghost \<Rightarrow> nat \<Rightarrow> ('c, 'b) Raft \<Rightarrow> bool" where
  "commit_inv n G i rf \<longleftrightarrow> lastApplied rf \<le> commitIndex rf
     \<and> committed n G (pterm (persister rf)) (nat (commitIndex rf)) (gfull G i)
     \<and> (\<forall>m \<in> set (applyCh rf). delivered n G m)
     \<and> (\<forall>m. pendingSnapshot rf = Some m \<longrightarrow> \<not> am_CommandValid m)"

definition cand_inv :: "nat \<Rightarrow> (nat \<Rightarrow> int) \<Rightarrow> 'c ghost \<Rightarrow> ('c, 'b) packet multiset \<Rightarrow>
    (nat \<Rightarrow> int \<Rightarrow> nat set) \<Rightarrow> nat \<Rightarrow> ('c, 'b) Raft \<Rightarrow> bool" where
  "cand_inv n T G M C i rf \<longleftrightarrow> (state rf = Candidate \<longrightarrow>
     (\<forall>p \<in> insert i (C i (currentTerm rf)). safe_log n T G p (currentTerm rf) (gfull G i))
     \<and> (\<forall>p a r. VoteRep i p a r \<in># M \<longrightarrow> rvr_VoteGranted r \<longrightarrow> rv_Term a = currentTerm rf \<longrightarrow>
          safe_log n T G p (currentTerm rf) (gfull G i))
     \<and> (\<forall>p a. VoteReq i p a \<in># M \<longrightarrow> rv_Term a = currentTerm rf \<longrightarrow>
          rv_LastLogIndex a = int (length (gfull G i)) - 1 \<and> rv_LastLogTerm a = le_Term (last (gfull G i))))"

definition lead_inv :: "nat \<Rightarrow> (nat \<Rightarrow> int) \<Rightarrow> history \<Rightarrow> 'c ghost \<Rightarrow> (nat \<Rightarrow> ('c, 'b) Raft) \<Rightarrow> bool" where
  "lead_inv n T H G R \<longleftrightarrow> (\<forall>t Y. glead G t = Some Y \<longrightarrow> good (glead G) Y
     \<and> (\<exists>j Q. j < n \<and> majority n Q \<and> (\<forall>p \<in> Q. H p t = Some (int j)) \<and> t \<le> pterm (persister (R j))
          \<and> (currentTerm (R j) = t \<longrightarrow> state (R j) \<noteq> Candidate))
     \<and> (\<forall>t0 N. t0 < t \<longrightarrow> choosable n T G t0 N \<longrightarrow> has G t0 N Y))"

abbreviation dterms :: "('c, 'b) Cluster \<Rightarrow> nat \<Rightarrow> int" where
  "dterms s \<equiv> \<lambda>p. pterm (disk s p)"

definition sinv :: "nat \<Rightarrow> history \<Rightarrow> (nat \<Rightarrow> int \<Rightarrow> nat set) \<Rightarrow> 'c ghost \<Rightarrow> ('c, 'b) Cluster \<Rightarrow> bool" where
  "sinv n H C G s \<longleftrightarrow> (\<forall>i < n. log_inv n (dterms s) G i (nodes s i) \<and> commit_inv n G i (nodes s i)
       \<and> leader_inv n G i (nodes s i) \<and> cand_inv n (dterms s) G (net s) C i (nodes s i))
     \<and> lead_inv n (dterms s) H G (nodes s) \<and> (\<forall>m \<in># net s. pkt_ok n G m)"

section \<open>Growing ghost state\<close>

definition ghost_le :: "'c ghost \<Rightarrow> 'c ghost \<Rightarrow> bool" where
  "ghost_le G G' \<longleftrightarrow> grown (glead G) (glead G') \<and> (\<forall>p t. gacks G p t \<subseteq> gacks G' p t)"

lemma ghost_le_refl [simp]: "ghost_le G G"
  by (simp add: ghost_le_def)

lemma ghost_le_trans: "ghost_le G G' \<Longrightarrow> ghost_le G' G'' \<Longrightarrow> ghost_le G G''"
  unfolding ghost_le_def using grown_trans by blast

lemma ghost_leD:
  assumes "ghost_le G G'"
  shows "glead G t = Some X \<Longrightarrow> \<exists>X'. glead G' t = Some X' \<and> prefix X X'"
    and "N \<in> gacks G p t \<Longrightarrow> N \<in> gacks G' p t"
  using assms grownD [of "glead G" "glead G'"] unfolding ghost_le_def by blast+

lemma ghost_le_good: "good (glead G) F \<Longrightarrow> ghost_le G G' \<Longrightarrow> good (glead G') F"
  unfolding ghost_le_def by (blast intro: good_grown)

lemma has_mono:
  assumes "has G t N F" and "ghost_le G G'" and "prefix F F'"
  shows "has G' t N F'"
proof -
  obtain X where X: "glead G t = Some X" "N < length X" "prefix (take (Suc N) X) F"
    using assms(1) by (auto simp: has_def)
  obtain X' where X': "glead G' t = Some X'" "prefix X X'" using ghost_leD(1) [OF assms(2) X(1)] by blast
  have "take (Suc N) X' = take (Suc N) X" using take_prefix_eq [OF X'(2)] X(2) by simp
  moreover have "N < length X'" using prefix_length_le [OF X'(2)] X(2) by simp
  ultimately show ?thesis
    using X'(1) prefix_order.trans [OF X(3) assms(3)] by (auto simp: has_def)
qed

lemma chosen_mono: "chosen n G t N \<Longrightarrow> ghost_le G G' \<Longrightarrow> chosen n G' t N"
  unfolding chosen_def using ghost_leD(2) by blast

lemma chosen_choosable: "chosen n G t N \<Longrightarrow> choosable n T G t N"
  by (auto simp: chosen_def choosable_def)

lemma nth_prefix: "prefix X X' \<Longrightarrow> k < length X \<Longrightarrow> X' ! k = X ! k"
  by (auto simp: prefix_def nth_append)

lemma committedI:
  "chosen n G t N \<Longrightarrow> glead G t = Some X \<Longrightarrow> t \<le> \<tau> \<Longrightarrow> c \<le> N \<Longrightarrow> N < length X \<Longrightarrow> c < length F \<Longrightarrow>
     take (Suc c) F = take (Suc c) X \<Longrightarrow> committed n G \<tau> c F"
  unfolding committed_def by blast

lemma committed_mono:
  assumes "committed n G \<tau> c F" and "ghost_le G G'" and "\<tau> \<le> \<tau>'"
    and "c < length F'" and "take (Suc c) F' = take (Suc c) F"
  shows "committed n G' \<tau>' c F'"
proof (cases "c = 0")
  case False
  then obtain t N X where t: "t \<le> \<tau>" "chosen n G t N" "glead G t = Some X" "c \<le> N" "N < length X"
    "take (Suc c) F = take (Suc c) X"
    using assms(1) by (auto simp: committed_def)
  obtain X' where X': "glead G' t = Some X'" "prefix X X'" using ghost_leD(1) [OF assms(2) t(3)] by blast
  have "take (Suc c) X' = take (Suc c) X" "N < length X'"
    using take_prefix_eq [OF X'(2), of "Suc c"] prefix_length_le [OF X'(2)] t(4,5) by simp_all
  then show ?thesis
    using assms(3-5) t by (intro committedI [OF chosen_mono [OF t(2) assms(2)] X'(1)]) simp_all
qed (use assms(4) in \<open>simp add: committed_def\<close>)

lemma committed_grown: "committed n G \<tau> c F \<Longrightarrow> ghost_le G G' \<Longrightarrow> \<tau> \<le> \<tau>' \<Longrightarrow> committed n G' \<tau>' c F"
  by (rule committed_mono) (simp_all add: committed_def)

lemma delivered_mono:
  assumes "delivered n G m" and "ghost_le G G'"
  shows "delivered n G' m"
  unfolding delivered_def
proof
  assume "am_CommandValid m"
  then obtain t N X k where t: "chosen n G t N" "glead G t = Some X" "0 < k" "k \<le> N" "N < length X"
    "m = command_msg (X ! k)" using assms(1) by (auto simp: delivered_def)
  obtain X' where X': "glead G' t = Some X'" "prefix X X'" using ghost_leD(1) [OF assms(2) t(2)] by blast
  have "m = command_msg (X' ! k)" "N < length X'"
    using nth_prefix [OF X'(2), of k] prefix_length_le [OF X'(2)] t(4-6) by simp_all
  then show "\<exists>t N X k. chosen n G' t N \<and> glead G' t = Some X \<and> 0 < k \<and> k \<le> N \<and> N < length X
      \<and> m = command_msg (X ! k)"
    using chosen_mono [OF t(1) assms(2)] X'(1) t(3,4) by blast
qed

lemma acked_mono:
  assumes "acked G p t m" and "ghost_le G G'"
  shows "acked G' p t m"
proof -
  obtain X where X: "glead G t = Some X" "m < int (length X)"
    "\<And>N. 0 < N \<Longrightarrow> int N \<le> m \<Longrightarrow> le_Term (X ! N) = t \<Longrightarrow> N \<in> gacks G p t"
    using assms(1) by (auto simp: acked_def)
  obtain X' where X': "glead G' t = Some X'" "prefix X X'" using ghost_leD(1) [OF assms(2) X(1)] by blast
  have "N \<in> gacks G' p t" if "0 < N" "int N \<le> m" "le_Term (X' ! N) = t" for N
    using X(2) X(3) [of N] that nth_prefix [OF X'(2), of N] ghost_leD(2) [OF assms(2)] by auto
  moreover have "m < int (length X')" using X(2) prefix_length_le [OF X'(2)] by linarith
  ultimately show ?thesis using X'(1) by (auto simp: acked_def)
qed

lemma app_ok_mono:
  assumes "app_ok n G a" and "ghost_le G G'"
  shows "app_ok n G' a"
proof -
  obtain X k M where X: "glead G (ae_Term a) = Some X" "k \<le> M" "M < length X"
    "ae_PrevLogIndex a = int k" "ae_PrevLogTerm a = le_Term (X ! k)"
    "ae_Entries a = drop (Suc k) (take (Suc M) X)"
    "ae_LeaderCommit a \<le> 0 \<or> (\<exists>t N. t \<le> ae_Term a \<and> chosen n G t N \<and> ae_LeaderCommit a \<le> int N
        \<and> N \<le> M \<and> has G t N X)"
    using assms(1) unfolding app_ok_def by blast
  obtain X' where X': "glead G' (ae_Term a) = Some X'" "prefix X X'" using ghost_leD(1) [OF assms(2) X(1)] by blast
  have "take (Suc M) X' = take (Suc M) X" "X' ! k = X ! k" "M < length X'"
    using take_prefix_eq [OF X'(2)] nth_prefix [OF X'(2)] prefix_length_le [OF X'(2)] X(2,3) by simp_all
  moreover have "ae_LeaderCommit a \<le> 0 \<or> (\<exists>t N. t \<le> ae_Term a \<and> chosen n G' t N
      \<and> ae_LeaderCommit a \<le> int N \<and> N \<le> M \<and> has G' t N X')"
    using X(7) chosen_mono [OF _ assms(2)] has_mono [OF _ assms(2) X'(2)] by blast
  ultimately show ?thesis
    unfolding app_ok_def using X X'(1) by (intro exI [of _ X'] exI [of _ k] exI [of _ M]) simp
qed

lemma snap_ok_mono:
  assumes "snap_ok n G b" and "ghost_le G G'"
  shows "snap_ok n G' b"
proof -
  obtain X k where X: "glead G (is_Term b) = Some X" "is_LastIncludedIndex b = int k"
    "is_LastIncludedTerm b = le_Term (X ! k)" "committed n G (is_Term b) k X"
    using assms(1) by (auto simp: snap_ok_def)
  have k: "k < length X" using X(4) by (simp add: committed_def)
  obtain X' where X': "glead G' (is_Term b) = Some X'" "prefix X X'" using ghost_leD(1) [OF assms(2) X(1)] by blast
  have "committed n G' (is_Term b) k X'"
    using committed_mono [OF X(4) assms(2) order_refl] k take_prefix_eq [OF X'(2), of "Suc k"]
      prefix_length_le [OF X'(2)] by simp
  then show ?thesis using X X' nth_prefix [OF X'(2) k] by (auto simp: snap_ok_def)
qed

lemma pkt_ok_mono: "pkt_ok n G m \<Longrightarrow> ghost_le G G' \<Longrightarrow> pkt_ok n G' m"
  by (cases m) (auto intro: app_ok_mono snap_ok_mono acked_mono)

section \<open>Steps of one peer\<close>

text \<open>
  The ghost state moves with peer \<open>p\<close>: terms on disk only rise, only \<open>p\<close> stores new entries, and
  only in a term that its disk had not passed.
\<close>

definition moves :: "(nat \<Rightarrow> int) \<Rightarrow> (nat \<Rightarrow> int) \<Rightarrow> 'c ghost \<Rightarrow> 'c ghost \<Rightarrow> nat \<Rightarrow> bool" where
  "moves T T' G G' p \<longleftrightarrow> ghost_le G G' \<and> (\<forall>q. T q \<le> T' q)
     \<and> (\<forall>q t N. N \<in> gacks G' q t \<longrightarrow> N \<in> gacks G q t \<or> q = p \<and> T p \<le> t)
     \<and> (\<forall>q. q \<noteq> p \<longrightarrow> gfull G' q = gfull G q)"

lemma movesD:
  assumes "moves T T' G G' p"
  shows "ghost_le G G'" and "T q \<le> T' q" and "N \<in> gacks G' q t \<Longrightarrow> N \<in> gacks G q t \<or> q = p \<and> T p \<le> t"
    and "q \<noteq> p \<Longrightarrow> gfull G' q = gfull G q"
  using assms by (simp_all add: moves_def)

lemma choosable_back:
  assumes "choosable n T' G' t N" and "moves T T' G G' p"
  shows "choosable n T G t N"
proof -
  obtain Q where Q: "majority n Q" "\<And>q. q \<in> Q \<Longrightarrow> N \<in> gacks G' q t \<or> T' q \<le> t"
    using assms(1) by (auto simp: choosable_def)
  have "N \<in> gacks G q t \<or> T q \<le> t" if "q \<in> Q" for q
    using Q(2) [OF that] movesD(2) [OF assms(2), of q] movesD(3) [OF assms(2), of N q t] by auto
  then show ?thesis using Q(1) by (auto simp: choosable_def)
qed

lemma safe_logD:
  "safe_log n T G p t F \<Longrightarrow> t0 < t \<Longrightarrow> N \<in> gacks G p t0 \<Longrightarrow> choosable n T G t0 N \<Longrightarrow> has G t0 N F"
  by (simp add: safe_log_def)

lemma safe_log_frame:
  assumes "safe_log n T G q t F" and mv: "moves T T' G G' p" and "q \<noteq> p \<or> t \<le> T p"
  shows "safe_log n T' G' q t F"
  unfolding safe_log_def
proof (intro allI impI)
  fix t0 N assume N: "t0 < t" "N \<in> gacks G' q t0" "choosable n T' G' t0 N"
  have "N \<in> gacks G q t0" using movesD(3) [OF mv N(2)] assms(3) N(1) by auto
  then have "has G t0 N F" using safe_logD [OF assms(1) N(1)] choosable_back [OF N(3) mv] by blast
  then show "has G' t0 N F" by (rule has_mono [OF _ movesD(1) [OF mv]]) simp
qed

lemma acks_ok_frame:
  assumes "acks_ok G q \<tau>" and "ghost_le G G'" and "\<tau> \<le> \<tau>'"
    and "\<And>t N. N \<in> gacks G' q t \<Longrightarrow> N \<in> gacks G q t \<or> 0 < N \<and> t \<le> \<tau>'
      \<and> (\<exists>X. glead G' t = Some X \<and> N < length X \<and> le_Term (X ! N) = t)"
  shows "acks_ok G' q \<tau>'"
  unfolding acks_ok_def
proof (intro allI impI)
  fix t N assume N: "N \<in> gacks G' q t"
  show "0 < N \<and> t \<le> \<tau>' \<and> (\<exists>X. glead G' t = Some X \<and> N < length X \<and> le_Term (X ! N) = t)"
  proof (cases "N \<in> gacks G q t")
    case True
    then obtain X where X: "0 < N" "t \<le> \<tau>" "glead G t = Some X" "N < length X" "le_Term (X ! N) = t"
      using assms(1) by (auto simp: acks_ok_def)
    obtain X' where X': "glead G' t = Some X'" "prefix X X'" using ghost_leD(1) [OF assms(2) X(3)] by blast
    then have "N < length X'" "le_Term (X' ! N) = t"
      using X(4,5) prefix_length_le [OF X'(2)] nth_prefix [OF X'(2) X(4)] by simp_all
    then show ?thesis using X(1,2) assms(3) X'(1) by auto
  next
    case False
    then show ?thesis using assms(4) [OF N] by blast
  qed
qed

text \<open>The other peers.\<close>

lemma log_invD:
  assumes "log_inv n T G i rf"
  shows "good (glead G) (gfull G i)"
    and "\<exists>f. f < length (gfull G i) \<and> logs rf = view f (gfull G i)"
    and "0 < N \<Longrightarrow> N < length (gfull G i) \<Longrightarrow> le_Term (gfull G i ! N) = pterm (persister rf) \<Longrightarrow>
      N \<in> gacks G i (pterm (persister rf))"
    and "acks_ok G i (pterm (persister rf))" and "safe_log n T G i t (gfull G i)"
  using assms unfolding log_inv_def by blast+

lemma log_invI:
  assumes "good (glead G) (gfull G i)" and "f < length (gfull G i)" and "logs rf = view f (gfull G i)"
    and "\<And>N. 0 < N \<Longrightarrow> N < length (gfull G i) \<Longrightarrow> le_Term (gfull G i ! N) = pterm (persister rf) \<Longrightarrow>
      N \<in> gacks G i (pterm (persister rf))"
    and "acks_ok G i (pterm (persister rf))" and "\<And>t. safe_log n T G i t (gfull G i)"
  shows "log_inv n T G i rf"
  using assms unfolding log_inv_def by blast

lemma log_inv_frame:
  assumes li: "log_inv n T G i rf" and mv: "moves T T' G G' p" and ip: "i \<noteq> p"
  shows "log_inv n T' G' i rf"
proof -
  note d = log_invD [OF li]
  have g: "gfull G' i = gfull G i" by (rule movesD(4) [OF mv ip])
  have le: "ghost_le G G'" by (rule movesD(1) [OF mv])
  obtain f where f: "f < length (gfull G i)" "logs rf = view f (gfull G i)" using d(2) by blast
  show ?thesis
  proof (rule log_invI [of _ _ f])
    show "good (glead G') (gfull G' i)"
      unfolding g by (rule ghost_le_good [OF d(1) le])
    show "acks_ok G' i (pterm (persister rf))"
      by (rule acks_ok_frame [OF d(4) le order_refl]) (use movesD(3) [OF mv] ip in blast)
    show "safe_log n T' G' i t (gfull G' i)" for t
      unfolding g using ip by (intro safe_log_frame [OF d(5) mv]) simp
    show "N \<in> gacks G' i (pterm (persister rf))"
      if "0 < N" "N < length (gfull G' i)" "le_Term (gfull G' i ! N) = pterm (persister rf)" for N
      using that d(3) ghost_leD(2) [OF le] unfolding g by blast
  qed (use f g in simp_all)
qed

lemma commit_inv_frame:
  assumes "commit_inv n G i rf" and mv: "moves T T' G G' p" and "i \<noteq> p"
  shows "commit_inv n G' i rf"
proof -
  have le: "ghost_le G G'" by (rule movesD(1) [OF mv])
  show ?thesis
    using assms(1) committed_grown [OF _ le order_refl]
    by (auto simp: commit_inv_def movesD(4) [OF mv assms(3)] intro: delivered_mono [OF _ le])
qed

lemma leader_inv_frame:
  assumes "leader_inv n G i rf" and mv: "moves T T' G G' p" and "i \<noteq> p"
    and "state rf = Leader \<Longrightarrow> glead G' (currentTerm rf) = glead G (currentTerm rf)"
  shows "leader_inv n G' i rf"
  using assms(1,4) acked_mono [OF _ movesD(1) [OF mv]]
  by (simp add: leader_inv_def movesD(4) [OF mv assms(3)])

text \<open>A vote that counts is on the voter's disk.\<close>

lemma voter_term:
  assumes inv: "cinv n H C s" and "p < n" and "H p t = Some v"
  shows "t \<le> dterms s p"
  using cinvD(1) [OF inv assms(2)] assms(3) by (auto simp: peer_ok_def hist_ok_def)

lemma cand_inv_frame:
  assumes inv: "cinv n H C s" and ev: "evolves n H C s H' C' s'" and i: "i < n"
    and ci: "cand_inv n (dterms s) G (net s) C i (nodes s i)" and mv: "moves (dterms s) T' G G' p"
    and g: "gfull G' i = gfull G i"
    and st: "state rf = Candidate \<Longrightarrow> state (nodes s i) = Candidate \<and> currentTerm rf = currentTerm (nodes s i)"
    and rep: "\<And>q a r. VoteRep i q a r \<in># M \<Longrightarrow> VoteRep i q a r \<in># net s
      \<or> (rvr_VoteGranted r \<longrightarrow> state rf = Candidate \<longrightarrow> rv_Term a = currentTerm rf \<longrightarrow>
          safe_log n T' G' q (currentTerm rf) (gfull G' i))"
    and req: "\<And>q a. VoteReq i q a \<in># M \<Longrightarrow> VoteReq i q a \<in># net s"
  shows "cand_inv n T' G' M C' i rf"
proof (cases "state rf = Candidate")
  case True
  let ?t = "currentTerm rf"
  have c: "state (nodes s i) = Candidate" "currentTerm (nodes s i) = ?t" using st [OF True] by auto
  have ti: "dterms s i = ?t" using peer_okD(8) [OF cinvD(1) [OF inv i]] c by simp
  have old: "safe_log n T' G' q ?t (gfull G' i)"
    if "safe_log n (dterms s) G q ?t (gfull G i)" "?t \<le> dterms s q" for q
    unfolding g by (rule safe_log_frame [OF that(1) mv]) (use that(2) in auto)
  have rv: "safe_log n T' G' q ?t (gfull G' i)"
    if "VoteRep i q a r \<in># net s" "rvr_VoteGranted r" "rv_Term a = ?t" for q a r
  proof (rule old)
    show "safe_log n (dterms s) G q ?t (gfull G i)" using ci c that by (auto simp: cand_inv_def)
    have "q < n" "H q ?t = Some (int i)" using cinvD(4) [OF inv that(1)] that(2,3) by auto
    then show "?t \<le> dterms s q" by (rule voter_term [OF inv])
  qed
  have "safe_log n T' G' q ?t (gfull G' i)" if q: "q \<in> insert i (C' i ?t)" for q
  proof -
    consider "q = i" | "q \<in> C i ?t" | a r where "VoteRep i q a r \<in># net s" "rvr_VoteGranted r" "rv_Term a = ?t"
      using q ev unfolding evolves_def by blast
    then show ?thesis
    proof cases
      case 1
      then show ?thesis using old [of i] ci c ti by (auto simp: cand_inv_def)
    next
      case 2
      then have "q < n" "H q ?t = Some (int i)" using cinvD(2) [OF inv i 2] by auto
      then show ?thesis using old [of q] ci c 2 voter_term [OF inv] by (auto simp: cand_inv_def)
    next
      case 3
      then show ?thesis by (rule rv)
    qed
  qed
  moreover have "safe_log n T' G' q ?t (gfull G' i)"
    if "VoteRep i q a r \<in># M" "rvr_VoteGranted r" "rv_Term a = ?t" for q a r
    using rep [OF that(1)] rv that(2,3) True by blast
  moreover have "rv_LastLogIndex a = int (length (gfull G' i)) - 1 \<and> rv_LastLogTerm a = le_Term (last (gfull G' i))"
    if "VoteReq i q a \<in># M" "rv_Term a = ?t" for q a
    using ci c req [OF that(1)] that(2) unfolding cand_inv_def g by simp
  ultimately show ?thesis unfolding cand_inv_def by blast
qed (simp add: cand_inv_def)

lemma lead_invD:
  assumes "lead_inv n T H G R" and "glead G t = Some Y"
  shows "good (glead G) Y"
    and "\<exists>j Q. j < n \<and> majority n Q \<and> (\<forall>p \<in> Q. H p t = Some (int j)) \<and> t \<le> pterm (persister (R j))
          \<and> (currentTerm (R j) = t \<longrightarrow> state (R j) \<noteq> Candidate)"
    and "t0 < t \<Longrightarrow> choosable n T G t0 N \<Longrightarrow> has G t0 N Y"
  using assms unfolding lead_inv_def by blast+

lemma lead_inv_frame:
  assumes ev: "evolves n H C s H' C' s'" and li: "lead_inv n (dterms s) H G (nodes s)"
    and mv: "moves (dterms s) (dterms s') G G' p" and p: "p < n"
    and new: "\<And>t Y. glead G' t = Some Y \<Longrightarrow> glead G t \<noteq> Some Y \<Longrightarrow> good (glead G') Y
      \<and> state (nodes s' p) = Leader \<and> currentTerm (nodes s' p) = t"
    and safe: "\<And>t Y t0 N. glead G' t = Some Y \<Longrightarrow> glead G t = None \<Longrightarrow> t0 < t \<Longrightarrow>
      choosable n (dterms s') G' t0 N \<Longrightarrow> has G' t0 N Y"
  shows "lead_inv n (dterms s') H' G' (nodes s')"
  unfolding lead_inv_def
proof (intro allI impI conjI)
  fix t Y assume Y: "glead G' t = Some Y"
  note inv' = evolves_cinv [OF ev]
  have le: "ghost_le G G'" by (rule movesD(1) [OF mv])
  show "good (glead G') Y"
    using new [OF Y] lead_invD(1) [OF li, of t Y] ghost_le_good [OF _ le] by blast
  show "\<exists>j Q. j < n \<and> majority n Q \<and> (\<forall>p \<in> Q. H' p t = Some (int j)) \<and> t \<le> dterms s' j
      \<and> (currentTerm (nodes s' j) = t \<longrightarrow> state (nodes s' j) \<noteq> Candidate)"
  proof (cases "glead G t = Some Y")
    case True
    obtain j Q where j: "j < n" "majority n Q" "\<And>p. p \<in> Q \<Longrightarrow> H p t = Some (int j)" "t \<le> dterms s j"
      "currentTerm (nodes s j) = t \<Longrightarrow> state (nodes s j) \<noteq> Candidate"
      using lead_invD(2) [OF li True] by blast
    have adv: "advances (nodes s j) (nodes s' j)" and H': "\<And>p. p \<in> Q \<Longrightarrow> H' p t = Some (int j)"
      using ev j(3) unfolding evolves_def by blast+
    then show ?thesis using j(1,2,4,5) by (intro exI [of _ j] exI [of _ Q]) (auto simp: advances_def)
  next
    case False
    then have l: "state (nodes s' p) = Leader" "currentTerm (nodes s' p) = t" using new [OF Y] by auto
    have "dterms s' p = t" using peer_okD(8) [OF cinvD(1) [OF inv' p]] l by simp
    then show ?thesis
      using leader_quorum [OF inv' p l(1)] l p
      by (intro exI [of _ p] exI [of _ "insert p (C' p t)"]) simp
  qed
  fix t0 N assume N: "t0 < t" "choosable n (dterms s') G' t0 N"
  show "has G' t0 N Y"
  proof (cases "glead G t")
    case None
    then show ?thesis using safe [OF Y _ N] by simp
  next
    case (Some X)
    have "prefix X Y" using ghost_leD(1) [OF le Some] Y by auto
    moreover have "has G t0 N X" by (rule lead_invD(3) [OF li Some N(1) choosable_back [OF N(2) mv]])
    ultimately show ?thesis using has_mono [OF _ le] by blast
  qed
qed

lemma sinvD:
  assumes "sinv n H C G s"
  shows "i < n \<Longrightarrow> log_inv n (dterms s) G i (nodes s i)" and "i < n \<Longrightarrow> commit_inv n G i (nodes s i)"
    and "i < n \<Longrightarrow> leader_inv n G i (nodes s i)"
    and "i < n \<Longrightarrow> cand_inv n (dterms s) G (net s) C i (nodes s i)"
    and "lead_inv n (dterms s) H G (nodes s)" and "m \<in># net s \<Longrightarrow> pkt_ok n G m"
  using assms by (simp_all add: sinv_def)

text \<open>The frame rule of the whole invariant.\<close>

lemma sinv_frame:
  assumes inv: "cinv n H C s" and si: "sinv n H C G s" and p: "p < n"
    and ev: "evolves n H C s H' C' s'" and s': "s' = put p rf M s"
    and mv: "moves (dterms s) (dterms s') G G' p"
    and node: "log_inv n (dterms s') G' p rf" "commit_inv n G' p rf" "leader_inv n G' p rf"
      "cand_inv n (dterms s') G' M C' p rf"
    and new: "\<And>t Y. glead G' t = Some Y \<Longrightarrow> glead G t \<noteq> Some Y \<Longrightarrow> good (glead G') Y
      \<and> state rf = Leader \<and> currentTerm rf = t"
    and safe: "\<And>t Y t0 N. glead G' t = Some Y \<Longrightarrow> glead G t = None \<Longrightarrow> t0 < t \<Longrightarrow>
      choosable n (dterms s') G' t0 N \<Longrightarrow> has G' t0 N Y"
    and rep: "\<And>i q a r. i < n \<Longrightarrow> i \<noteq> p \<Longrightarrow> VoteRep i q a r \<in># M \<Longrightarrow> VoteRep i q a r \<in># net s
      \<or> (rvr_VoteGranted r \<longrightarrow> state (nodes s i) = Candidate \<longrightarrow> rv_Term a = currentTerm (nodes s i) \<longrightarrow>
          safe_log n (dterms s') G' q (currentTerm (nodes s i)) (gfull G i))"
    and req: "\<And>i q a. i < n \<Longrightarrow> i \<noteq> p \<Longrightarrow> VoteReq i q a \<in># M \<Longrightarrow> VoteReq i q a \<in># net s"
    and pkt: "\<And>m. m \<in># M \<Longrightarrow> m \<in># net s \<or> pkt_ok n G' m"
  shows "sinv n H' C' G' s'"
  unfolding sinv_def
proof (intro conjI allI impI ballI)
  have le: "ghost_le G G'" by (rule movesD(1) [OF mv])
  note inv' = evolves_cinv [OF ev]
  show "lead_inv n (dterms s') H' G' (nodes s')"
    by (rule lead_inv_frame [OF ev sinvD(5) [OF si] mv p _ safe]) (use new in \<open>simp_all add: s'\<close>)
  show "pkt_ok n G' m" if "m \<in># net s'" for m
    using that pkt [of m] pkt_ok_mono [OF sinvD(6) [OF si] le] by (auto simp: s')
  fix i assume i: "i < n"
  note d = sinvD(1-4) [OF si i]
  show "log_inv n (dterms s') G' i (nodes s' i)"
    using node(1) log_inv_frame [OF d(1) mv] by (cases "i = p") (simp_all add: s')
  show "commit_inv n G' i (nodes s' i)"
    using node(2) commit_inv_frame [OF d(2) mv] by (cases "i = p") (simp_all add: s')
  show "leader_inv n G' i (nodes s' i)"
  proof (cases "i = p")
    case False
    have "glead G' (currentTerm (nodes s i)) = glead G (currentTerm (nodes s i))" if l: "state (nodes s i) = Leader"
    proof -
      obtain Y where Y: "glead G' (currentTerm (nodes s i)) = Some Y"
        using d(3) l ghost_leD(1) [OF le] unfolding leader_inv_def by blast
      have "state (nodes s' i) = Leader" "nodes s' i = nodes s i" "nodes s' p = rf" using l False by (simp_all add: s')
      then show ?thesis
        using new [OF Y] one_leader [OF inv' i p] False Y
        by (cases "glead G (currentTerm (nodes s i)) = Some Y") auto
    qed
    then show ?thesis using leader_inv_frame [OF d(3) mv False] False by (simp add: s')
  qed (use node(3) in \<open>simp add: s'\<close>)
  show "cand_inv n (dterms s') G' (net s') C' i (nodes s' i)"
  proof (cases "i = p")
    case False
    have g: "gfull G' i = gfull G i" by (rule movesD(4) [OF mv False])
    have "cand_inv n (dterms s') G' M C' i (nodes s i)"
      by (rule cand_inv_frame [OF inv ev i d(4) mv g]) (use rep [OF i False] req [OF i False] g in auto)
    then show ?thesis using False by (simp add: s')
  qed (use node(4) in \<open>simp add: s'\<close>)
qed

section \<open>Steps that keep the logs\<close>

lemma full_terms:
  assumes "node_ok rf" and "log_inv n T G i rf" and "N < length (gfull G i)"
  shows "le_Term (gfull G i ! N) \<le> pterm (persister rf)"
proof -
  let ?F = "gfull G i"
  have F: "full_log ?F" by (rule good_full [OF log_invD(1) [OF assms(2)]])
  obtain f where f: "f < length ?F" "logs rf = view f ?F" using log_invD(2) [OF assms(2)] by blast
  have "le_Term (?F ! N) \<le> le_Term (?F ! (length ?F - 1))"
    by (rule full_log_mono [OF F]) (use assms(3) in linarith)+
  also have "\<dots> = le_Term (last (logs rf))"
    using full_log_last [OF F] last_view [OF full_log_simps(3) [OF F] f(1)] f(2) by simp
  also have "\<dots> \<le> pterm (persister rf)"
    using assms(1) last_in_set [of "logs rf"] by (auto simp: node_ok_def raft_wf_def log_ok_def)
  finally show ?thesis .
qed

lemma moves_same: "(\<And>q. T q \<le> T' q) \<Longrightarrow> moves T T' G G p"
  by (simp add: moves_def)

lemma evolves_terms: "evolves n H C s H' C' s' \<Longrightarrow> dterms s q \<le> dterms s' q"
  by (simp add: evolves_def advances_def)

lemma log_inv_same:
  assumes li: "log_inv n T G p rf" and ok: "node_ok rf" and T: "\<And>q. T q \<le> T' q"
    and pt: "pterm (persister rf) \<le> pterm (persister rf')"
    and lg: "f < length (gfull G p)" "logs rf' = view f (gfull G p)"
  shows "log_inv n T' G p rf'"
proof -
  note d = log_invD [OF li]
  show ?thesis
  proof (rule log_invI [OF d(1) lg])
    show "N \<in> gacks G p (pterm (persister rf'))"
      if N: "0 < N" "N < length (gfull G p)" "le_Term (gfull G p ! N) = pterm (persister rf')" for N
    proof -
      have "pterm (persister rf') = pterm (persister rf)"
        using full_terms [OF ok li N(2)] N(3) pt by simp
      then show ?thesis using d(3) N by simp
    qed
    show "acks_ok G p (pterm (persister rf'))"
      using acks_ok_frame [OF d(4) ghost_le_refl pt] by blast
    show "safe_log n T' G p t (gfull G p)" for t
      by (rule safe_log_frame [OF d(5) moves_same [of T T' G "Suc p", OF T]]) simp
  qed
qed

lemma sinv_same:
  assumes inv: "cinv n H C s" and si: "sinv n H C G s" and p: "p < n"
    and ev: "evolves n H C s H' C' s'" and s': "s' = put p rf M s"
    and lg: "\<exists>f. f < length (gfull G p) \<and> logs rf = view f (gfull G p)"
    and node: "commit_inv n G p rf" "leader_inv n G p rf" "cand_inv n (dterms s') G M C' p rf"
    and votes: "\<And>i q a r. i < n \<Longrightarrow> i \<noteq> p \<Longrightarrow> VoteRep i q a r \<in># M \<Longrightarrow> VoteRep i q a r \<in># net s
      \<or> (rvr_VoteGranted r \<longrightarrow> state (nodes s i) = Candidate \<longrightarrow> rv_Term a = currentTerm (nodes s i) \<longrightarrow>
          safe_log n (dterms s') G q (currentTerm (nodes s i)) (gfull G i))"
      "\<And>i q a. i < n \<Longrightarrow> i \<noteq> p \<Longrightarrow> VoteReq i q a \<in># M \<Longrightarrow> VoteReq i q a \<in># net s"
    and pkt: "\<And>m. m \<in># M \<Longrightarrow> m \<in># net s \<or> pkt_ok n G m"
  shows "sinv n H' C' G s'"
proof (rule sinv_frame [OF inv si p ev s' _ _ node _ _ votes pkt])
  show "moves (dterms s) (dterms s') G G p" by (rule moves_same [OF evolves_terms [OF ev]])
  obtain f where "f < length (gfull G p)" "logs rf = view f (gfull G p)" using lg by blast
  then show "log_inv n (dterms s') G p rf"
    using evolves_terms [OF ev, of p] s'
    by (intro log_inv_same [OF sinvD(1) [OF si p] peer_okD(1) [OF cinvD(1) [OF inv p]] evolves_terms [OF ev]])
       simp_all
qed auto

text \<open>A step in which peer \<open>p\<close> keeps its log and does not begin a candidacy.\<close>

lemma sinv_quiet:
  assumes inv: "cinv n H C s" and si: "sinv n H C G s" and p: "p < n"
    and ev: "evolves n H C s H' C' s'" and s': "s' = put p rf M s"
    and lg: "\<exists>f. f < length (gfull G p) \<and> logs rf = view f (gfull G p)"
    and node: "commit_inv n G p rf" "leader_inv n G p rf"
    and st: "state rf = Candidate \<Longrightarrow> state (nodes s p) = Candidate \<and> currentTerm rf = currentTerm (nodes s p)"
    and votes: "\<And>i q a r. VoteRep i q a r \<in># M \<Longrightarrow> VoteRep i q a r \<in># net s \<or> \<not> rvr_VoteGranted r"
      "\<And>i q a. VoteReq i q a \<in># M \<Longrightarrow> VoteReq i q a \<in># net s"
    and pkt: "\<And>m. m \<in># M \<Longrightarrow> m \<in># net s \<or> pkt_ok n G m"
  shows "sinv n H' C' G s'"
proof (rule sinv_same [OF inv si p ev s' lg node _ _ _ pkt])
  show "cand_inv n (dterms s') G M C' p rf"
    by (rule cand_inv_frame [OF inv ev p sinvD(4) [OF si p] moves_same [of "dterms s" "dterms s'" G p, OF evolves_terms [OF ev]] refl])
       (use st votes in blast)+
qed (use votes in blast)+

end
