(* ===== verification/RaftSteps.thy ===== *)
theory RaftSteps
  imports RaftGhost
begin

text \<open>
  The steps of the cluster that change no uncompacted log preserve the invariant of \<open>RaftGhost\<close>:
  timers, restarts, elections, requests and replies, compaction and delivery.
\<close>

section \<open>Steps that change no log\<close>

definition keeps :: "('c, 'b) Raft \<Rightarrow> ('c, 'b) Raft \<Rightarrow> bool" where
  "keeps rf rf' \<longleftrightarrow> logs rf' = logs rf \<and> lastApplied rf' = lastApplied rf
     \<and> commitIndex rf' = commitIndex rf \<and> applyCh rf' = applyCh rf \<and> pendingSnapshot rf' = pendingSnapshot rf
     \<and> (state rf' = Follower \<or> state rf' = state rf \<and> currentTerm rf' = currentTerm rf
          \<and> matchIndex rf' = matchIndex rf)"

lemma keeps_refl [simp]: "keeps rf rf"
  by (simp add: keeps_def)

lemma keeps_stepDown [simp]: "keeps rf (stepDown t rf)"
  by (cases "t > currentTerm rf") (simp_all add: keeps_def stepDown_def)

lemma keeps_simps [simp]:
  "keeps rf (asFollower t rf)" "keeps rf (adopt t rf)" "keeps rf (counted t rf)" "keeps rf (Kill rf)"
  "keeps rf (ticker_heartbeat rf)"
  by (simp_all add: keeps_def counted_def Kill_def ticker_heartbeat_def Let_def)

lemma keeps_voted [simp]: "keeps rf (voted a rf)"
  using keeps_stepDown [of rf "rv_Term a"] by (auto simp: keeps_def voted_def)

lemma committed_le:
  assumes "committed n G \<tau> c F" and "c' \<le> c"
  shows "committed n G \<tau> c' F"
proof (cases "c' = 0")
  case False
  then obtain t N X where t: "t \<le> \<tau>" "chosen n G t N" "glead G t = Some X" "c \<le> N" "N < length X"
    "take (Suc c) F = take (Suc c) X"
    using assms by (auto simp: committed_def)
  have "take (Suc c') F = take (Suc c') X"
    using arg_cong [OF t(6), of "take (Suc c')"] assms(2) by (simp add: min_absorb1)
  then show ?thesis
    using t(1,4,5) assms by (intro committedI [OF t(2,3)]) (auto simp: committed_def)
qed (use assms in \<open>auto simp: committed_def\<close>)

lemma commit_invD:
  assumes "commit_inv n G i rf"
  shows "lastApplied rf \<le> commitIndex rf"
    and "committed n G (pterm (persister rf)) (nat (commitIndex rf)) (gfull G i)"
    and "m \<in> set (applyCh rf) \<Longrightarrow> delivered n G m"
    and "pendingSnapshot rf = Some m \<Longrightarrow> \<not> am_CommandValid m"
  using assms by (simp_all add: commit_inv_def)

lemma keeps_commit:
  assumes "commit_inv n G p rf" and "keeps rf rf'" and "pterm (persister rf) \<le> pterm (persister rf')"
  shows "commit_inv n G p rf'"
  using assms(1,2) committed_grown [OF commit_invD(2) [OF assms(1)] ghost_le_refl assms(3)]
  by (simp add: commit_inv_def keeps_def)

lemma keeps_leader: "leader_inv n G p rf \<Longrightarrow> keeps rf rf' \<Longrightarrow> leader_inv n G p rf'"
  by (auto simp: leader_inv_def keeps_def)

lemma safe_keeps:
  assumes inv: "cinv n H C s" and si: "sinv n H C G s" and p: "p < n"
    and ev: "evolves n H C s H' C' s'" and s': "s' = put p rf M s"
    and k: "keeps (nodes s p) rf"
    and votes: "\<And>i q a r. VoteRep i q a r \<in># M \<Longrightarrow> VoteRep i q a r \<in># net s \<or> \<not> rvr_VoteGranted r"
      "\<And>i q a. VoteReq i q a \<in># M \<Longrightarrow> VoteReq i q a \<in># net s"
    and pkt: "\<And>m. m \<in># M \<Longrightarrow> m \<in># net s \<or> pkt_ok n G m"
  shows "sinv n H' C' G s'"
proof (rule sinv_quiet [OF inv si p ev s' _ _ _ _ votes pkt])
  have "pterm (disk s p) \<le> pterm (persister rf)" using evolves_terms [OF ev, of p] s' by simp
  then show "commit_inv n G p rf" by (rule keeps_commit [OF sinvD(2) [OF si p] k])
  show "leader_inv n G p rf" by (rule keeps_leader [OF sinvD(3) [OF si p] k])
  show "\<exists>f. f < length (gfull G p) \<and> logs rf = view f (gfull G p)"
    using log_invD(2) [OF sinvD(1) [OF si p]] k by (simp add: keeps_def)
  show "state rf = Candidate \<Longrightarrow> state (nodes s p) = Candidate \<and> currentTerm rf = currentTerm (nodes s p)"
    using k by (auto simp: keeps_def)
qed

lemma view_of:
  assumes "node_ok rf" and "log_inv n T G i rf" and "commit_inv n G i rf"
  obtains f where "f < length (gfull G i)" "logs rf = view f (gfull G i)" "int f \<le> lastApplied rf"
    "f \<le> nat (commitIndex rf)"
proof -
  obtain f where f: "f < length (gfull G i)" "logs rf = view f (gfull G i)"
    using log_invD(2) [OF assms(2)] by blast
  have "int f \<le> lastApplied rf" using assms(1) f(2) by (simp add: node_ok_def)
  moreover from this have "f \<le> nat (commitIndex rf)" using commit_invD(1) [OF assms(3)] by linarith
  ultimately show thesis using that f by blast
qed

text \<open>A restart loses what is not on disk.\<close>

lemma safe_restart:
  assumes inv: "cinv n H C s" and si: "sinv n H C G s" and p: "p < n"
    and ev: "evolves n H C s H' C' s'" and s': "s' = put p rf (net s) s"
    and r: "rf = revived n p (persister rf1)" "node_ok rf1" "logs rf1 = logs (nodes s p)"
  shows "sinv n H' C' G s'"
proof (rule sinv_quiet [OF inv si p ev s'])
  obtain f where f: "f < length (gfull G p)" "logs (nodes s p) = view f (gfull G p)"
    "f \<le> nat (commitIndex (nodes s p))"
    by (rule view_of [OF peer_okD(1) [OF cinvD(1) [OF inv p]] sinvD(1,2) [OF si p]])
  obtain t v where sv: "saved (persister rf1) = (t, v, logs (nodes s p), lastIncludedIndex rf1, lastIncludedTerm rf1)"
    using r(2,3) by (cases "saved (persister rf1)") (auto simp: node_ok_def)
  have rv: "logs rf = logs (nodes s p)" "commitIndex rf = int f" "lastApplied rf = int f" "applyCh rf = []"
    "pendingSnapshot rf = None" "state rf = Follower"
    using f(2) sv by (simp_all add: r(1) revived_def boot_def)
  show "\<exists>f. f < length (gfull G p) \<and> logs rf = view f (gfull G p)" using f(1,2) rv(1) by auto
  show "leader_inv n G p rf" using rv(6) by (simp add: leader_inv_def)
  show "state rf = Candidate \<Longrightarrow> state (nodes s p) = Candidate \<and> currentTerm rf = currentTerm (nodes s p)"
    using rv(6) by simp
  note c = commit_invD [OF sinvD(2) [OF si p]]
  have "pterm (disk s p) \<le> pterm (persister rf)" using evolves_terms [OF ev, of p] s' by simp
  then have "committed n G (pterm (persister rf)) f (gfull G p)"
    by (rule committed_grown [OF committed_le [OF c(2) f(3)] ghost_le_refl])
  then show "commit_inv n G p rf" using rv by (simp add: commit_inv_def)
qed auto

section \<open>Elections\<close>

lemma acks_okD:
  assumes "acks_ok G p \<tau>" and "N \<in> gacks G p t"
  shows "0 < N" and "t \<le> \<tau>" and "\<exists>X. glead G t = Some X"
    and "glead G t = Some X \<Longrightarrow> N < length X \<and> le_Term (X ! N) = t"
  using assms unfolding acks_ok_def by force+

lemma good_last:
  assumes "good L F" and "1 < length F"
  shows "\<exists>Y. L (le_Term (last F)) = Some Y \<and> prefix F Y"
proof -
  let ?k = "length F - 1"
  have k: "0 < ?k" "?k < length F" "take (Suc ?k) F = F" using assms(2) by auto
  show ?thesis
    using goodD [OF assms(1) k(1,2)] full_log_last [OF good_full [OF assms(1)]] unfolding k(3) by simp
qed

lemma last_term:
  assumes "full_log F"
  shows "k < length F \<Longrightarrow> le_Term (F ! k) \<le> le_Term (last F)" and "length F = 1 \<Longrightarrow> le_Term (last F) = 0"
proof -
  show "k < length F \<Longrightarrow> le_Term (F ! k) \<le> le_Term (last F)"
    unfolding full_log_last [OF assms] by (rule full_log_mono [OF assms]) linarith+
  show "length F = 1 \<Longrightarrow> le_Term (last F) = 0"
    using full_log_last [OF assms] full_log_simps(6) [OF assms] by simp
qed

text \<open>
  The heart of leader completeness: a candidate whose log is at least as up to date as the log
  of a voter has every entry the voter stored that can still be chosen.
\<close>

lemma up_to_date_has:
  assumes si: "sinv n H C G s" and p: "p < n" and i: "i < n"
    and N: "N \<in> gacks G p t0" "choosable n (dterms s) G t0 N"
    and up: "le_Term (last (gfull G p)) < le_Term (last (gfull G i))
      \<or> le_Term (last (gfull G p)) = le_Term (last (gfull G i)) \<and> length (gfull G p) \<le> length (gfull G i)"
  shows "has G t0 N (gfull G i)"
proof -
  let ?P = "gfull G p" and ?I = "gfull G i"
  note dp = log_invD [OF sinvD(1) [OF si p]] and di = log_invD [OF sinvD(1) [OF si i]]
  note fp = good_full [OF dp(1)] and fi = good_full [OF di(1)]
  have hp: "has G t0 N ?P" by (rule safe_logD [OF dp(5) [of "t0 + 1"] _ N]) simp
  then obtain X where X: "glead G t0 = Some X" "N < length X" "prefix (take (Suc N) X) ?P"
    by (auto simp: has_def)
  have N0: "0 < N" "le_Term (X ! N) = t0" using acks_okD [OF dp(4) N(1)] X(1) by auto
  have NP: "N < length ?P" using prefix_length_le [OF X(3)] X(2) by simp
  have "?P ! N = X ! N" using nth_prefix [OF X(3), of N] X(2) by simp
  then have tp: "t0 \<le> le_Term (last ?P)" using last_term(1) [OF fp NP] N0(2) by simp
  have "length ?I \<noteq> 1"
    using up last_term(2) [OF fi] last_term(1) [OF fp NP] full_log_term [OF fp NP] NP N0(1) by auto
  then have "1 < length ?I" using full_log_simps(4) [OF fi] by linarith
  then obtain Y where Y: "glead G (le_Term (last ?I)) = Some Y" "prefix ?I Y"
    using good_last [OF di(1)] by blast
  show ?thesis
    using up
  proof
    assume eq: "le_Term (last ?P) = le_Term (last ?I) \<and> length ?P \<le> length ?I"
    obtain Y' where "glead G (le_Term (last ?P)) = Some Y'" "prefix ?P Y'"
      using good_last [OF dp(1)] NP N0(1) by force
    then have "prefix ?P ?I" using Y eq prefix_length_prefix [of ?P Y ?I] by simp
    then show ?thesis using has_mono [OF hp ghost_le_refl] by blast
  next
    assume lt: "le_Term (last ?P) < le_Term (last ?I)"
    have "has G t0 N Y" by (rule lead_invD(3) [OF sinvD(5) [OF si] Y(1) _ N(2)]) (use tp lt in simp)
    then have XY: "prefix (take (Suc N) X) Y" using X(1) by (auto simp: has_def)
    have "\<not> length ?I \<le> N"
    proof
      assume le: "length ?I \<le> N"
      have "take (Suc N) X ! (length ?I - 1) = ?I ! (length ?I - 1)"
        using nth_prefix [OF XY] nth_prefix [OF Y(2)] full_log_simps(4) [OF fi] le X(2) by simp
      then have "le_Term (last ?I) \<le> le_Term (X ! N)"
        using le X(2) full_log_last [OF fi] full_log_mono [OF good_full [OF lead_invD(1) [OF sinvD(5) [OF si] X(1)]], of "length ?I - 1" N]
        by simp
      then show False using N0(2) tp lt by simp
    qed
    then have "prefix (take (Suc N) X) ?I" by (intro prefix_length_prefix [OF XY Y(2)]) simp
    then show ?thesis using X(1,2) by (auto simp: has_def)
  qed
qed

text \<open>The last entry of a peer's log is that of its full log.\<close>

lemma log_inv_last:
  assumes "log_inv n T G i rf"
  shows "lastIdx (logs rf) = int (length (gfull G i)) - 1" and "le_Term (last (logs rf)) = le_Term (last (gfull G i))"
proof -
  note F = good_full [OF log_invD(1) [OF assms]]
  obtain f where f: "f < length (gfull G i)" "logs rf = view f (gfull G i)" using log_invD(2) [OF assms] by blast
  show "lastIdx (logs rf) = int (length (gfull G i)) - 1" using lastIdx_view [OF F f(1)] f(2) by simp
  show "le_Term (last (logs rf)) = le_Term (last (gfull G i))"
    using last_view [OF full_log_simps(3) [OF F] f(1)] f(2) by simp
qed

lemma safe_log_same:
  assumes "safe_log n T G q t F" and "\<And>q. T q \<le> T' q"
  shows "safe_log n T' G q t F"
  by (rule safe_log_frame [OF assms(1) moves_same [of T T' G "Suc q", OF assms(2)]]) simp

lemma safe_campaign:
  assumes inv: "cinv n H C s" and si: "sinv n H C G s" and i: "i < n"
    and ev: "evolves n H C s H' C' s'"
    and s': "s' = put i (campaign (nodes s i)) (net s + R) s"
    and R: "\<And>m. m \<in># R \<Longrightarrow> \<exists>p. m = VoteReq i p (ballot (nodes s i))"
  shows "sinv n H' C' G s'"
proof (rule sinv_same [OF inv si i ev s'])
  let ?rf = "nodes s i"
  let ?t = "currentTerm ?rf + 1"
  note p = cinvD(1) [OF inv i]
  note d = peer_okD [OF p] and li = sinvD(1) [OF si i]
  show "\<exists>f. f < length (gfull G i) \<and> logs (campaign ?rf) = view f (gfull G i)"
    using log_invD(2) [OF li] by simp
  have le: "pterm (disk s i) \<le> ?t" using d(7) by simp
  show "commit_inv n G i (campaign ?rf)"
    using sinvD(2) [OF si i] committed_grown [OF commit_invD(2) [OF sinvD(2) [OF si i]] ghost_le_refl le]
    unfolding commit_inv_def campaign_simps by (simp add: campaign_def raised_def)
  show "leader_inv n G i (campaign ?rf)" by (simp add: leader_inv_def)
  have old: "rv_Term a \<noteq> ?t" if "VoteRep i q a r \<in># net s \<or> VoteReq i q a \<in># net s" for q a r
    using that cinvD(4) [OF inv, of "VoteRep i q a r"] cinvD(4) [OF inv, of "VoteReq i q a"] d(7) by auto
  have "C i ?t = {}" using p d(7) by (force simp: peer_ok_def tally_ok_def)
  then have C': "C' i ?t = {}" using ev old unfolding evolves_def by blast
  have own: "safe_log n (dterms s') G i ?t (gfull G i)"
    by (rule safe_log_same [OF log_invD(5) [OF li] evolves_terms [OF ev]])
  have "rv_LastLogIndex (ballot ?rf) = int (length (gfull G i)) - 1"
    "rv_LastLogTerm (ballot ?rf) = le_Term (last (gfull G i))"
    using log_inv_last [OF li] by (simp_all add: ballot_def)
  then show "cand_inv n (dterms s') G (net s + R) C' i (campaign ?rf)"
    unfolding cand_inv_def using C' own old R by (fastforce dest!: R)
qed (use R in force)+

lemma safe_grant:
  assumes inv: "cinv n H C s" and si: "sinv n H C G s" and m: "VoteReq i p a \<in># net s"
    and ev: "evolves n H C s H' C' s'"
    and s': "s' = put p (voted a (nodes s p)) (net s - {#VoteReq i p a#} + {#VoteRep i p a r#}) s"
    and up: "upToDate a (logs (nodes s p))"
  shows "sinv n H' C' G s'"
proof -
  let ?rf = "nodes s p" and ?M = "net s - {#VoteReq i p a#} + {#VoteRep i p a r#}"
  have pk: "i < n" "p < n" "p \<noteq> i" using cinvD(4) [OF inv m] by auto
  have le: "pterm (disk s p) \<le> pterm (persister (voted a ?rf))" using evolves_terms [OF ev, of p] s' by simp
  have sub: "x \<in># net s \<or> x = VoteRep i p a r" if "x \<in># ?M" for x using that by (auto dest: in_diffD)
  have new: "safe_log n (dterms s') G p (currentTerm (nodes s i)) (gfull G i)"
    if c: "state (nodes s i) = Candidate" "rv_Term a = currentTerm (nodes s i)"
  proof (rule safe_log_same [OF _ evolves_terms [OF ev]])
    have "rv_LastLogIndex a = int (length (gfull G i)) - 1 \<and> rv_LastLogTerm a = le_Term (last (gfull G i))"
      using sinvD(4) [OF si pk(1)] c m unfolding cand_inv_def by blast
    then have "le_Term (last (gfull G p)) < le_Term (last (gfull G i))
      \<or> le_Term (last (gfull G p)) = le_Term (last (gfull G i)) \<and> length (gfull G p) \<le> length (gfull G i)"
      using up log_inv_last [OF sinvD(1) [OF si pk(2)]] by (auto simp: upToDate_def)
    then show "safe_log n (dterms s) G p (currentTerm (nodes s i)) (gfull G i)"
      unfolding safe_log_def using up_to_date_has [OF si pk(2,1)] by blast
  qed
  show ?thesis
  proof (rule sinv_same [OF inv si pk(2) ev s'])
    show "\<exists>f. f < length (gfull G p) \<and> logs (voted a ?rf) = view f (gfull G p)"
      using log_invD(2) [OF sinvD(1) [OF si pk(2)]] by simp
    show "commit_inv n G p (voted a ?rf)" by (rule keeps_commit [OF sinvD(2) [OF si pk(2)] keeps_voted le])
    show "leader_inv n G p (voted a ?rf)" by (rule keeps_leader [OF sinvD(3) [OF si pk(2)] keeps_voted])
    show "cand_inv n (dterms s') G ?M C' p (voted a ?rf)"
    proof (rule cand_inv_frame [OF inv ev pk(2) sinvD(4) [OF si pk(2)]
          moves_same [of "dterms s" "dterms s'" G p, OF evolves_terms [OF ev]] refl])
      show "state ?rf = Candidate \<and> currentTerm (voted a ?rf) = currentTerm ?rf"
        if "state (voted a ?rf) = Candidate"
        using that keeps_voted [of ?rf a] unfolding keeps_def by simp
      show "VoteRep p q b u \<in># net s \<or> (rvr_VoteGranted u \<longrightarrow> state (voted a ?rf) = Candidate \<longrightarrow>
          rv_Term b = currentTerm (voted a ?rf) \<longrightarrow>
          safe_log n (dterms s') G q (currentTerm (voted a ?rf)) (gfull G p))"
        if "VoteRep p q b u \<in># ?M" for q b u using sub [OF that] pk(3) by simp
      show "VoteReq p q b \<in># net s" if "VoteReq p q b \<in># ?M" for q b using sub [OF that] by simp
    qed
    show "VoteRep j q b u \<in># net s \<or> (rvr_VoteGranted u \<longrightarrow> state (nodes s j) = Candidate \<longrightarrow>
        rv_Term b = currentTerm (nodes s j) \<longrightarrow> safe_log n (dterms s') G q (currentTerm (nodes s j)) (gfull G j))"
      if "VoteRep j q b u \<in># ?M" for j q b u using sub [OF that] new by auto
    show "VoteReq j q b \<in># net s" if "VoteReq j q b \<in># ?M" for j q b using sub [OF that] by simp
    show "x \<in># net s \<or> pkt_ok n G x" if "x \<in># ?M" for x using sub [OF that] by auto
  qed
qed

text \<open>A log invariant depends on the log and the disk only.\<close>

lemma log_inv_cong:
  "log_inv n T G i rf \<Longrightarrow> logs rf' = logs rf \<Longrightarrow> persister rf' = persister rf \<Longrightarrow> log_inv n T G i rf'"
  by (simp add: log_inv_def)

lemma commit_inv_cong:
  "commit_inv n G i rf \<Longrightarrow> persister rf' = persister rf \<Longrightarrow> lastApplied rf' = lastApplied rf \<Longrightarrow>
     commitIndex rf' = commitIndex rf \<Longrightarrow> applyCh rf' = applyCh rf \<Longrightarrow>
     pendingSnapshot rf' = pendingSnapshot rf \<Longrightarrow> commit_inv n G i rf'"
  by (simp add: commit_inv_def)

text \<open>No term is led twice.\<close>

lemma fresh_term:
  assumes ev: "evolves n H C s H' C' s'" and si: "sinv n H C G s" and i: "i < n"
    and c: "state (nodes s i) = Candidate" "currentTerm (nodes s i) = t"
    and l: "state (nodes s' i) = Leader" "currentTerm (nodes s' i) = t"
  shows "glead G t = None"
proof (rule ccontr)
  assume "glead G t \<noteq> None"
  then obtain Y where "glead G t = Some Y" by auto
  from lead_invD(2) [OF sinvD(5) [OF si] this]
  obtain j Q where j: "majority n Q" "\<And>p. p \<in> Q \<Longrightarrow> H p t = Some (int j)"
    "currentTerm (nodes s j) = t \<Longrightarrow> state (nodes s j) \<noteq> Candidate"
    by blast
  have "H' p t = Some (int j)" if "p \<in> Q" for p using j(2) [OF that] ev unfolding evolves_def by blast
  moreover note lq = leader_quorum [OF evolves_cinv [OF ev] i l(1), unfolded l(2)]
  ultimately have "int j = int i" using maj.one_winner [OF j(1) lq(1), of "\<lambda>p. H' p t"] by blast
  then show False using j(3) c by simp
qed

text \<open>The votes of a new leader make its log safe.\<close>

lemma elected_safe:
  assumes inv: "cinv n H C s" and si: "sinv n H C G s" and ev: "evolves n H C s H' C' s'" and i: "i < n"
    and c: "state (nodes s i) = Candidate" "currentTerm (nodes s i) = t"
    and l: "state (nodes s' i) = Leader" "currentTerm (nodes s' i) = t"
    and N: "t0 < t" "choosable n (dterms s') G t0 N"
  shows "has G t0 N (gfull G i)"
proof -
  let ?Q = "insert i (C' i t)"
  note inv' = evolves_cinv [OF ev]
  note lq = leader_quorum [OF inv' i l(1), unfolded l(2)]
  obtain Q where Q: "majority n Q" "\<And>p. p \<in> Q \<Longrightarrow> N \<in> gacks G p t0 \<or> dterms s' p \<le> t0"
    using N(2) by (auto simp: choosable_def)
  obtain p where p: "p \<in> Q" "p \<in> ?Q" using maj.meet [OF Q(1) lq(1)] by blast
  have pn: "p < n" using p(1) Q(1) by (auto simp: majority_def)
  have "t \<le> dterms s' p" by (rule voter_term [OF inv' pn lq(2) [OF p(2)]])
  then have NA: "N \<in> gacks G p t0" using Q(2) [OF p(1)] N(1) by auto
  have "p \<in> insert i (C i t) \<or> (\<exists>a r. VoteRep i p a r \<in># net s \<and> rvr_VoteGranted r \<and> rv_Term a = t)"
    using p(2) ev unfolding evolves_def by blast
  then have "safe_log n (dterms s) G p t (gfull G i)"
    using sinvD(4) [OF si i] c(1) unfolding cand_inv_def c(2) by blast
  then show ?thesis
    using safe_logD [OF _ N(1) NA] choosable_back [OF N(2) moves_same [OF evolves_terms [OF ev]]] by blast
qed

lemma safe_elect:
  assumes inv: "cinv n H C s" and si: "sinv n H C G s" and i: "i < n"
    and ev: "evolves n H C s H' C' s'" and s': "s' = put i (elected t (nodes s i)) M s"
    and c: "state (nodes s i) = Candidate" "currentTerm (nodes s i) = t"
    and M: "\<And>m. m \<in># M \<Longrightarrow> m \<in># net s"
  shows "\<exists>G'. sinv n H' C' G' s' \<and> ghost_le G G'"
proof -
  let ?rf = "nodes s i" and ?F = "gfull G i"
  let ?G = "G\<lparr>glead := (glead G)(t \<mapsto> ?F)\<rparr>"
  have l: "state (nodes s' i) = Leader" "currentTerm (nodes s' i) = t" using c by (simp_all add: s')
  have fresh: "glead G t = None" by (rule fresh_term [OF ev si i c l])
  have le: "ghost_le G ?G" using fresh by (auto simp: ghost_le_def grown_def)
  have mv: "moves (dterms s) (dterms s') G ?G p" for p using le evolves_terms [OF ev] by (simp add: moves_def)
  note li = sinvD(1) [OF si i]
  have "sinv n H' C' ?G s'"
  proof (rule sinv_frame [OF inv si i ev s' mv])
    have "log_inv n (dterms s') ?G i ?rf" by (rule log_inv_frame [OF li mv [of "Suc i"]]) simp
    then show "log_inv n (dterms s') ?G i (elected t ?rf)" by (rule log_inv_cong) simp_all
    have "commit_inv n ?G i ?rf" by (rule commit_inv_frame [OF sinvD(2) [OF si i] mv [of "Suc i"]]) simp
    then show "commit_inv n ?G i (elected t ?rf)"
      by (rule commit_inv_cong) (simp_all add: elected_def counted_def)
    have "le_Term (?F ! N) \<noteq> t" if "0 < N" "N < length ?F" for N
      using goodD [OF log_invD(1) [OF li] that] fresh by auto
    then have ak: "acked ?G p t m" if "m < int (length ?F)" for p m using that by (auto simp: acked_def)
    have n: "npeers ?rf = n" "me ?rf = i" using peer_okD(2,3) [OF cinvD(1) [OF inv i]] by auto
    have "matchIndex (elected t ?rf) ! p < int (length ?F)" if "p < n" for p
      using that i n c(1) log_inv_last(1) [OF li] full_log_simps(4) [OF good_full [OF log_invD(1) [OF li]]]
      by (simp add: elected_def toLeader_def nth_list_update)
    then show "leader_inv n ?G i (elected t ?rf)" using ak c(2) by (auto simp: leader_inv_def)
    show "cand_inv n (dterms s') ?G M C' i (elected t ?rf)" by (simp add: cand_inv_def)
    show "good (glead ?G) Y \<and> state (elected t ?rf) = Leader \<and> currentTerm (elected t ?rf) = t'"
      if "glead ?G t' = Some Y" "glead G t' \<noteq> Some Y" for t' Y
      using that c(2) ghost_le_good [OF log_invD(1) [OF li] le] by (simp split: if_splits)
    show "has ?G t0 N Y" if "glead ?G t' = Some Y" "glead G t' = None" "t0 < t'" "choosable n (dterms s') ?G t0 N" for t' Y t0 N
    proof -
      have t': "t' = t" "Y = ?F" using that(1,2) by (simp_all split: if_splits)
      have "choosable n (dterms s') G t0 N" using that(4) by (simp add: choosable_def)
      then have "has G t0 N ?F" using elected_safe [OF inv si ev i c l] that(3) t'(1) by blast
      then show ?thesis using has_mono [OF _ le] t'(2) by blast
    qed
  qed (use M in auto)
  then show ?thesis using le by blast
qed

section \<open>Replication\<close>

lemma drop_view: "f \<le> k \<Longrightarrow> drop (Suc (k - f)) (view f F) = drop (Suc k) F"
  by (simp add: view_def generateSingleLog_def)

lemma doSend_cases:
  assumes "raft_wf rf" and "p < npeers rf" and "doSendAppendEntry p rf = Some (Some q)"
  obtains (snapshot) b where "state rf = Leader" "q = ReqSnapshot b" "is_Term b = currentTerm rf"
      "is_LastIncludedIndex b = firstIdx (logs rf)" "is_LastIncludedTerm b = le_Term (hd (logs rf))"
    | (entries) a prev where "state rf = Leader" "q = ReqAppend a" "firstIdx (logs rf) \<le> prev"
      "genAppendEntryArgs prev rf = Some a"
proof -
  have lo: "log_ok (logs rf)" and len: "length (nextIndex rf) = npeers rf"
    using assms(1) by (auto simp: raft_wf_def arrays_ok_def)
  have ds: "doSendAppendEntry p rf = (if state rf \<noteq> Leader then Some None
      else if nextIndex rf ! p - 1 < firstIdx (logs rf)
      then do { args \<leftarrow> makeInstallSnapShotArgs rf; Some (Some (ReqSnapshot args)) }
      else do { args \<leftarrow> genAppendEntryArgs (nextIndex rf ! p - 1) rf; Some (Some (ReqAppend args)) })"
    using assms(2) len
    by (simp add: doSendAppendEntry_def getFirstLog_ok [OF lo] go_simps Let_def flip: firstIdx_def)
  show ?thesis
  proof (cases "nextIndex rf ! p - 1 < firstIdx (logs rf)")
    case True
    then show ?thesis
      using assms(3) snapshot unfolding ds
      by (auto simp: makeInstallSnapShotArgs_def getFirstLog_ok [OF lo] firstIdx_def split: if_splits)
  next
    case False
    then show ?thesis
      using assms(3) entries [of _ "nextIndex rf ! p - 1"] unfolding ds
      by (auto simp: bind_eq_Some_conv split: if_splits)
  qed
qed

text \<open>A leader has every chosen entry of its own and of earlier terms.\<close>

lemma leader_has:
  assumes si: "sinv n H C G s" and i: "i < n" and l: "state (nodes s i) = Leader"
    and t: "chosen n G t N" "t \<le> currentTerm (nodes s i)" "glead G t = Some X" "N < length X"
  shows "has G t N (gfull G i)"
proof -
  have F: "glead G (currentTerm (nodes s i)) = Some (gfull G i)"
    using sinvD(3) [OF si i] l by (simp add: leader_inv_def)
  show ?thesis
  proof (cases "t = currentTerm (nodes s i)")
    case True
    then show ?thesis using F t(3,4) by (simp add: has_def take_is_prefix)
  next
    case False
    then have "t < currentTerm (nodes s i)" using t(2) by simp
    then show ?thesis by (rule lead_invD(3) [OF sinvD(5) [OF si] F _ chosen_choosable [OF t(1)]])
  qed
qed

lemma safe_send:
  assumes inv: "cinv n H C s" and si: "sinv n H C G s" and i: "i < n" "p < n"
    and ds: "doSendAppendEntry p (nodes s i) = Some (Some q)"
  shows "pkt_ok n G (packet_of i p q)"
proof -
  let ?rf = "nodes s i" and ?F = "gfull G i"
  note d = peer_okD [OF cinvD(1) [OF inv i(1)]] and li = sinvD(1) [OF si i(1)] and ci = commit_invD [OF sinvD(2) [OF si i(1)]]
  note F = good_full [OF log_invD(1) [OF li]]
  have pn: "p < npeers ?rf" using d(3) i(2) by simp
  obtain f where f: "f < length ?F" "logs ?rf = view f ?F" and fc: "f \<le> nat (commitIndex ?rf)"
    by (rule view_of [OF d(1) li sinvD(2) [OF si i(1)]])
  from d(4) pn ds show ?thesis
  proof (cases rule: doSend_cases)
    case (snapshot b)
    have t: "dterms s i = currentTerm ?rf" using d(8) snapshot(1) by simp
    have "glead G (currentTerm ?rf) = Some ?F" using sinvD(3) [OF si i(1)] snapshot(1) by (simp add: leader_inv_def)
    moreover have "committed n G (currentTerm ?rf) f ?F" using committed_le [OF ci(2) fc] t by simp
    moreover have "le_Term (hd (logs ?rf)) = le_Term (?F ! f)" using f by (simp add: view_def)
    ultimately show ?thesis using snapshot f(2) by (auto simp: packet_of_def snap_ok_def)
  next
    case (entries a prev)
    let ?M = "length ?F - 1"
    define k where "k = nat (min prev (lastIdx (logs ?rf)))"
    have t: "dterms s i = currentTerm ?rf" using d(8) entries(1) by simp
    have L: "glead G (currentTerm ?rf) = Some ?F" using sinvD(3) [OF si i(1)] entries(1) by (simp add: leader_inv_def)
    have last: "lastIdx (logs ?rf) = int ?M" using log_inv_last(1) [OF li] f(1) by simp
    have k: "f \<le> k" "k \<le> ?M" "min prev (lastIdx (logs ?rf)) = int k"
      using entries(3) f last by (auto simp: min_def k_def)
    have a: "ae_Term a = currentTerm ?rf" "ae_PrevLogIndex a = int k" "ae_LeaderCommit a = commitIndex ?rf"
      "ae_PrevLogTerm a = termAt (logs ?rf) (int k)"
      "ae_Entries a = drop (nat (int k + 1 - firstIdx (logs ?rf))) (logs ?rf)"
      using genAppendEntryArgs_ok [OF d(5) entries(3)] entries(4) unfolding k(3) Let_def by auto
    have "nat (int k + 1 - int f) = Suc (k - f)" using k(1) by auto
    then have en: "ae_Entries a = drop (Suc k) (take (Suc ?M) ?F)"
      using a(5) drop_view [OF k(1), of ?F] f(2) by simp
    have pt: "ae_PrevLogTerm a = le_Term (?F ! k)" using a(4) f k termAt_view [of f k ?F] by simp
    have "ae_LeaderCommit a \<le> 0 \<or> (\<exists>t N. t \<le> ae_Term a \<and> chosen n G t N
        \<and> ae_LeaderCommit a \<le> int N \<and> N \<le> ?M \<and> has G t N ?F)"
    proof (cases "commitIndex ?rf \<le> 0")
      case False
      then obtain t N X where N: "t \<le> currentTerm ?rf" "chosen n G t N" "glead G t = Some X" "nat (commitIndex ?rf) \<le> N" "N < length X"
        using ci(2) t by (auto simp: committed_def)
      have h: "has G t N ?F" by (rule leader_has [OF si i(1) entries(1) N(2,1,3,5)])
      then have "N \<le> ?M" using N(3,5) by (auto simp: has_def dest: prefix_length_le)
      then show ?thesis using h N(1,2,4) a(1,3) by auto
    qed (use a(3) in simp)
    then show ?thesis
      unfolding packet_of_def entries(2) using L a(1,2) en pt k(2) f(1)
      by (simp add: app_ok_def) (intro exI [of _ k] exI [of _ ?M], simp)
  qed
qed

text \<open>The reply to a request for entries.\<close>

lemma handleReply_cases:
  assumes "node_ok rf" and "p < npeers rf"
    and "isValidLeader (ae_Term a) rf \<longrightarrow> ae_PrevLogIndex a \<le> lastIdx (logs rf)"
    and "handleAppendEntryReply p a r rf = Some rf'"
  obtains (keep) "keeps rf rf'"
    | (accept) m where "state rf = Leader" "currentTerm rf = ae_Term a" "aer_Success r"
      "m = ae_PrevLogIndex a + int (length (ae_Entries a))"
      "rf' = acceptCommit (rf\<lparr>matchIndex := (matchIndex rf)[p := m], nextIndex := (nextIndex rf)[p := m + 1]\<rparr>)"
proof -
  have wf: "raft_wf rf" by (rule node_ok_wf [OF assms(1)])
  note lo = raft_wf_log [OF wf] raft_wf_arrays [OF wf]
  consider "\<not> isValidLeader (ae_Term a) rf" | "isValidLeader (ae_Term a) rf" "aer_Success r"
    | "isValidLeader (ae_Term a) rf" "\<not> aer_Success r" by blast
  then show thesis
  proof cases
    case 1
    then show thesis using assms(4) keep by (simp add: handleAppendEntryReply_def)
  next
    case 2
    then show thesis
      using assms(4) accept unfolding handleAppendEntryReply_def
      by (simp add: acceptNewLogEntries_ok [OF lo assms(2)] Let_def isValidLeader_def)
  next
    case 3
    obtain k where k: "rollBackToConflictTerm p a r rf = Some (rf\<lparr>nextIndex := (nextIndex rf)[p := k]\<rparr>)"
      using rollBack_result [OF wf assms(2), of a r] assms(3) 3(1) by auto
    have "keeps rf (emit es (rf\<lparr>nextIndex := x\<rparr>))" for es x by (simp add: keeps_def)
    then show thesis
      using 3 assms(4) k keep keeps_stepDown [of rf "aer_Term r"]
      by (auto simp: handleAppendEntryReply_def updateTermAndStepDown_ok split: if_splits)
  qed
qed

lemma leader_inv_match:
  assumes "leader_inv n G i rf" and "acked G p (currentTerm rf) m"
  shows "leader_inv n G i (rf\<lparr>matchIndex := (matchIndex rf)[p := m], nextIndex := x\<rparr>)"
proof -
  have "(matchIndex rf)[p := m] ! q = (if q = p \<and> p < length (matchIndex rf) then m else matchIndex rf ! q)" for q
    by (cases "q = p") (simp_all add: list_update_beyond)
  then show ?thesis using assms by (auto simp: leader_inv_def)
qed

text \<open>An index the leader commits is chosen.\<close>

lemma accept_chosen:
  assumes "leader_inv n G i rf" and "log_inv n T G i rf" and "raft_wf rf" and "npeers rf = n"
    and "state rf = Leader" and "0 < c" and "c = majorityMatch (matchIndex rf)"
    and "firstIdx (logs rf) \<le> c" and "c \<le> lastIdx (logs rf)" and "currentTerm rf = termAt (logs rf) c"
  shows "chosen n G (currentTerm rf) (nat c)" and "nat c < length (gfull G i)"
proof -
  let ?Q = "{p. p < n \<and> c \<le> matchIndex rf ! p}"
  obtain f where f: "f < length (gfull G i)" "logs rf = view f (gfull G i)" using log_invD(2) [OF assms(2)] by blast
  show c: "nat c < length (gfull G i)" using assms(6,9) log_inv_last(1) [OF assms(2)] by simp
  have "le_Term (gfull G i ! nat c) = currentTerm rf"
    using termAt_view [of f "nat c" "gfull G i"] assms(6,8,10) f c by simp
  then have "nat c \<in> gacks G p (currentTerm rf)" if "p \<in> ?Q" for p
    using assms(1,5,6) that by (fastforce simp: leader_inv_def acked_def)
  moreover have "length (matchIndex rf) = n" "0 < n"
    using assms(3,4) by (auto simp: raft_wf_def arrays_ok_def)
  then have "majority n ?Q"
    using majorityMatch_rank [of "matchIndex rf"] assms(7) by (auto simp: majority_def)
  ultimately show "chosen n G (currentTerm rf) (nat c)" by (auto simp: chosen_def)
qed

lemma safe_append_reply:
  assumes inv: "cinv n H C s" and si: "sinv n H C G s" and m: "AppRep i p a r \<in># net s"
    and h: "handleAppendEntryReply p a r (nodes s i) = Some rf"
    and ev: "evolves n H C s H' C' s'" and s': "s' = put i rf (net s - {#AppRep i p a r#}) s"
  shows "sinv n H' C' G s'"
proof -
  let ?rf = "nodes s i"
  have pk: "i < n" "p < n" "lead_ok ?rf a" using cinvD(4) [OF inv m] by auto
  note d = peer_okD [OF cinvD(1) [OF inv pk(1)]] and li = sinvD(1) [OF si pk(1)] and ci = sinvD(2) [OF si pk(1)]
  have v: "isValidLeader (ae_Term a) ?rf \<longrightarrow> ae_PrevLogIndex a \<le> lastIdx (logs ?rf)"
    using pk(3) by (auto simp: lead_ok_def isValidLeader_def)
  have pn: "p < npeers ?rf" using d(3) pk(2) by simp
  from d(1) pn v h show ?thesis
  proof (cases rule: handleReply_cases)
    case keep
    show ?thesis by (rule safe_keeps [OF inv si pk(1) ev s' keep]) (auto dest: in_diffD)
  next
    case (accept k)
    let ?r = "?rf\<lparr>matchIndex := (matchIndex ?rf)[p := k], nextIndex := (nextIndex ?rf)[p := k + 1]\<rparr>"
    have "acked G p (currentTerm ?rf) k" using sinvD(6) [OF si m] accept(2-4) by simp
    then have lr: "leader_inv n G i ?r" by (rule leader_inv_match [OF sinvD(3) [OF si pk(1)]])
    have lg: "log_inv n (dterms s) G i ?r" by (rule log_inv_cong [OF li]) simp_all
    have wf: "raft_wf ?r" using d(4) by (simp add: raft_wf_def arrays_ok_def)
    have c: "committed n G (pterm (disk s i)) (nat (commitIndex rf)) (gfull G i) \<and> lastApplied ?rf \<le> commitIndex rf"
    proof (cases "rf = ?r")
      case True
      then show ?thesis using commit_invD(1,2) [OF ci] by simp
    next
      case False
      let ?c = "majorityMatch (matchIndex ?r)"
      have ac: "?c > commitIndex ?rf" "firstIdx (logs ?r) \<le> ?c" "?c \<le> lastIdx (logs ?r)"
          "currentTerm ?r = termAt (logs ?r) ?c" "commitIndex rf = ?c"
        using False accept(5) by (auto simp: acceptCommit_def Let_def split: if_splits)
      obtain f where "int f \<le> lastApplied ?rf" by (rule view_of [OF d(1) li ci])
      then have c0: "0 < ?c" "lastApplied ?rf \<le> ?c" using ac(1) commit_invD(1) [OF ci] by linarith+
      have "npeers ?r = n" "state ?r = Leader" using d(3) accept(1) by simp_all
      note ch = accept_chosen [OF lr lg wf this c0(1) refl ac(2-4)]
      have "glead G (currentTerm ?rf) = Some (gfull G i)" "dterms s i = currentTerm ?rf"
        using sinvD(3) [OF si pk(1)] accept(1) d(8) by (simp_all add: leader_inv_def)
      then have "committed n G (pterm (disk s i)) (nat ?c) (gfull G i)"
        using ch by (intro committedI [of n G "currentTerm ?rf" "nat ?c"]) simp_all
      then show ?thesis using ac(5) c0(2) by simp
    qed
    show ?thesis
    proof (rule sinv_quiet [OF inv si pk(1) ev s'])
      show "commit_inv n G i rf" using ci c accept(5) by (simp add: commit_inv_def)
      show "leader_inv n G i rf" using lr by (simp add: accept(5) leader_inv_def)
      show "\<exists>f. f < length (gfull G i) \<and> logs rf = view f (gfull G i)"
        using log_invD(2) [OF li] accept(5) by simp
    qed (use accept(5) in \<open>auto dest: in_diffD\<close>)
  qed
qed

lemma safe_snapshot_reply:
  assumes inv: "cinv n H C s" and si: "sinv n H C G s" and m: "SnapRep i p b q \<in># net s"
    and h: "handleInstallSnapShotReply p b q (nodes s i) = Some rf"
    and ev: "evolves n H C s H' C' s'" and s': "s' = put i rf (net s - {#SnapRep i p b q#}) s"
  shows "sinv n H' C' G s'"
proof -
  let ?rf = "nodes s i" and ?k = "is_LastIncludedIndex b"
  have pk: "i < n" "p < n" using cinvD(4) [OF inv m] by auto
  note d = peer_okD [OF cinvD(1) [OF inv pk(1)]] and li = sinvD(1) [OF si pk(1)] and ci = sinvD(2) [OF si pk(1)]
  show ?thesis
  proof (cases "state ?rf = Leader \<and> currentTerm ?rf = is_Term b \<and> isr_Term q \<le> currentTerm ?rf")
    case False
    then have "keeps ?rf rf"
      using h by (auto simp: handleInstallSnapShotReply_def updateTermAndStepDown_ok split: if_splits)
    then show ?thesis by (rule safe_keeps [OF inv si pk(1) ev s']) (auto dest: in_diffD)
  next
    case True
    have "p < npeers ?rf" using d(3) pk(2) by simp
    from updateLogIndices_ok [OF d(6) this] have rf: "rf = ?rf\<lparr>matchIndex := (matchIndex ?rf)[p := ?k],
        nextIndex := (nextIndex ?rf)[p := ?k + 1]\<rparr>"
      using True h by (simp add: handleInstallSnapShotReply_def)
    have "acked G p (currentTerm ?rf) ?k" using sinvD(6) [OF si m] True by simp
    then have "leader_inv n G i rf" unfolding rf by (rule leader_inv_match [OF sinvD(3) [OF si pk(1)]])
    moreover have "commit_inv n G i rf" by (rule commit_inv_cong [OF ci]) (simp_all add: rf)
    ultimately show ?thesis
      using log_invD(2) [OF li] by (intro sinv_quiet [OF inv si pk(1) ev s']) (auto simp: rf dest: in_diffD)
  qed
qed

section \<open>Compaction and delivery\<close>

lemma safe_snapshot:
  assumes inv: "cinv n H C s" and si: "sinv n H C G s" and i: "i < n"
    and h: "Snapshot k x (nodes s i) = Some rf"
    and ev: "evolves n H C s H' C' s'" and s': "s' = put i rf (net s) s"
  shows "sinv n H' C' G s'"
proof -
  let ?rf = "nodes s i"
  note d = peer_okD [OF cinvD(1) [OF inv i]] and li = sinvD(1) [OF si i] and ci = sinvD(2) [OF si i]
  show ?thesis
  proof (cases "rf = ?rf")
    case True
    then show ?thesis by (intro safe_keeps [OF inv si i ev s']) simp_all
  next
    case False
    then have k: "firstIdx (logs ?rf) < k" "k \<le> lastIdx (logs ?rf)"
      and rf: "rf = persist x (?rf\<lparr>lastIncludedIndex := k, lastIncludedTerm := termAt (logs ?rf) k,
                          logs := compacted k (logs ?rf)\<rparr>)"
      using h by (auto simp: Snapshot_ok [OF d(4)] split: if_splits)
    obtain f where f: "f < length (gfull G i)" "logs ?rf = view f (gfull G i)" using log_invD(2) [OF li] by blast
    have k': "int (nat k) = k" "f \<le> nat k" "nat k < length (gfull G i)"
      using k f log_inv_last(1) [OF li] by auto
    then have lg: "logs rf = view (nat k) (gfull G i)" using view_view [of f "nat k" "gfull G i"] f(2) rf by simp
    have "pterm (disk s i) \<le> pterm (persister rf)" using evolves_terms [OF ev, of i] s' by simp
    from committed_grown [OF commit_invD(2) [OF ci] ghost_le_refl this]
    have "commit_inv n G i rf" using ci by (simp add: commit_inv_def rf)
    moreover have "leader_inv n G i rf" using sinvD(3) [OF si i] by (simp add: leader_inv_def rf)
    ultimately show ?thesis
      using lg k'(3) by (intro sinv_quiet [OF inv si i ev s']) (auto simp: rf)
  qed
qed

lemma entryAt_view:
  assumes "f < k" and "k < length F"
  shows "entryAt (view f F) (int k) = F ! k"
proof -
  have "nat (int k - int f) = k - f" "0 < k - f" "f + (k - f) = k" using assms by auto
  then show ?thesis using view_nth [of "k - f" f F] assms(2) by (simp add: entryAt_def)
qed

lemma delivered_snapshot: "\<not> am_CommandValid m \<Longrightarrow> delivered n G m"
  by (simp add: delivered_def)

lemma safe_apply:
  assumes inv: "cinv n H C s" and si: "sinv n H C G s" and i: "i < n"
    and h: "applier (nodes s i) = Some (ApplierContinues rf)"
    and ev: "evolves n H C s H' C' s'" and s': "s' = put i rf (net s) s"
  shows "sinv n H' C' G s'"
proof -
  let ?rf = "nodes s i" and ?F = "gfull G i"
  note d = peer_okD [OF cinvD(1) [OF inv i]] and li = sinvD(1) [OF si i] and ci = sinvD(2) [OF si i]
  note c = commit_invD [OF ci]
  obtain f where f: "f < length ?F" "logs ?rf = view f ?F" "int f \<le> lastApplied ?rf"
    by (rule view_of [OF d(1) li ci])
  have fa: "firstIdx (logs ?rf) \<le> lastApplied ?rf" using f by simp
  have new: "delivered n G (command_msg (entryAt (logs ?rf) (lastApplied ?rf + 1)))"
    if "lastApplied ?rf < commitIndex ?rf"
  proof -
    let ?k = "nat (lastApplied ?rf + 1)" and ?c = "nat (commitIndex ?rf)"
    have k: "0 < ?k" "?k \<le> ?c" "f < ?k" "int ?k = lastApplied ?rf + 1" using f(3) that by auto
    obtain t N X where N: "chosen n G t N" "glead G t = Some X" "?c \<le> N" "N < length X"
      "take (Suc ?c) ?F = take (Suc ?c) X" "?c < length ?F"
      using c(2) k(1,2) by (auto simp: committed_def)
    have "?F ! ?k = X ! ?k" using N(5) k(2) by (metis le_imp_less_Suc nth_take)
    moreover have "entryAt (logs ?rf) (lastApplied ?rf + 1) = ?F ! ?k"
      using entryAt_view [OF k(3), of ?F] k(2,4) N(6) f(2) by simp
    ultimately show ?thesis
      using N(1-4) k(1,2) unfolding delivered_def by (metis order_trans)
  qed
  have "(\<exists>m. pendingSnapshot ?rf = Some m \<and> rf = ?rf\<lparr>pendingSnapshot := None, applyCh := applyCh ?rf @ [m]\<rparr>)
      \<or> rf = ?rf\<lparr>lastApplied := firstIdx (logs ?rf)\<rparr>
      \<or> lastApplied ?rf < commitIndex ?rf \<and> rf = ?rf\<lparr>lastApplied := lastApplied ?rf + 1,
          applyCh := applyCh ?rf @ [command_msg (entryAt (logs ?rf) (lastApplied ?rf + 1))]\<rparr>"
    using h unfolding applier_ok [OF d(5) fa] by (auto split: if_splits option.splits)
  then have cm: "commit_inv n G i rf \<and> logs rf = logs ?rf \<and> leader_inv n G i rf \<and> state rf = state ?rf
      \<and> currentTerm rf = currentTerm ?rf"
  proof (elim disjE exE conjE)
    fix m assume m: "pendingSnapshot ?rf = Some m" "rf = ?rf\<lparr>pendingSnapshot := None, applyCh := applyCh ?rf @ [m]\<rparr>"
    have "delivered n G m" by (rule delivered_snapshot [OF c(4) [OF m(1)]])
    then show ?thesis using ci sinvD(3) [OF si i] m(2) by (simp add: commit_inv_def leader_inv_def)
  next
    assume "rf = ?rf\<lparr>lastApplied := firstIdx (logs ?rf)\<rparr>"
    then show ?thesis using ci sinvD(3) [OF si i] fa by (simp add: commit_inv_def leader_inv_def)
  next
    assume a: "lastApplied ?rf < commitIndex ?rf" and "rf = ?rf\<lparr>lastApplied := lastApplied ?rf + 1,
          applyCh := applyCh ?rf @ [command_msg (entryAt (logs ?rf) (lastApplied ?rf + 1))]\<rparr>"
    then show ?thesis using ci sinvD(3) [OF si i] new [OF a] by (simp add: commit_inv_def leader_inv_def)
  qed
  show ?thesis
    by (rule sinv_quiet [OF inv si i ev s']) (use cm f(1,2) in auto)
qed

end
