(* ===== verification/RaftRun.thy ===== *)
theory RaftRun
  imports RaftCluster
begin

text \<open>
  A run of a cluster of three peers, for the witnesses: peer 0 is elected, accepts a command,
  replicates it to peer 1, commits it, tells peer 1, and both deliver it.
\<close>

definition ex_cmd :: "'c \<Rightarrow> 'c LogEntry" where
  "ex_cmd c = \<lparr>le_Command = Some c, le_Term = 1, le_Index = 1\<rparr>"

definition ex_app :: "'c \<Rightarrow> 'c AppendEntryArgs" where
  "ex_app c = \<lparr>ae_Term = 1, ae_LeaderId = 0, ae_PrevLogIndex = 0, ae_PrevLogTerm = 0,
     ae_Entries = [ex_cmd c], ae_LeaderCommit = 0\<rparr>"

definition ex_beat :: "'c AppendEntryArgs" where
  "ex_beat = \<lparr>ae_Term = 1, ae_LeaderId = 0, ae_PrevLogIndex = 1, ae_PrevLogTerm = 1,
     ae_Entries = [], ae_LeaderCommit = 1\<rparr>"

definition ex_run :: "'c \<Rightarrow> nat \<Rightarrow> ('c, 'b) Raft" where
  "ex_run c k = (let r = started c (nodes ex_elected 0);
       r' = acceptCommit (r\<lparr>matchIndex := (matchIndex r)[1 := 1], nextIndex := (nextIndex r)[1 := 2]\<rparr>)
     in if k = 0 then r else if k = 1 then r'
        else r'\<lparr>lastApplied := 1, applyCh := [command_msg (ex_cmd c)]\<rparr>)"

lemma ex_leader_fields:
  "state (nodes ex_elected 0) = Leader" "currentTerm (nodes ex_elected 0) = 1" "npeers (nodes ex_elected 0) = 3"
  "me (nodes ex_elected 0) = 0" "logs (nodes ex_elected 0) = generateSingleLog 0 0"
  "nextIndex (nodes ex_elected 0) = [1, 1, 1]" "matchIndex (nodes ex_elected 0) = [0, 0, 0]"
  "commitIndex (nodes ex_elected 0) = 0" "lastApplied (nodes ex_elected 0) = 0" "applyCh (nodes ex_elected 0) = []"
  "\<not> dead (nodes ex_elected 0)" "pendingSnapshot (nodes ex_elected 0) = None"
  by (simp_all add: ex_elected_def elected_def toLeader_def counted_def campaign_def raised_def ex_boot_def boot_def
      numeral_3_eq_3)

lemma ex_follower_fields:
  "currentTerm (nodes ex_elected 1) = 1" "npeers (nodes ex_elected 1) = 3"
  "me (nodes ex_elected 1) = 1" "logs (nodes ex_elected 1) = generateSingleLog 0 0"
  "commitIndex (nodes ex_elected 1) = 0" "lastApplied (nodes ex_elected 1) = 0" "applyCh (nodes ex_elected 1) = []"
  "\<not> dead (nodes ex_elected 1)" "pendingSnapshot (nodes ex_elected 1) = None"
  by (simp_all add: ex_elected_def ex_vote_def voted_def ex_campaign_def ex_boot_def boot_def ex_ballot_def ballot_def stepDown_def)

definition ex_peer :: "'c \<Rightarrow> nat \<Rightarrow> ('c, 'b) Raft" where
  "ex_peer c k = (let r = accepted (ex_app c) (nodes ex_elected 1); r' = accepted ex_beat r
     in if k = 0 then r else if k = 1 then r'
        else r'\<lparr>lastApplied := 1, applyCh := [command_msg (ex_cmd c)]\<rparr>)"

definition ex_ack :: "'c AppendEntryArgs \<Rightarrow> ('c, 'b) packet" where
  "ex_ack a = AppRep 0 1 a (ae_reply 1 True 0 0)"

primrec ex_state :: "'c \<Rightarrow> nat \<Rightarrow> ('c, 'b) Cluster" where
  "ex_state c 0 = put 0 (ex_run c 0) (net ex_elected) ex_elected"
| "ex_state c (Suc k) = (let s = ex_state c k in
     if k = 0 then put 0 (nodes s 0) (net s + {#AppReq 0 1 (ex_app c)#}) s
     else if k = 1 then put 1 (ex_peer c 0) (net s - {#AppReq 0 1 (ex_app c)#} + {#ex_ack (ex_app c)#}) s
     else if k = 2 then put 0 (ex_run c 1) (net s - {#ex_ack (ex_app c)#}) s
     else if k = 3 then put 0 (nodes s 0) (net s + {#AppReq 0 1 ex_beat#}) s
     else if k = 4 then put 1 (ex_peer c 1) (net s - {#AppReq 0 1 ex_beat#} + {#ex_ack ex_beat#}) s
     else if k = 5 then put 0 (ex_run c 2) (net s) s
     else put 1 (ex_peer c 2) (net s) s)"

lemma ex_state_nodes:
  "nodes (ex_state c 0) 0 = ex_run c 0" "nodes (ex_state c 1) 0 = ex_run c 0" "nodes (ex_state c 1) 1 = nodes ex_elected 1"
  "nodes (ex_state c 2) 0 = ex_run c 0" "nodes (ex_state c 2) 1 = ex_peer c 0"
  "nodes (ex_state c 3) 0 = ex_run c 1" "nodes (ex_state c 3) 1 = ex_peer c 0"
  "nodes (ex_state c 4) 0 = ex_run c 1" "nodes (ex_state c 4) 1 = ex_peer c 0"
  "nodes (ex_state c 5) 0 = ex_run c 1" "nodes (ex_state c 5) 1 = ex_peer c 1"
  "nodes (ex_state c 6) 0 = ex_run c 2" "nodes (ex_state c 6) 1 = ex_peer c 1"
  "nodes (ex_state c 7) 0 = ex_run c 2" "nodes (ex_state c 7) 1 = ex_peer c 2"
  by (simp_all add: eval_nat_numeral)

lemma ex_run_fields:
  "logs (ex_run c k) = generateSingleLog 0 0 @ [ex_cmd c]" "state (ex_run c k) = Leader" "currentTerm (ex_run c k) = 1"
  "npeers (ex_run c k) = 3" "me (ex_run c k) = 0" "\<not> dead (ex_run c k)" "pendingSnapshot (ex_run c k) = None"
  "matchIndex (ex_run c 0) = [1, 0, 0]" "nextIndex (ex_run c 0) = [2, 1, 1]" "nextIndex (ex_run c 1) = [2, 2, 1]"
  "commitIndex (ex_run c 0) = 0" "commitIndex (ex_run c 1) = 1" "lastApplied (ex_run c 1) = 0" "applyCh (ex_run c 1) = []"
  by (simp_all add: ex_run_def Let_def started_def ex_leader_fields lastIdx_def ex_cmd_def acceptCommit_def
      majorityMatch_def firstIdx_def termAt_def generateSingleLog_def)

lemma ex_peer_fields:
  "logs (ex_peer c k) = generateSingleLog 0 0 @ [ex_cmd c]" "currentTerm (ex_peer c k) = 1"
  "npeers (ex_peer c k) = 3" "\<not> dead (ex_peer c k)" "pendingSnapshot (ex_peer c k) = None" "commitIndex (ex_peer c 0) = 0"
  "commitIndex (ex_peer c 1) = 1" "lastApplied (ex_peer c 1) = 0" "applyCh (ex_peer c 1) = []"
  by (simp_all add: ex_peer_def Let_def ex_follower_fields [simplified] ex_app_def ex_beat_def merge_log_def ex_cmd_def
      firstIdx_def lastIdx_def generateSingleLog_def)

lemmas ex_fields = ex_leader_fields ex_follower_fields [unfolded One_nat_def] ex_run_fields [unfolded One_nat_def]
  ex_peer_fields [unfolded One_nat_def]

lemma reach_peer:
  assumes "creach n s" and "i < n"
  shows "raft_wf (nodes s i)" and "log_ok (logs (nodes s i))" and "arrays_ok (nodes s i)"
proof -
  obtain H C where "cinv n H C s" using creach_cinv [OF assms(1)] by blast
  note d = peer_okD [OF cinvD(1) [OF this assms(2)]]
  show "raft_wf (nodes s i)" and "log_ok (logs (nodes s i))" and "arrays_ok (nodes s i)" using d by auto
qed

lemma ex_state_net:
  "AppReq 0 1 (ex_app c) \<in># net (ex_state c 1)" "ex_ack (ex_app c) \<in># net (ex_state c 2)"
  "AppReq 0 1 ex_beat \<in># net (ex_state c 4)"
  by (simp_all add: eval_nat_numeral)

lemma ex_start: "Start c (nodes ex_elected 0) = Some ((1, 1, True), ex_run c 0)"
  using Start_ok [OF reach_peer(1) [OF ex_elected_reach, of 0], of c]
  by (simp add: ex_leader_fields ex_run_def Let_def lastIdx_def generateSingleLog_def)

lemma ex_send: "doSendAppendEntry 1 (ex_run c 0) = Some (Some (ReqAppend (ex_app c)))"
    "doSendAppendEntry 1 (ex_run c 1) = Some (Some (ReqAppend ex_beat))"
  by (simp_all add: doSendAppendEntry_def ex_fields getFirstLog_def genAppendEntryArgs_def getLatestLog_def
      go_nth_def slice_from_def ex_app_def ex_beat_def Let_def ex_cmd_def generateSingleLog_def)

lemma ex_reply:
  assumes "raft_wf (ex_run c 0 :: ('c, 'b) Raft)"
  shows "handleAppendEntryReply 1 (ex_app c) (ae_reply 1 True 0 0) (ex_run c 0 :: ('c, 'b) Raft) = Some (ex_run c 1)"
proof -
  let ?r = "ex_run c 0 :: ('c, 'b) Raft"
  have "acceptNewLogEntries 1 (ex_app c) ?r = Some (acceptCommit
      (?r\<lparr>matchIndex := (matchIndex ?r)[1 := 1], nextIndex := (nextIndex ?r)[1 := 2]\<rparr>))"
    using acceptNewLogEntries_ok [OF raft_wf_log [OF assms] raft_wf_arrays [OF assms], of 1 "ex_app c"]
    by (simp add: ex_app_def ex_run_fields(4))
  also have "\<dots> = Some (ex_run c 1)" by (simp add: ex_run_def Let_def)
  finally show ?thesis
    by (simp add: handleAppendEntryReply_def isValidLeader_def ex_app_def ex_run_fields(2,3))
qed

lemma ex_log_ok: "log_ok (logs (ex_run c k))" "log_ok (logs (ex_peer c k))"
  by (auto simp: ex_fields log_ok_def generateSingleLog_def ex_cmd_def less_Suc_eq)

lemma ex_accept:
  "AppendEntry (ex_app c) (nodes ex_elected 1) = Some (ae_reply 1 True 0 0, ex_peer c 0)"
  "AppendEntry ex_beat (ex_peer c 0) = Some (ae_reply 1 True 0 0, ex_peer c 1)"
proof -
  have "AppendEntry (ex_app c) (nodes ex_elected 1) = Some (ae_reply (ae_Term (ex_app c)) True 0 0, accepted (ex_app c) (nodes ex_elected 1))"
    by (rule AppendEntry_accept)
       (simp_all add: ex_fields ae_wf_def matches_def ex_app_def ex_cmd_def firstIdx_def lastIdx_def termAt_def generateSingleLog_def log_ok_def)
  then show "AppendEntry (ex_app c) (nodes ex_elected 1) = Some (ae_reply 1 True 0 0, ex_peer c 0)"
    by (simp add: ex_peer_def Let_def) (simp add: ex_app_def)
  have "AppendEntry ex_beat (ex_peer c 0) = Some (ae_reply (ae_Term (ex_beat :: 'a AppendEntryArgs)) True 0 0, accepted ex_beat (ex_peer c 0))"
    by (rule AppendEntry_accept [OF _ ex_log_ok(2)])
       (simp_all add: ex_fields ae_wf_def matches_def ex_beat_def ex_cmd_def firstIdx_def lastIdx_def termAt_def generateSingleLog_def)
  then show "AppendEntry ex_beat (ex_peer c 0) = Some (ae_reply 1 True 0 0, ex_peer c 1)"
    by (simp add: ex_peer_def Let_def) (simp add: ex_beat_def)
qed

lemma ex_apply:
  "applier (ex_run c 1) = Some (ApplierContinues (ex_run c 2))"
  "applier (ex_peer c 1) = Some (ApplierContinues (ex_peer c 2))"
proof -
  have e: "entryAt (logs (ex_run c 1)) 1 = ex_cmd c" "entryAt (logs (ex_peer c 1)) 1 = ex_cmd c"
    "firstIdx (logs (ex_run c 1)) = 0" "firstIdx (logs (ex_peer c 1)) = 0"
    "lastIdx (logs (ex_run c 1)) = 1" "lastIdx (logs (ex_peer c 1)) = 1"
    by (simp_all add: ex_fields entryAt_def firstIdx_def lastIdx_def generateSingleLog_def ex_cmd_def)
  show "applier (ex_run c 1) = Some (ApplierContinues (ex_run c 2))"
    by (subst applier_ok [OF ex_log_ok(1)])
       (simp_all add: e [unfolded One_nat_def] ex_fields(27,28,33-35), simp add: ex_run_def Let_def)
  show "applier (ex_peer c 1) = Some (ApplierContinues (ex_peer c 2))"
    by (subst applier_ok [OF ex_log_ok(2)])
       (simp_all add: e [unfolded One_nat_def] ex_fields(39,40,42-44), simp add: ex_peer_def Let_def)
qed

lemma ex_state_Suc:
  "ex_state c 1 = put 0 (nodes (ex_state c 0) 0) (net (ex_state c 0) + {#packet_of 0 1 (ReqAppend (ex_app c))#}) (ex_state c 0)"
  "ex_state c 2 = put 1 (ex_peer c 0) (net (ex_state c 1) - {#AppReq 0 1 (ex_app c)#} + {#ex_ack (ex_app c)#}) (ex_state c 1)"
  "ex_state c 3 = put 0 (ex_run c 1) (net (ex_state c 2) - {#ex_ack (ex_app c)#}) (ex_state c 2)"
  "ex_state c 4 = put 0 (nodes (ex_state c 3) 0) (net (ex_state c 3) + {#packet_of 0 1 (ReqAppend ex_beat)#}) (ex_state c 3)"
  "ex_state c 5 = put 1 (ex_peer c 1) (net (ex_state c 4) - {#AppReq 0 1 ex_beat#} + {#ex_ack ex_beat#}) (ex_state c 4)"
  "ex_state c 6 = put 0 (ex_run c 2) (net (ex_state c 5)) (ex_state c 5)"
  "ex_state c 7 = put 1 (ex_peer c 2) (net (ex_state c 6)) (ex_state c 6)"
  by (simp_all add: Let_def packet_of_def eval_nat_numeral)

lemma ex_started: "cstep 3 ex_elected (ex_state c 0)"
  unfolding ex_state.simps by (rule cstep.start [OF _ ex_start]) simp

lemma ex_steps:
  "pstep 3 (ex_state c 0 :: ('c, 'b) Cluster) (ex_state c 1)" "pstep 3 (ex_state c 1 :: ('c, 'b) Cluster) (ex_state c 2)"
  "pstep 3 (ex_state c 2 :: ('c, 'b) Cluster) (ex_state c 3)" "pstep 3 (ex_state c 3 :: ('c, 'b) Cluster) (ex_state c 4)" "pstep 3 (ex_state c 4 :: ('c, 'b) Cluster) (ex_state c 5)"
  "pstep 3 (ex_state c 5 :: ('c, 'b) Cluster) (ex_state c 6)" "pstep 3 (ex_state c 6 :: ('c, 'b) Cluster) (ex_state c 7)"
proof -
  note n = ex_state_nodes and m = ex_state_net
  show s1: "pstep 3 (ex_state c 0) (ex_state c 1)"
    unfolding ex_state_Suc(1) by (rule pstep.send) (simp_all add: ex_send(1) [unfolded One_nat_def] n(1))
  show s2: "pstep 3 (ex_state c 1) (ex_state c 2)"
    unfolding ex_state_Suc(2) ex_ack_def
    by (rule pstep.append_entry [OF m(1)]) (simp only: n(3) ex_accept(1))
  have "raft_wf (ex_run c 0)"
    using reach_peer(1) [OF creach.step [OF ex_elected_reach ex_started], of 0] by (simp add: n(1))
  from ex_reply [OF this] show s3: "pstep 3 (ex_state c 2) (ex_state c 3)"
    unfolding ex_state_Suc(3) ex_ack_def
    by (intro pstep.append_reply [OF m(2) [unfolded ex_ack_def]]) (simp only: n(4))
  show s4: "pstep 3 (ex_state c 3) (ex_state c 4)"
    unfolding ex_state_Suc(4) by (rule pstep.send) (simp_all add: ex_send(2) [unfolded One_nat_def] n(6) [unfolded One_nat_def])
  show s5: "pstep 3 (ex_state c 4) (ex_state c 5)"
    unfolding ex_state_Suc(5) ex_ack_def
    by (rule pstep.append_entry [OF m(3)]) (simp only: n(9) ex_accept(2))
  show "pstep 3 (ex_state c 5) (ex_state c 6)"
    unfolding ex_state_Suc(6) by (rule pstep.apply_step) (simp, simp only: ex_apply(1) n(10))
  show "pstep 3 (ex_state c 6) (ex_state c 7)"
    unfolding ex_state_Suc(7) by (rule pstep.apply_step) (simp, simp only: ex_apply(2) n(13))
qed

lemma ex_reach:
  "creach 3 (ex_state c 3 :: ('c, 'b) Cluster)" "creach 3 (ex_state c 6 :: ('c, 'b) Cluster)"
  "(cstep 3)\<^sup>*\<^sup>* (ex_state c 3 :: ('c, 'b) Cluster) (ex_state c 7)"
  "(cstep 3)\<^sup>*\<^sup>* (ex_state c 6 :: ('c, 'b) Cluster) (ex_state c 7)"
proof -
  note s = ex_steps [THEN pstep_cstep, of c, where ?'b = 'b]
  have r: "creach 3 (ex_state c 0 :: ('c, 'b) Cluster)" by (rule creach.step [OF ex_elected_reach ex_started])
  show r3: "creach 3 (ex_state c 3 :: ('c, 'b) Cluster)"
    using creach.step [OF creach.step [OF creach.step [OF r s(1)] s(2)] s(3)] .
  show "creach 3 (ex_state c 6 :: ('c, 'b) Cluster)"
    using creach.step [OF creach.step [OF creach.step [OF r3 s(4)] s(5)] s(6)] .
  show "(cstep 3)\<^sup>*\<^sup>* (ex_state c 3 :: ('c, 'b) Cluster) (ex_state c 7)"
    "(cstep 3)\<^sup>*\<^sup>* (ex_state c 6 :: ('c, 'b) Cluster) (ex_state c 7)"
    using s(4-7) by (auto intro: rtranclp.rtrancl_into_rtrancl)
qed

end
