(* ===== verification/RaftSafety.thy ===== *)
theory RaftSafety
  imports RaftSteps RaftRun
begin

text \<open>
  The steps that give a peer a new log (an accepted request, an installed snapshot, a command of a
  client), the preservation of the invariant by every step, and what it gives: log matching,
  leader completeness and state machine safety.
\<close>

section \<open>New logs\<close>

text \<open>
  Peer \<open>p\<close> has the log \<open>F\<close> on disk with term \<open>t\<close>: from now on it has stored the entries of term
  \<open>t\<close> in it.
\<close>

definition stored :: "nat \<Rightarrow> 'c LogEntry list \<Rightarrow> int \<Rightarrow> 'c ghost \<Rightarrow> 'c ghost" where
  "stored p F t G = G\<lparr>gfull := (gfull G)(p := F), gacks := (gacks G)(p := (gacks G p)(t := gacks G p t
     \<union> {N. 0 < N \<and> N < length F \<and> le_Term (F ! N) = t}))\<rparr>"

lemma stored_simps [simp]:
  "gfull (stored p F t G) = (gfull G)(p := F)" "glead (stored p F t G) = glead G"
  "N \<in> gacks (stored p F t G) q u \<longleftrightarrow>
     N \<in> gacks G q u \<or> q = p \<and> u = t \<and> 0 < N \<and> N < length F \<and> le_Term (F ! N) = t"
  by (auto simp: stored_def)

lemma stored_le [simp]: "ghost_le G (stored p F t G)"
  by (auto simp: ghost_le_def)

lemma moves_stored:
  assumes "\<And>q. T q \<le> T' q" and "T p \<le> t"
  shows "moves T T' G (stored p F t G) p"
  using assms by (auto simp: moves_def)

text \<open>The entries of a good log are those of the leaders' logs.\<close>

lemma good_has:
  assumes "good (glead G) F" and "0 < N" and "N < length F" and "le_Term (F ! N) = t"
  shows "has G t N F" and "\<exists>X. glead G t = Some X \<and> N < length X \<and> le_Term (X ! N) = t"
proof -
  obtain X where X: "glead G t = Some X" "prefix (take (Suc N) F) X" using goodD [OF assms(1-3)] assms(4) by blast
  have N: "N < length X" using prefix_length_le [OF X(2)] assms(3) by simp
  have "take (Suc N) X = take (Suc N) F" using take_prefix_eq [OF X(2), of "Suc N"] assms(3) by simp
  then show "has G t N F" using X(1) N take_is_prefix [of "Suc N" F] by (simp add: has_def)
  show "\<exists>X. glead G t = Some X \<and> N < length X \<and> le_Term (X ! N) = t"
    using X N nth_prefix [OF X(2), of N] assms(3,4) by auto
qed

text \<open>The new log \<open>F'\<close> keeps all that the old log \<open>F\<close> shared with the log \<open>X\<close> of the leader.\<close>

definition absorbs :: "'c LogEntry list \<Rightarrow> 'c LogEntry list \<Rightarrow> 'c LogEntry list \<Rightarrow> bool" where
  "absorbs X F F' \<longleftrightarrow> (\<forall>N. take (Suc N) F = take (Suc N) X \<longrightarrow> N < length F \<longrightarrow> N < length X \<longrightarrow>
     N < length F' \<and> take (Suc N) F' = take (Suc N) X)"

lemma absorbsD:
  "absorbs X F F' \<Longrightarrow> take (Suc N) F = take (Suc N) X \<Longrightarrow> N < length F \<Longrightarrow> N < length X \<Longrightarrow>
     N < length F' \<and> take (Suc N) F' = take (Suc N) X"
  by (simp add: absorbs_def)

lemma lead_has:
  assumes si: "sinv n H C G s" and X: "glead G t = Some X" and t: "t0 \<le> t"
    and N: "choosable n (dterms s) G t0 N" "glead G t0 = Some Y" "N < length Y"
  shows "N < length X" and "take (Suc N) X = take (Suc N) Y"
proof -
  have "N < length X \<and> take (Suc N) X = take (Suc N) Y"
  proof (cases "t0 = t")
    case True
    then show ?thesis using X N by simp
  next
    case False
    then have "has G t0 N X" using t by (intro lead_invD(3) [OF sinvD(5) [OF si] X _ N(1)]) simp
    then have "prefix (take (Suc N) Y) X" using N(2) by (auto simp: has_def)
    then show ?thesis using take_prefix_eq [of _ X "Suc N"] prefix_length_le [of _ X] N(3) by fastforce
  qed
  then show "N < length X" and "take (Suc N) X = take (Suc N) Y" by auto
qed

lemma absorbs_has:
  assumes si: "sinv n H C G s" and X: "glead G t = Some X" and t: "t0 \<le> t"
    and N: "choosable n (dterms s) G t0 N" "has G t0 N F" and ab: "absorbs X F F'"
  shows "has G t0 N F'"
proof -
  obtain Y where Y: "glead G t0 = Some Y" "N < length Y" "prefix (take (Suc N) Y) F" using N(2) by (auto simp: has_def)
  note l = lead_has [OF si X t N(1) Y(1,2)]
  have "take (Suc N) F = take (Suc N) Y" "N < length F"
    using take_prefix_eq [OF Y(3), of "Suc N"] prefix_length_le [OF Y(3)] Y(2) by simp_all
  then have "N < length F' \<and> take (Suc N) F' = take (Suc N) Y" using absorbsD [OF ab, of N] l by simp
  then have "prefix (take (Suc N) Y) F'" using take_is_prefix [of "Suc N" F'] by simp
  then show ?thesis using Y(1,2) by (auto simp: has_def)
qed

lemma absorbs_committed:
  assumes si: "sinv n H C G s" and X: "glead G t = Some X" and t: "\<tau> \<le> t"
    and c: "committed n G \<tau> c F" and ab: "absorbs X F F'" and F': "full_log F'"
  shows "committed n G \<tau> c F'"
proof (cases "c = 0")
  case False
  then obtain u N Y where u: "u \<le> \<tau>" "chosen n G u N" "glead G u = Some Y" "c \<le> N" "N < length Y"
    "take (Suc c) F = take (Suc c) Y" "c < length F"
    using c by (auto simp: committed_def)
  have "u \<le> t" using u(1) t by simp
  note l = lead_has [OF si X this chosen_choosable [OF u(2)] u(3,5)]
  have e: "take (Suc c) X = take (Suc c) Y"
    using arg_cong [OF l(2), of "take (Suc c)"] u(4) by (simp add: min_absorb1)
  have "c < length F' \<and> take (Suc c) F' = take (Suc c) X"
    using u l(1) e by (intro absorbsD [OF ab]) simp_all
  then show ?thesis using u e by (intro committedI [OF u(2,3)]) simp_all
qed (use full_log_simps(3) [OF F'] in \<open>simp add: committed_def\<close>)

lemma log_inv_stored:
  assumes si: "sinv n H C G s" and p: "p < n" and T': "\<And>q. dterms s q \<le> T' q"
    and X: "glead G t = Some X" "dterms s p \<le> t" and ab: "absorbs X (gfull G p) F'"
    and F': "good (glead G) F'" "f < length F'" "logs rf = view f F'"
    and pt: "dterms s p \<le> pterm (persister rf)"
  shows "log_inv n T' (stored p F' (pterm (persister rf)) G) p rf"
proof (rule log_invI [of _ _ f])
  let ?t = "pterm (persister rf)"
  let ?G = "stored p F' ?t G"
  note d = log_invD [OF sinvD(1) [OF si p]]
  have mv: "moves (dterms s) T' G ?G p" by (rule moves_stored) (use T' pt in auto)
  show "acks_ok ?G p ?t"
  proof (rule acks_ok_frame [OF d(4) stored_le pt])
    show "N \<in> gacks G p u \<or> 0 < N \<and> u \<le> ?t \<and> (\<exists>X. glead ?G u = Some X \<and> N < length X \<and> le_Term (X ! N) = u)"
      if "N \<in> gacks ?G p u" for u N
      using that good_has(2) [OF F'(1)] by auto
  qed
  show "safe_log n T' ?G p u (gfull ?G p)" for u
    unfolding safe_log_def
  proof (intro allI impI)
    fix t0 N assume N: "N \<in> gacks ?G p t0" "choosable n T' ?G t0 N"
    have ch: "choosable n (dterms s) G t0 N" by (rule choosable_back [OF N(2) mv])
    have "has G t0 N F'"
    proof (cases "N \<in> gacks G p t0")
      case True
      have "t0 \<le> t" using acks_okD(2) [OF d(4) True] X(2) by simp
      moreover have "has G t0 N (gfull G p)" by (rule safe_logD [OF d(5) [of "t0 + 1"] _ True ch]) simp
      ultimately show ?thesis using absorbs_has [OF si X(1) _ ch _ ab] by blast
    next
      case False
      then show ?thesis using N(1) good_has(1) [OF F'(1)] by simp
    qed
    then have "has ?G t0 N F'" by (rule has_mono [OF _ stored_le]) simp
    then show "has ?G t0 N (gfull ?G p)" by simp
  qed
qed (use F' in simp_all)

lemma safe_change:
  assumes inv: "cinv n H C s" and si: "sinv n H C G s" and p: "p < n"
    and ev: "evolves n H C s H' C' s'" and s': "s' = put p rf M s" and st: "state rf = Follower"
    and X: "glead G t = Some X" "dterms s p \<le> t" and ab: "absorbs X (gfull G p) F'"
    and F': "good (glead G) F'" "f < length F'" "logs rf = view f F'"
    and G': "G' = stored p F' (pterm (persister rf)) G"
    and ci: "commit_inv n G' p rf"
    and M: "\<And>m. m \<in># M \<Longrightarrow> m \<in># net s \<or> pkt_ok n G' m \<and> vkey m = {#}"
  shows "sinv n H' C' G' s'"
proof (rule sinv_frame [OF inv si p ev s'])
  have pt: "dterms s p \<le> pterm (persister rf)" using evolves_terms [OF ev, of p] s' by simp
  show "moves (dterms s) (dterms s') G G' p" unfolding G' by (rule moves_stored) (use evolves_terms [OF ev] pt in auto)
  show "log_inv n (dterms s') G' p rf"
    unfolding G' by (rule log_inv_stored [OF si p evolves_terms [OF ev] X ab F' pt])
  show "commit_inv n G' p rf" by (rule ci)
  show "VoteRep i q a r \<in># net s \<or> (rvr_VoteGranted r \<longrightarrow> state (nodes s i) = Candidate \<longrightarrow>
      rv_Term a = currentTerm (nodes s i) \<longrightarrow> safe_log n (dterms s') G' q (currentTerm (nodes s i)) (gfull G i))"
    if "VoteRep i q a r \<in># M" for i q a r using M [OF that] by auto
  show "VoteReq i q a \<in># net s" if "VoteReq i q a \<in># M" for i q a using M [OF that] by auto
  show "m \<in># net s \<or> pkt_ok n G' m" if "m \<in># M" for m using M [OF that] by auto
qed (use st in \<open>auto simp: leader_inv_def cand_inv_def G'\<close>)

text \<open>A chosen entry is an entry of its term.\<close>

lemma chosen_entry:
  assumes si: "sinv n H C G s" and "chosen n G t N"
  shows "0 < N" and "\<exists>X. glead G t = Some X" and "glead G t = Some X \<Longrightarrow> N < length X \<and> le_Term (X ! N) = t"
proof -
  obtain Q where Q: "majority n Q" "\<And>p. p \<in> Q \<Longrightarrow> N \<in> gacks G p t" using assms(2) by (auto simp: chosen_def)
  obtain p where p: "p \<in> Q" "p < n" using maj.meet [OF Q(1,1)] Q(1) by (auto simp: majority_def)
  note a = acks_okD [OF log_invD(4) [OF sinvD(1) [OF si p(2)]] Q(2) [OF p(1)]]
  show "0 < N" and "\<exists>X. glead G t = Some X" and "glead G t = Some X \<Longrightarrow> N < length X \<and> le_Term (X ! N) = t"
    using a by auto
qed

text \<open>What peer \<open>p\<close> shares with the leader of the term on its disk it has stored.\<close>

lemma shared_acked:
  assumes li: "log_inv n T G p rf" and ok: "node_ok rf" and X: "glead G t = Some X"
    and m: "M < length X" "prefix (take (Suc M) X) (gfull G p)" and t: "pterm (persister rf) \<le> t"
  shows "acked G p t (int M)"
proof -
  have "N \<in> gacks G p t" if "0 < N" "N \<le> M" "le_Term (X ! N) = t" for N
  proof -
    have N: "gfull G p ! N = X ! N" "N < length (gfull G p)"
      using nth_prefix [OF m(2), of N] prefix_length_le [OF m(2)] m(1) that(2) by simp_all
    have "pterm (persister rf) = t" using full_terms [OF ok li N(2)] N(1) that(3) t by simp
    then show ?thesis using log_invD(3) [OF li that(1) N(2)] N(1) that(3) by simp
  qed
  then show ?thesis using X m(1) by (auto simp: acked_def)
qed

lemma accepted_log:
  assumes li: "log_inv n T G p rf" and X: "glead G t = Some X" "good (glead G) X" "k \<le> M" "M < length X"
    and a: "ae_PrevLogIndex a = int k" "ae_PrevLogTerm a = le_Term (X ! k)"
      "ae_Entries a = drop (Suc k) (take (Suc M) X)"
    and mt: "matches a (logs rf)"
  defines "F' \<equiv> merged k (take (Suc M) X) (gfull G p)"
  obtains f where "f < length F'" "logs (accepted a rf) = view f F'" "good (glead G) F'"
    "absorbs X (gfull G p) F'" "prefix (take (Suc M) X) F'"
proof -
  let ?F = "gfull G p" and ?E = "take (Suc M) X"
  note gF = log_invD(1) [OF li]
  have gE: "good (glead G) ?E" by (rule good_take [OF X(2)])
  obtain f where f: "f < length ?F" "logs rf = view f ?F" using log_invD(2) [OF li] by blast
  have k: "f \<le> k" "k < length ?F" using mt a(1) f(2) log_inv_last(1) [OF li] by (auto simp: matches_def)
  have kE: "k < length ?E" using X(3,4) by simp
  have te: "le_Term (?F ! k) = le_Term (?E ! k)"
    using mt a(1,2) f(2) termAt_view [OF k] X(3) by (simp add: matches_def)
  have pr: "prefix ?E F'" unfolding F'_def by (rule prefix_merged [OF gF gE k(2) kE te])
  have "logs (accepted a rf) = view f F'"
    using merge_view [OF gF gE k kE te] a(1,3) f(2) by (simp add: F'_def)
  moreover have "f < length F'" using prefix_length_le [OF pr] kE k(1) by linarith
  moreover have "absorbs X ?F F'" unfolding absorbs_def F'_def using merged_keeps by blast
  ultimately show thesis using that pr good_merged [OF gF gE, of k] by (simp add: F'_def)
qed

text \<open>The commit index after an accepted request.\<close>

lemma accepted_commit:
  assumes si: "sinv n H C G s" and p: "p < n" and X: "glead G (ae_Term a) = Some X" "M < length X"
    and cm: "ae_LeaderCommit a \<le> 0 \<or> (\<exists>t N. t \<le> ae_Term a \<and> chosen n G t N
          \<and> ae_LeaderCommit a \<le> int N \<and> N \<le> M \<and> has G t N X)"
    and F': "good (glead G) F'" "absorbs X (gfull G p) F'" "prefix (take (Suc M) X) F'"
    and t: "dterms s p \<le> ae_Term a" "dterms s p \<le> \<tau>" and top: "\<And>N. N < length F' \<Longrightarrow> le_Term (F' ! N) \<le> \<tau>"
    and c: "c \<le> commitIndex (nodes s p) \<or> c \<le> ae_LeaderCommit a"
  shows "committed n G \<tau> (nat c) F'"
proof -
  note fF = good_full [OF F'(1)]
  have old: "committed n G \<tau> (nat (commitIndex (nodes s p))) F'"
    using absorbs_committed [OF si X(1) t(1) commit_invD(2) [OF sinvD(2) [OF si p]] F'(2) fF]
    by (rule committed_grown [OF _ ghost_le_refl t(2)])
  show ?thesis
  proof (cases "nat c \<le> nat (commitIndex (nodes s p))")
    case True
    then show ?thesis by (rule committed_le [OF old])
  next
    case False
    then have c': "0 < c" "c \<le> ae_LeaderCommit a" using c by auto
    then have "\<not> ae_LeaderCommit a \<le> 0" by simp
    then obtain u N where u: "chosen n G u N" "ae_LeaderCommit a \<le> int N" "N \<le> M" "has G u N X"
      using cm by blast
    obtain Y where Y: "glead G u = Some Y" "N < length Y" "prefix (take (Suc N) Y) X" using u(4) by (auto simp: has_def)
    have "prefix (take (Suc N) Y) (take (Suc M) X)"
      by (rule prefix_length_prefix [OF Y(3) take_is_prefix]) (use X(2) Y(2) u(3) in simp)
    then have pr: "prefix (take (Suc N) Y) F'" using F'(3) by (rule prefix_order.trans)
    then have N: "N < length F'" "F' ! N = Y ! N" "take (Suc N) F' = take (Suc N) Y"
      using prefix_length_le [OF pr] nth_prefix [OF pr, of N] take_prefix_eq [OF pr, of "Suc N"] Y(2) by simp_all
    have "u \<le> \<tau>" using top [OF N(1)] N(2) chosen_entry(3) [OF si u(1) Y(1)] by simp
    then have "committed n G \<tau> N F'" using N Y(2) by (intro committedI [OF u(1) Y(1)]) simp_all
    then show ?thesis by (rule committed_le) (use u(2) c'(2) in simp)
  qed
qed

lemma refused_keeps:
  assumes "raft_wf rf" and "ae_wf a" and "AppendEntry a rf = Some (r, rf')" and "\<not> aer_Success r"
  shows "keeps rf rf'"
proof (cases "ae_Term a < currentTerm rf")
  case True
  then show ?thesis using assms(3) by (simp add: AppendEntry_stale)
next
  case False
  then have "\<not> matches a (logs rf)" using AppendEntry_iff(1) [OF assms(1-3)] assms(4) by simp
  then show ?thesis using AppendEntry_result [OF assms(1,2)] assms(3) by auto
qed

lemma safe_append_entry:
  assumes inv: "cinv n H C s" and si: "sinv n H C G s" and m: "AppReq i p a \<in># net s"
    and ae: "AppendEntry a (nodes s p) = Some (r, rf)"
    and ev: "evolves n H C s H' C' s'" and s': "s' = put p rf (net s - {#AppReq i p a#} + {#AppRep i p a r#}) s"
  shows "\<exists>G'. sinv n H' C' G' s' \<and> ghost_le G G'"
proof -
  let ?rf = "nodes s p" and ?t = "pterm (persister rf)"
  have pk: "p < n" "ae_wf a" using cinvD(4) [OF inv m] by auto
  note d = peer_okD [OF cinvD(1) [OF inv pk(1)]] and li = sinvD(1) [OF si pk(1)]
  note iff = AppendEntry_iff [OF d(4) pk(2) ae]
  show ?thesis
  proof (cases "aer_Success r")
    case False
    have "sinv n H' C' G s'"
      by (rule safe_keeps [OF inv si pk(1) ev s' refused_keeps [OF d(4) pk(2) ae False]])
         (use False in \<open>auto dest: in_diffD\<close>)
    then show ?thesis by auto
  next
    case True
    then have cur: "currentTerm ?rf \<le> ae_Term a" "matches a (logs ?rf)" "rf = accepted a ?rf" using iff by auto
    obtain X k M where X: "glead G (ae_Term a) = Some X" "k \<le> M" "M < length X"
        "ae_PrevLogIndex a = int k" "ae_PrevLogTerm a = le_Term (X ! k)"
        "ae_Entries a = drop (Suc k) (take (Suc M) X)"
      and cm: "ae_LeaderCommit a \<le> 0 \<or> (\<exists>t N. t \<le> ae_Term a \<and> chosen n G t N
          \<and> ae_LeaderCommit a \<le> int N \<and> N \<le> M \<and> has G t N X)"
      using sinvD(6) [OF si m] unfolding pkt_ok.simps app_ok_def by blast
    define F' where "F' = merged k (take (Suc M) X) (gfull G p)"
    obtain f where f: "f < length F'" "logs rf = view f F'" "good (glead G) F'"
      "absorbs X (gfull G p) F'" "prefix (take (Suc M) X) F'"
      using accepted_log [OF li X(1) lead_invD(1) [OF sinvD(5) [OF si] X(1)] X(2-6) cur(2)]
      unfolding F'_def cur(3) by blast
    define G' where "G' = stored p F' ?t G"
    have tt: "dterms s p \<le> ae_Term a" "dterms s p \<le> ?t"
      using d(7) cur(1) evolves_terms [OF ev, of p] s' by simp_all
    have li': "log_inv n (dterms s') G' p rf"
      unfolding G'_def by (rule log_inv_stored [OF si pk(1) evolves_terms [OF ev] X(1) tt(1) f(4,3,1,2) tt(2)])
    have ok': "node_ok rf" using AppendEntry_node_ok [OF d(1) pk(2)] ae by auto
    have gf: "gfull G' p = F'" "ghost_le G G'" by (simp_all add: G'_def)
    have "committed n G ?t (nat (commitIndex rf)) F'"
    proof (rule accepted_commit [OF si pk(1) X(1,3) cm f(3,4,5) tt])
      show "le_Term (F' ! N) \<le> ?t" if "N < length F'" for N
        using full_terms [OF ok' li'] that gf(1) by simp
      show "commitIndex rf \<le> commitIndex ?rf \<or> commitIndex rf \<le> ae_LeaderCommit a"
        by (simp add: cur(3)) linarith
    qed
    from committed_grown [OF this gf(2) order_refl] have ci: "commit_inv n G' p rf"
      using sinvD(2) [OF si pk(1)] delivered_mono [OF _ gf(2)] gf(1)
      unfolding commit_inv_def by (auto simp: cur(3))
    have "?t \<le> ae_Term a" using node_ok_pterm [OF ok'] cur(1,3) by simp
    then have ak: "acked G' p (ae_Term a) (int M)"
      using shared_acked [OF li' ok' _ X(3)] X(1) f(5) gf(1) by (simp add: G'_def)
    have "sinv n H' C' G' s'"
    proof (rule safe_change [OF inv si pk(1) ev s' _ X(1) tt(1) f(4,3,1,2) G'_def ci])
      show "state rf = Follower" by (simp add: cur(3))
      have "ae_PrevLogIndex a + int (length (ae_Entries a)) = int M" using X(2-4,6) by simp
      then show "x \<in># net s \<or> pkt_ok n G' x \<and> vkey x = {#}"
        if "x \<in># net s - {#AppReq i p a#} + {#AppRep i p a r#}" for x
        using that ak by (auto dest: in_diffD)
    qed
    then show ?thesis using gf(2) by blast
  qed
qed

text \<open>Committed prefixes agree.\<close>

lemma chosen_agree:
  assumes si: "sinv n H C G s" and "chosen n G t N" "glead G t = Some X" "k \<le> N"
    and "chosen n G u M" "glead G u = Some Y" "k \<le> M"
  shows "take (Suc k) X = take (Suc k) Y"
proof -
  have *: "take (Suc k) X = take (Suc k) Y"
    if "chosen n G t N" "glead G t = Some X" "k \<le> N" "glead G u = Some Y" "t \<le> u" for t u N X Y
  proof -
    have "N < length X" using chosen_entry(3) [OF si that(1,2)] by simp
    from lead_has(2) [OF si that(4,5) chosen_choosable [OF that(1)] that(2) this]
    have "take (Suc k) (take (Suc N) Y) = take (Suc k) (take (Suc N) X)" by simp
    then show ?thesis using that(3) by (simp add: min_absorb1)
  qed
  show ?thesis
    using *[OF assms(2-4,6)] *[OF assms(5-7,3)] by (cases "t \<le> u") simp_all
qed

lemma committed_agree:
  assumes si: "sinv n H C G s" and "committed n G \<tau> k F" "full_log F" and "committed n G \<tau>' k F'" "full_log F'"
  shows "take (Suc k) F = take (Suc k) F'"
proof (cases "k = 0")
  case True
  then show ?thesis
    using full_log_simps(3,6) [OF assms(3)] full_log_simps(3,6) [OF assms(5)] by (cases F; cases F') auto
next
  case False
  obtain t N X where t: "chosen n G t N" "glead G t = Some X" "k \<le> N" "take (Suc k) F = take (Suc k) X"
    using assms(2) False by (auto simp: committed_def)
  obtain u M Y where u: "chosen n G u M" "glead G u = Some Y" "k \<le> M" "take (Suc k) F' = take (Suc k) Y"
    using assms(4) False by (auto simp: committed_def)
  show ?thesis using chosen_agree [OF si t(1-3) u(1-3)] t(4) u(4) by simp
qed

lemma safe_adopt:
  assumes inv: "cinv n H C s" and si: "sinv n H C G s" and p: "p < n" and b: "snap_ok n G b"
    and t: "currentTerm (nodes s p) \<le> is_Term b" and la: "is_LastIncludedIndex b \<le> lastApplied (nodes s p)"
  shows "acked G p (is_Term b) (is_LastIncludedIndex b)"
proof -
  note d = peer_okD [OF cinvD(1) [OF inv p]] and li = sinvD(1) [OF si p] and ci = sinvD(2) [OF si p]
  obtain X k where X: "glead G (is_Term b) = Some X" "is_LastIncludedIndex b = int k" "committed n G (is_Term b) k X"
    using b by (auto simp: snap_ok_def)
  have kc: "k \<le> nat (commitIndex (nodes s p))" using la X(2) commit_invD(1) [OF ci] by linarith
  have "take (Suc k) X = take (Suc k) (gfull G p)"
    by (rule committed_agree [OF si X(3) _ committed_le [OF commit_invD(2) [OF ci] kc]])
       (use good_full log_invD(1) [OF li] lead_invD(1) [OF sinvD(5) [OF si] X(1)] in blast)+
  then have "prefix (take (Suc k) X) (gfull G p)" using take_is_prefix [of "Suc k" "gfull G p"] by simp
  moreover have "k < length X" using X(3) by (simp add: committed_def)
  moreover have "dterms s p \<le> is_Term b" using d(7) t by simp
  ultimately show ?thesis using shared_acked [OF li d(1) X(1)] X(2) by simp
qed

lemma safe_install:
  assumes inv: "cinv n H C s" and si: "sinv n H C G s" and p: "p < n" and b: "snap_ok n G b"
    and t: "currentTerm (nodes s p) \<le> is_Term b" and la: "lastApplied (nodes s p) < is_LastIncludedIndex b"
    and rf: "rf = installed b (nodes s p)" and ok': "node_ok rf"
    and ev: "evolves n H C s H' C' s'" and s': "s' = put p rf (M + {#SnapRep i p b q#}) s"
    and M: "\<And>m. m \<in># M \<Longrightarrow> m \<in># net s"
  shows "\<exists>G'. sinv n H' C' G' s' \<and> ghost_le G G'"
proof -
  let ?rf = "nodes s p" and ?F = "gfull G p" and ?t = "is_Term b"
  note d = peer_okD [OF cinvD(1) [OF inv p]] and li = sinvD(1) [OF si p] and ci = sinvD(2) [OF si p]
  note F = log_invD(1) [OF li]
  obtain X k where X: "glead G ?t = Some X" "is_LastIncludedIndex b = int k"
    "is_LastIncludedTerm b = le_Term (X ! k)" "committed n G ?t k X"
    using b by (auto simp: snap_ok_def)
  have gX: "good (glead G) X" by (rule lead_invD(1) [OF sinvD(5) [OF si] X(1)])
  have k: "k < length X" using X(4) by (simp add: committed_def)
  obtain f where f: "f < length ?F" "logs ?rf = view f ?F" "int f \<le> lastApplied ?rf"
    by (rule view_of [OF d(1) li ci])
  define F' where "F' = spliced k X ?F"
  have F': "good (glead G) F'" "k < length F'" "prefix (take (Suc k) X) F'"
    using good_spliced [OF F gX] length_spliced [OF k] prefix_spliced [OF F gX k] by (simp_all add: F'_def)
  have ab: "absorbs X ?F F'" unfolding absorbs_def F'_def using spliced_keeps by blast
  have lg: "logs rf = view k F'"
    using newLog_view [OF good_full [OF F] _ f(1) k X(2,3)] f(2,3) la X(2)
    by (simp add: rf installed_def F'_def Let_def)
  have pt: "pterm (persister rf) = ?t" using t by (simp add: rf)
  define G' where "G' = stored p F' (pterm (persister rf)) G"
  have tt: "dterms s p \<le> ?t" "dterms s p \<le> pterm (persister rf)" using d(7) t pt by simp_all
  have li': "log_inv n (dterms s') G' p rf"
    unfolding G'_def by (rule log_inv_stored [OF si p evolves_terms [OF ev] X(1) tt(1) ab F'(1,2) lg tt(2)])
  have gf: "gfull G' p = F'" "ghost_le G G'" "glead G' ?t = Some X" using X(1) by (simp_all add: G'_def)
  have "take (Suc k) F' = take (Suc k) X" using take_prefix_eq [OF F'(3), of "Suc k"] k by simp
  then have c1: "committed n G' ?t k F'" by (rule committed_mono [OF X(4) gf(2) order_refl F'(2)])
  have c2: "committed n G' ?t (nat (commitIndex ?rf)) F'"
    by (rule committed_grown [OF absorbs_committed [OF si X(1) tt(1) commit_invD(2) [OF ci] ab good_full [OF F'(1)]] gf(2) tt(1)])
  have "nat (commitIndex rf) = max k (nat (commitIndex ?rf))" using X(2) by (simp add: rf installed_def Let_def)
  then have "committed n G' (pterm (persister rf)) (nat (commitIndex rf)) F'" using c1 c2 pt by (simp add: max_def)
  then have cr: "commit_inv n G' p rf"
    using ci delivered_mono [OF _ gf(2)] gf(1) unfolding commit_inv_def by (auto simp: rf installed_def Let_def)
  have ak: "acked G' p ?t (int k)" using shared_acked [OF li' ok' gf(3) k] F'(3) gf(1) pt by simp
  have "sinv n H' C' G' s'"
    by (rule safe_change [OF inv si p ev s' _ X(1) tt(1) ab F'(1,2) lg G'_def cr]) (use M ak X(2) rf in auto)
  then show ?thesis using gf(2) by blast
qed

lemma safe_install_snapshot:
  assumes inv: "cinv n H C s" and si: "sinv n H C G s" and m: "SnapReq i p b \<in># net s"
    and h: "InstallSnapShot b (nodes s p) = Some (q, rf)"
    and ev: "evolves n H C s H' C' s'" and s': "s' = put p rf (net s - {#SnapReq i p b#} + {#SnapRep i p b q#}) s"
  shows "\<exists>G'. sinv n H' C' G' s' \<and> ghost_le G G'"
proof -
  let ?rf = "nodes s p"
  have pk: "p < n" "snap_wf b" using cinvD(4) [OF inv m] by auto
  note d = peer_okD [OF cinvD(1) [OF inv pk(1)]]
  have la: "firstIdx (logs ?rf) \<le> lastApplied ?rf" using d(1) by (simp add: node_ok_def)
  have q: "isr_Term q = currentTerm ?rf" and rf: "rf = (if is_Term b < currentTerm ?rf then ?rf
      else if is_LastIncludedIndex b \<le> lastApplied ?rf then adopt (is_Term b) ?rf else installed b ?rf)"
    using h by (auto simp: InstallSnapShot_ok [OF d(5) la])
  have sb: "snap_ok n G b" using sinvD(6) [OF si m] by simp
  show ?thesis
  proof (cases "is_Term b < currentTerm ?rf \<or> is_LastIncludedIndex b \<le> lastApplied ?rf")
    case True
    have "pkt_ok n G (SnapRep i p b q)"
      using safe_adopt [OF inv si pk(1) sb] True q by auto
    moreover have "keeps ?rf rf" using True rf by auto
    ultimately have "sinv n H' C' G s'"
      by (intro safe_keeps [OF inv si pk(1) ev s']) (auto dest: in_diffD)
    then show ?thesis by auto
  next
    case False
    then have "rf = installed b ?rf" using rf by simp
    moreover have "node_ok rf" using InstallSnapShot_quiet [OF d(1) pk(2) h] by simp
    ultimately show ?thesis
      using False by (intro safe_install [OF inv si pk(1) sb _ _ _ _ ev s']) (auto dest: in_diffD)
  qed
qed

text \<open>A leader appends a command.\<close>

lemma safe_started:
  assumes inv: "cinv n H C s" and si: "sinv n H C G s" and i: "i < n"
    and l: "state (nodes s i) = Leader" and rf: "rf = started c (nodes s i)"
    and ev: "evolves n H C s H' C' s'" and s': "s' = put i rf (net s) s"
  shows "\<exists>G'. sinv n H' C' G' s' \<and> ghost_le G G'"
proof -
  let ?rf = "nodes s i" and ?F = "gfull G i"
  let ?t = "currentTerm ?rf"
  note d = peer_okD [OF cinvD(1) [OF inv i]] and li = sinvD(1) [OF si i] and ci = sinvD(2) [OF si i]
  note F = log_invD(1) [OF li]
  have L: "glead G ?t = Some ?F" "\<And>p. p < n \<Longrightarrow> acked G p ?t (matchIndex ?rf ! p)"
    using sinvD(3) [OF si i] l by (auto simp: leader_inv_def)
  have pt: "dterms s i = ?t" "pterm (persister rf) = ?t" using d(8) l by (simp_all add: rf started_def Let_def)
  define e where "e = \<lparr>le_Command = Some c, le_Term = ?t, le_Index = int (length ?F)\<rparr>"
  have lt: "le_Term (last ?F) \<le> ?t"
    using full_terms [OF d(1) li, of "length ?F - 1"] full_log_last [OF good_full [OF F]]
      full_log_simps(4) [OF good_full [OF F]] pt(1) by simp
  have fe: "full_log (?F @ [e])" by (rule full_log_snoc [OF good_full [OF F]]) (use lt in \<open>simp_all add: e_def\<close>)
  define G' where "G' = (stored i (?F @ [e]) ?t G)\<lparr>glead := (glead G)(?t \<mapsto> ?F @ [e])\<rparr>"
  have G': "gfull G' = (gfull G)(i := ?F @ [e])" "glead G' = (glead G)(?t \<mapsto> ?F @ [e])"
    "\<And>N q u. N \<in> gacks G' q u \<longleftrightarrow> N \<in> gacks G q u \<or> q = i \<and> u = ?t \<and> 0 < N \<and> N < Suc (length ?F) \<and> le_Term ((?F @ [e]) ! N) = ?t"
    by (auto simp: G'_def stored_def)
  have good: "good (glead G') (?F @ [e])" unfolding G'(2) by (rule good_snoc [OF F fe _ L(1)]) (simp add: e_def)
  have le: "ghost_le G G'" using L(1) by (auto simp: ghost_le_def grown_def G')
  have mv: "moves (dterms s) (dterms s') G G' i"
    using le evolves_terms [OF ev] pt(1) by (auto simp: moves_def G')
  obtain f where f: "f < length ?F" "logs ?rf = view f ?F" using log_invD(2) [OF li] by blast
  have lg: "logs rf = view f (?F @ [e])"
    using view_snoc [OF f(1), of e] f(2) log_inv_last(1) [OF li] by (simp add: rf started_def Let_def e_def)
  have li': "log_inv n (dterms s') G' i rf"
  proof (rule log_invI [of _ _ f])
    show "acks_ok G' i (pterm (persister rf))"
      by (rule acks_ok_frame [OF log_invD(4) [OF li] le]) (use pt G' in auto)
    show "safe_log n (dterms s') G' i u (gfull G' i)" for u
      unfolding safe_log_def
    proof (intro allI impI)
      fix t0 N assume N: "N \<in> gacks G' i t0" "choosable n (dterms s') G' t0 N"
      show "has G' t0 N (gfull G' i)"
      proof (cases "N \<in> gacks G i t0")
        case True
        have "has G t0 N ?F"
          by (rule safe_logD [OF log_invD(5) [OF li, of "t0 + 1"] _ True choosable_back [OF N(2) mv]]) simp
        then show ?thesis by (rule has_mono [OF _ le]) (simp add: G')
      next
        case False
        then show ?thesis using N(1) good_has(1) [OF good] by (simp add: G')
      qed
    qed
  qed (use good f(1) lg pt(2) G' in simp_all)
  have "committed n G' ?t (nat (commitIndex ?rf)) (?F @ [e])"
    by (rule committed_mono [OF commit_invD(2) [OF ci] le])
       (use commit_invD(2) [OF ci] pt(1) in \<open>simp_all add: committed_def\<close>)
  then have cr: "commit_inv n G' i rf"
    using ci delivered_mono [OF _ le] pt(2) unfolding commit_inv_def by (auto simp: rf started_def Let_def G')
  have "acked G' i ?t (int (length ?F))" by (auto simp: acked_def G')
  moreover have "matchIndex rf = (matchIndex ?rf)[i := int (length ?F)]"
    using log_inv_last(1) [OF li] d(2) by (simp add: rf started_def Let_def)
  moreover have "length (matchIndex ?rf) = n" using d(3,6) by (simp add: arrays_ok_def)
  ultimately have lr: "leader_inv n G' i rf"
    using L(2) acked_mono [OF _ le] i
    by (simp add: leader_inv_def rf started_def Let_def G' nth_list_update)
  have "sinv n H' C' G' s'"
    by (rule sinv_frame [OF inv si i ev s' mv li' cr lr])
       (use l L(1) good in \<open>auto simp: cand_inv_def G' rf started_def Let_def split: if_splits\<close>)
  then show ?thesis using le by blast
qed

section \<open>Every step is safe\<close>

lemma safe_vote_reply:
  assumes inv: "cinv n H C s" and si: "sinv n H C G s" and m: "VoteRep i p a r \<in># net s"
    and h: "handleVoteReply a r (nodes s i) = Some rf"
    and ev: "evolves n H C s H' C' s'" and s': "s' = put i rf (net s - {#VoteRep i p a r#}) s"
  shows "\<exists>G'. sinv n H' C' G' s' \<and> ghost_le G G'"
proof -
  let ?rf = "nodes s i"
  have i: "i < n" using cinvD(4) [OF inv m] by simp
  note d = peer_okD [OF cinvD(1) [OF inv i]]
  have M: "x \<in># net s" if "x \<in># net s - {#VoteRep i p a r#}" for x using that by (rule in_diffD)
  show ?thesis
  proof (cases "keeps ?rf rf")
    case True
    have "sinv n H' C' G s'" by (rule safe_keeps [OF inv si i ev s' True]) (use M in auto)
    then show ?thesis by auto
  next
    case False
    then have "rf = elected (rv_Term a) ?rf \<and> state ?rf = Candidate \<and> currentTerm ?rf = rv_Term a"
      using h unfolding handleVoteReply_ok [OF d(5,6)] by (auto split: if_splits)
    then show ?thesis using safe_elect [OF inv si i ev _ _ _ M] s' by blast
  qed
qed

lemma safe_request_vote:
  assumes inv: "cinv n H C s" and si: "sinv n H C G s" and m: "VoteReq i p a \<in># net s"
    and rv: "RequestVote a (nodes s p) = Some (r, rf)"
    and ev: "evolves n H C s H' C' s'" and s': "s' = put p rf (net s - {#VoteReq i p a#} + {#VoteRep i p a r#}) s"
  shows "sinv n H' C' G s'"
proof -
  let ?rf = "nodes s p"
  have p: "p < n" using cinvD(4) [OF inv m] by simp
  note d = peer_okD [OF cinvD(1) [OF inv p]]
  show ?thesis
  proof (cases "\<not> refuses a ?rf \<and> upToDate a (logs ?rf)")
    case True
    then have "rf = voted a ?rf" using rv d(5) by (simp add: RequestVote_ok)
    then show ?thesis using safe_grant [OF inv si m ev] s' True by simp
  next
    case False
    then have "\<not> rvr_VoteGranted r" "keeps ?rf rf" using rv d(5) by (auto simp: RequestVote_ok split: if_splits)
    then show ?thesis by (intro safe_keeps [OF inv si p ev s']) (auto dest: in_diffD)
  qed
qed

lemma safe_timeout:
  assumes inv: "cinv n H C s" and si: "sinv n H C G s" and i: "i < n"
    and tk: "ticker_election (nodes s i) = Some (calls, rf)"
    and ev: "evolves n H C s H' C' s'" and s': "s' = put i rf (net s + mset (map (\<lambda>(p, a). VoteReq i p a) calls)) s"
  shows "sinv n H' C' G s'"
proof -
  note d = peer_okD [OF cinvD(1) [OF inv i]]
  show ?thesis
  proof (cases "dead (nodes s i)")
    case True
    then have "calls = []" "rf = nodes s i" using tk d(5) by (simp_all add: ticker_election_ok)
    then show ?thesis by (intro safe_keeps [OF inv si i ev s']) auto
  next
    case False
    then have "rf = campaign (nodes s i)" "calls = map (\<lambda>p. (p, ballot (nodes s i))) (others n i)"
      using tk d(2,3,5) by (simp_all add: ticker_election_ok)
    then show ?thesis using s' by (intro safe_campaign [OF inv si i ev]) auto
  qed
qed

lemma Make_revived_ok:
  assumes "node_ok rf1" and "Make n i (Copy (persister rf1)) = Some rf"
  shows "rf = revived n i (persister rf1)"
  using assms(2) Make_revived [of "persister rf1" n i] node_ok_plogs [OF assms(1)] node_ok_log [OF assms(1)] by simp

lemma packet_peer: "packet_ok n H R m \<Longrightarrow> \<exists>i. i < n"
  by (cases m) auto

lemma safe_lose:
  assumes inv: "cinv n H C s" and si: "sinv n H C G s" and m: "m \<in># net s"
    and ev: "evolves n H C s H' C' (s\<lparr>net := net s - {#m#}\<rparr>)"
  shows "sinv n H' C' G (s\<lparr>net := net s - {#m#}\<rparr>)"
proof -
  obtain i where i: "i < n" using packet_peer [OF cinvD(4) [OF inv m]] by blast
  have e: "s\<lparr>net := net s - {#m#}\<rparr> = put i (nodes s i) (net s - {#m#}) s" by (simp add: put_def)
  show ?thesis by (rule safe_keeps [OF inv si i ev e]) (auto dest: in_diffD)
qed

lemma sinv_step:
  assumes st: "cstep n s s'" and inv: "cinv n H C s" and si: "sinv n H C G s"
  shows "\<exists>H' C' G'. cinv n H' C' s' \<and> sinv n H' C' G' s' \<and> ghost_le G G'"
proof -
  obtain H' C' where ev: "evolves n H C s H' C' s'" using cinv_step [OF st inv] by blast
  note ok = peer_okD(1) [OF cinvD(1) [OF inv]]
  have "sinv n H' C' G s' \<or> (\<exists>G'. sinv n H' C' G' s' \<and> ghost_le G G')"
    using st
  proof cases
    case (timeout i calls rf)
    then show ?thesis using safe_timeout [OF inv si _ _ ev] by blast
  next
    case (heartbeat i)
    have "sinv n H' C' G s'" by (rule safe_keeps [OF inv si heartbeat(2) ev heartbeat(1)]) auto
    then show ?thesis by blast
  next
    case (request_vote i p a r rf)
    then show ?thesis using safe_request_vote [OF inv si _ _ ev] by blast
  next
    case (vote_reply i p a r rf)
    then show ?thesis using safe_vote_reply [OF inv si _ _ ev] by blast
  next
    case (send i p q)
    have q: "pkt_ok n G (packet_of i p q)" by (rule safe_send [OF inv si send(2,3,5)])
    have v: "packet_of i p q \<noteq> VoteRep j u a r" "packet_of i p q \<noteq> VoteReq j u a" for j u a r
      by (cases q; simp add: packet_of_def)+
    have "sinv n H' C' G s'" by (rule safe_keeps [OF inv si send(2) ev send(1)]) (use q v v [symmetric] in auto)
    then show ?thesis by blast
  next
    case (append_entry i p a r rf)
    then show ?thesis using safe_append_entry [OF inv si _ _ ev] by blast
  next
    case (append_reply i p a r rf)
    then show ?thesis using safe_append_reply [OF inv si _ _ ev] by blast
  next
    case (install_snapshot i p b q rf)
    then show ?thesis using safe_install_snapshot [OF inv si _ _ ev] by blast
  next
    case (snapshot_reply i p b q rf)
    then show ?thesis using safe_snapshot_reply [OF inv si _ _ ev] by blast
  next
    case (start i c res rf)
    note d = peer_okD [OF cinvD(1) [OF inv start(2)]]
    show ?thesis
    proof (cases "state (nodes s i) = Leader")
      case True
      then have "rf = started c (nodes s i)" using start(3) by (simp add: Start_ok [OF d(4)])
      then show ?thesis using safe_started [OF inv si start(2) True _ ev start(1)] by blast
    next
      case False
      then have "rf = nodes s i" using start(3) by (simp add: Start_ok [OF d(4)])
      then have "sinv n H' C' G s'" by (intro safe_keeps [OF inv si start(2) ev start(1)]) auto
      then show ?thesis by blast
    qed
  next
    case (snapshot i k d rf)
    then show ?thesis using safe_snapshot [OF inv si _ _ ev] by blast
  next
    case (apply_step i rf)
    then show ?thesis using safe_apply [OF inv si _ _ ev] by blast
  next
    case (kill i)
    have "sinv n H' C' G s'" by (rule safe_keeps [OF inv si kill(2) ev kill(1)]) auto
    then show ?thesis by blast
  next
    case (crash i rf)
    note r = Make_revived_ok [OF ok [OF crash(2)] crash(3)]
    show ?thesis using safe_restart [OF inv si crash(2) ev crash(1) r ok [OF crash(2)] refl] by blast
  next
    case (crash_election i rf)
    note k = raised_node_ok [OF ok [OF crash_election(2)]]
    have "sinv n H' C' G s'"
      by (rule safe_restart [OF inv si crash_election(2) ev crash_election(1) Make_revived_ok [OF k crash_election(3)] k])
         (simp add: raised_def)
    then show ?thesis by blast
  next
    case (crash_vote i p a rf)
    then have p: "p < n" using cinvD(4) [OF inv] by fastforce
    note k = stepDown_node_ok [OF ok [OF p], of "rv_Term a"]
    show ?thesis
      using safe_restart [OF inv si p ev crash_vote(1) Make_revived_ok [OF k crash_vote(3)] k] by simp
  next
    case (crash_append i p b rf)
    then have p: "p < n" using cinvD(4) [OF inv] by fastforce
    note k = stepDown_node_ok [OF ok [OF p], of "ae_Term b"]
    show ?thesis
      using safe_restart [OF inv si p ev crash_append(1) Make_revived_ok [OF k crash_append(3)] k] by simp
  next
    case (lose m)
    then show ?thesis using safe_lose [OF inv si] ev by blast
  qed
  then show ?thesis using evolves_cinv [OF ev] ghost_le_refl by blast
qed

section \<open>Reachable states\<close>

definition ghost0 :: "'c ghost" where
  "ghost0 = \<lparr>gfull = (\<lambda>_. generateSingleLog 0 0), glead = (\<lambda>_. None), gacks = (\<lambda>_ _. {})\<rparr>"

lemma sinv_init:
  assumes "cinit n s"
  shows "sinv n (\<lambda>_ _. None) (\<lambda>_ _. {}) ghost0 s"
proof -
  have b: "nodes s i = boot n i MakePersister" if "i < n" for i
  proof -
    have "Make n i MakePersister = Some (nodes s i)" using assms that by (simp add: cinit_def)
    then show ?thesis by (simp add: Make_fresh)
  qed
  have "log_inv n T ghost0 i (nodes s i)" if "i < n" for i T
    using b [OF that]
    by (auto simp: log_inv_def ghost0_def boot_def acks_ok_def safe_log_def good_single
        view_genesis [OF full_log_single])
  moreover have "commit_inv n ghost0 i (nodes s i)" "leader_inv n ghost0 i (nodes s i)"
    "cand_inv n T ghost0 M C i (nodes s i)" if "i < n" for i T M C
    using b [OF that]
    by (simp_all add: commit_inv_def leader_inv_def cand_inv_def boot_def committed_def ghost0_def)
  ultimately show ?thesis using assms by (simp add: sinv_def cinit_def lead_inv_def) (simp add: ghost0_def)
qed

lemma creach_sinv: "creach n s \<Longrightarrow> \<exists>H C G. cinv n H C s \<and> sinv n H C G s"
proof (induction rule: creach.induct)
  case (init s)
  then show ?case using cinv_init sinv_init by blast
next
  case (step s s')
  then show ?case using sinv_step by blast
qed

lemma later_sinv:
  assumes "(cstep n)\<^sup>*\<^sup>* s s'" and "cinv n H C s" and "sinv n H C G s"
  shows "\<exists>H' C' G'. cinv n H' C' s' \<and> sinv n H' C' G' s' \<and> ghost_le G G'"
  using assms
proof (induction rule: rtranclp_induct)
  case base
  then show ?case using ghost_le_refl by blast
next
  case (step s1 s2)
  then obtain H1 C1 G1 where 1: "cinv n H1 C1 s1" "sinv n H1 C1 G1 s1" "ghost_le G G1" by blast
  then obtain H2 C2 G2 where "cinv n H2 C2 s2" "sinv n H2 C2 G2 s2" "ghost_le G1 G2"
    using sinv_step [OF step.hyps(2)] by blast
  then show ?case using ghost_le_trans [OF 1(3)] by blast
qed

section \<open>Log matching, leader completeness, state machine safety\<close>

lemma entry_full:
  assumes "log_inv n T G i rf" and "firstIdx (logs rf) < k" and "k \<le> lastIdx (logs rf)"
  shows "entryAt (logs rf) k = gfull G i ! nat k" and "termAt (logs rf) k = le_Term (gfull G i ! nat k)"
    and "nat k < length (gfull G i)" and "0 < k"
proof -
  obtain f where f: "f < length (gfull G i)" "logs rf = view f (gfull G i)" using log_invD(2) [OF assms(1)] by blast
  have k: "int (nat k) = k" "f < nat k" "nat k < length (gfull G i)"
    using assms(2,3) f log_inv_last(1) [OF assms(1)] by auto
  show "entryAt (logs rf) k = gfull G i ! nat k" "termAt (logs rf) k = le_Term (gfull G i ! nat k)"
    using entryAt_view [OF k(2,3)] termAt_view [OF less_imp_le [OF k(2)] k(3)] f(2) k(1) by simp_all
  show "nat k < length (gfull G i)" "0 < k" using k by auto
qed

text \<open>
  C4: log matching.  If the logs of two peers have entries with the same index and the same
  term, then they agree on every entry up to that index that neither of them has compacted away:
  same term, same index, same command.
\<close>

theorem log_matching:
  assumes "creach n s" and "i < n" and "j < n"
    and "firstIdx (logs (nodes s i)) < k" and "k \<le> lastIdx (logs (nodes s i))"
    and "firstIdx (logs (nodes s j)) < k" and "k \<le> lastIdx (logs (nodes s j))"
    and "termAt (logs (nodes s i)) k = termAt (logs (nodes s j)) k"
    and "firstIdx (logs (nodes s i)) < m" and "firstIdx (logs (nodes s j)) < m" and "m \<le> k"
  shows "entryAt (logs (nodes s i)) m = entryAt (logs (nodes s j)) m"
proof -
  obtain H C G where si: "sinv n H C G s" using creach_sinv [OF assms(1)] by blast
  note i = sinvD(1) [OF si assms(2)] and j = sinvD(1) [OF si assms(3)]
  note ki = entry_full [OF i assms(4,5)] and kj = entry_full [OF j assms(6,7)]
  have "take (Suc (nat k)) (gfull G i) = take (Suc (nat k)) (gfull G j)"
    by (rule good_match [OF log_invD(1) [OF i] log_invD(1) [OF j] ki(3) kj(3)])
       (use ki(2) kj(2) assms(8) in simp)
  then have "gfull G i ! nat m = gfull G j ! nat m"
    using assms(11) by (metis le_imp_less_Suc nat_mono nth_take)
  then show ?thesis
    using entry_full(1) [OF i assms(9)] entry_full(1) [OF j assms(10)] assms(5,7,11) by simp
qed

abbreviation ex_nat :: "nat \<Rightarrow> (nat, nat) Cluster" where
  "ex_nat \<equiv> ex_state 7"

lemmas ex_nat_reach = ex_reach [of "7 :: nat", where ?'b = nat]

text \<open>In the run of \<open>RaftRun\<close> peers 0 and 1 hold the command of term 1 at index 1.\<close>

lemma ex_logs:
  "firstIdx (logs (ex_run c k)) = 0" "lastIdx (logs (ex_run c k)) = 1" "entryAt (logs (ex_run c k)) 1 = ex_cmd c"
  "termAt (logs (ex_run c k)) 1 = 1" "firstIdx (logs (ex_peer c k)) = 0" "lastIdx (logs (ex_peer c k)) = 1"
  "termAt (logs (ex_peer c k)) 1 = 1" "entryAt (logs (ex_peer c k)) 1 = ex_cmd c"
  by (simp_all add: ex_fields firstIdx_def lastIdx_def entryAt_def termAt_def generateSingleLog_def ex_cmd_def)

theorem log_matching_witness:
  "creach 3 (ex_nat 3) \<and> le_Command (entryAt (logs (nodes (ex_nat 3) 0)) 1) = Some 7
   \<and> entryAt (logs (nodes (ex_nat 3) 0)) 1 = entryAt (logs (nodes (ex_nat 3) 1)) 1"
  using log_matching [OF ex_nat_reach(1), of 0 1 1 1] ex_nat_reach(1)
  by (simp add: ex_state_nodes [unfolded One_nat_def] ex_logs) (simp add: ex_cmd_def)

text \<open>
  C2: leader completeness.  Once a peer regards an index as committed, every leader of the same
  or a later term, now or after any number of further steps, has that index in its log, with the
  same entry unless the leader has compacted it away into a snapshot.
\<close>

theorem leader_completeness:
  assumes "creach n s" and "(cstep n)\<^sup>*\<^sup>* s s'" and "i < n" and "j < n"
    and "state (nodes s' j) = Leader" and "currentTerm (nodes s i) \<le> currentTerm (nodes s' j)"
    and "firstIdx (logs (nodes s i)) < k" and "k \<le> commitIndex (nodes s i)"
  shows "k \<le> lastIdx (logs (nodes s i)) \<and> k \<le> lastIdx (logs (nodes s' j))
    \<and> (firstIdx (logs (nodes s' j)) < k \<longrightarrow> entryAt (logs (nodes s' j)) k = entryAt (logs (nodes s i)) k)"
proof -
  obtain H C G where inv: "cinv n H C s" and si: "sinv n H C G s" using creach_sinv [OF assms(1)] by blast
  obtain H' C' G' where si': "sinv n H' C' G' s'" and le: "ghost_le G G'"
    using later_sinv [OF assms(2) inv si] by blast
  note li = sinvD(1) [OF si assms(3)] and ci = commit_invD [OF sinvD(2) [OF si assms(3)]]
  note lj = sinvD(1) [OF si' assms(4)] and d = peer_okD [OF cinvD(1) [OF inv assms(3)]]
  obtain f where "logs (nodes s i) = view f (gfull G i)" using log_invD(2) [OF li] by blast
  then have k: "0 < k" using assms(7) by simp
  have "committed n G' (dterms s i) (nat k) (gfull G i)"
    using committed_grown [OF committed_le [OF ci(2)] le order_refl] assms(8) by simp
  then obtain t N X where t: "t \<le> dterms s i" "chosen n G' t N" "glead G' t = Some X" "nat k \<le> N" "N < length X"
    "take (Suc (nat k)) (gfull G i) = take (Suc (nat k)) X" "nat k < length (gfull G i)"
    using k by (auto simp: committed_def)
  have "t \<le> currentTerm (nodes s' j)" using t(1) d(7) assms(6) by simp
  from leader_has [OF si' assms(4,5) t(2) this t(3,5)]
  have pr: "prefix (take (Suc N) X) (gfull G' j)" using t(3) by (auto simp: has_def)
  then have Nj: "N < length (gfull G' j)" using prefix_length_le [OF pr] t(5) by simp
  have ki: "k \<le> lastIdx (logs (nodes s i))" using log_inv_last(1) [OF li] t(7) k by simp
  have kj: "k \<le> lastIdx (logs (nodes s' j))" using log_inv_last(1) [OF lj] Nj t(4) k by simp
  have "gfull G i ! nat k = X ! nat k" using t(6) by (metis lessI nth_take)
  moreover have "gfull G' j ! nat k = X ! nat k" using nth_prefix [OF pr, of "nat k"] t(4,5) by simp
  ultimately have "entryAt (logs (nodes s' j)) k = entryAt (logs (nodes s i)) k" if "firstIdx (logs (nodes s' j)) < k"
    using entry_full(1) [OF li assms(7) ki] entry_full(1) [OF lj that kj] by simp
  then show ?thesis using ki kj by blast
qed

theorem leader_completeness_witness:
  "commitIndex (nodes (ex_nat 6) 1) = 1 \<and> state (nodes (ex_nat 7) 0) = Leader
   \<and> entryAt (logs (nodes (ex_nat 7) 0)) 1 = entryAt (logs (nodes (ex_nat 6) 1)) 1"
proof -
  have f: "commitIndex (nodes (ex_nat 6) 1) = 1" "state (nodes (ex_nat 7) 0) = Leader"
    "currentTerm (nodes (ex_nat 6) 1) = 1" "currentTerm (nodes (ex_nat 7) 0) = 1"
    "firstIdx (logs (nodes (ex_nat 6) 1)) = 0" "firstIdx (logs (nodes (ex_nat 7) 0)) = 0"
    unfolding ex_state_nodes by (simp_all only: ex_run_fields(2,3) ex_peer_fields(2,7) ex_logs)
  then show ?thesis using leader_completeness [OF ex_nat_reach(2,4), of 1 0 1] by simp
qed

text \<open>
  C1: state machine safety.  If two peers, at any two moments of an execution, have delivered
  commands with the same index on their apply channels, then they have delivered the same
  message: no two replicas ever apply different commands at an index.
\<close>

theorem state_machine_safety:
  assumes "creach n s" and "(cstep n)\<^sup>*\<^sup>* s s'" and "i < n" and "j < n"
    and "m \<in> set (applyCh (nodes s i))" and "m' \<in> set (applyCh (nodes s' j))"
    and "am_CommandValid m" and "am_CommandValid m'" and "am_CommandIndex m = am_CommandIndex m'"
  shows "m = m'"
proof -
  obtain H C G where inv: "cinv n H C s" and si: "sinv n H C G s" using creach_sinv [OF assms(1)] by blast
  obtain H' C' G' where si': "sinv n H' C' G' s'" and le: "ghost_le G G'"
    using later_sinv [OF assms(2) inv si] by blast
  have "delivered n G' m"
    by (rule delivered_mono [OF commit_invD(3) [OF sinvD(2) [OF si assms(3)] assms(5)] le])
  then obtain t N X k where t: "chosen n G' t N" "glead G' t = Some X" "k \<le> N" "N < length X" "m = command_msg (X ! k)"
    using assms(7) by (auto simp: delivered_def)
  obtain u M Y l where u: "chosen n G' u M" "glead G' u = Some Y" "l \<le> M" "M < length Y" "m' = command_msg (Y ! l)"
    using commit_invD(3) [OF sinvD(2) [OF si' assms(4)] assms(6)] assms(8) by (auto simp: delivered_def)
  note g = good_full [OF lead_invD(1) [OF sinvD(5) [OF si']]]
  have "int k = int l"
    using full_log_index [OF g [OF t(2)], of k] full_log_index [OF g [OF u(2)], of l] t(3-5) u(3-5) assms(9)
    by (simp add: command_msg_def)
  then have kl: "l = k" by simp
  have "take (Suc k) X = take (Suc k) Y" by (rule chosen_agree [OF si' t(1-3) u(1,2) u(3) [unfolded kl]])
  then have "X ! k = Y ! k" by (metis lessI nth_take)
  then show ?thesis using t(5) u(5) kl by simp
qed

theorem state_machine_safety_witness:
  "\<exists>m m'. m \<in> set (applyCh (nodes (ex_nat 6) 0)) \<and> m' \<in> set (applyCh (nodes (ex_nat 7) 1))
     \<and> am_CommandIndex m = 1 \<and> am_CommandIndex m' = 1 \<and> m = m'"
proof -
  have m: "command_msg (ex_cmd 7) \<in> set (applyCh (nodes (ex_nat 6) 0))"
    "command_msg (ex_cmd 7) \<in> set (applyCh (nodes (ex_nat 7) 1))"
    unfolding ex_state_nodes by (simp_all add: ex_run_def ex_peer_def Let_def)
  have "am_CommandValid (command_msg (ex_cmd 7))" "am_CommandIndex (command_msg (ex_cmd 7)) = 1"
    by (simp_all add: command_msg_def ex_cmd_def)
  then show ?thesis using state_machine_safety [OF ex_nat_reach(2,4) _ _ m] m by fastforce
qed

end
