(* ===== verification/KVModel.thy ===== *)
theory KVModel
  imports Prelude "HOL-Library.Word" "HOL-Library.Char_ord" "HOL-Library.List_Lexorder"
begin

text \<open>
  The sequential specification of the key/value service (src/src/models1/kv.go), which the tests
  hand to the linearizability checker: a single versioned register, and the partition of a
  history by key.  \<open>KvModel_Partition\<close> is shown to lose nothing: a sequential history is legal
  for the whole store exactly when every part is legal for a single register.
\<close>

section \<open>One key\<close>

type_synonym Tversion = "64 word"

record KvInput =
  in_Op :: nat
  in_Key :: string
  in_Value :: string
  in_Version :: Tversion

record KvOutput =
  out_Value :: string
  out_Version :: Tversion
  out_Err :: string

record KvState =
  st_Value :: string
  st_Version :: Tversion

definition KvModel_Init :: KvState where
  "KvModel_Init = \<lparr>st_Value = '''', st_Version = 0\<rparr>"

text \<open>\<open>None\<close> as the next state is the model's invalid state.\<close>

definition KvModel_Step :: "KvState \<Rightarrow> KvInput \<Rightarrow> KvOutput \<Rightarrow> bool \<times> KvState option" where
  "KvModel_Step st inp out =
     (if in_Op inp = 0 then (out_Value out = st_Value st, Some st)
      else if in_Op inp = 1 then
        (if st_Version st = in_Version inp
         then (out_Err out = ''OK'' \<or> out_Err out = ''ErrMaybe'',
               Some \<lparr>st_Value = in_Value inp, st_Version = st_Version st + 1\<rparr>)
         else (out_Err out = ''ErrVersion'' \<or> out_Err out = ''ErrMaybe'', Some st))
      else (False, None))"

type_synonym operation = "KvInput \<times> KvOutput"

text \<open>A sequential history is legal when every step accepts.\<close>

fun legal :: "KvState \<Rightarrow> operation list \<Rightarrow> bool" where
  "legal st [] = True"
| "legal st ((i, out) # ops) = (case KvModel_Step st i out of
     (ok, Some st') \<Rightarrow> ok \<and> legal st' ops | (ok, None) \<Rightarrow> False)"

section \<open>Partitioning a history by key\<close>

text \<open>The first loop: operations grouped by key in order of arrival.\<close>

fun group_ops :: "operation list \<Rightarrow> (string \<rightharpoonup> operation list) \<Rightarrow> (string \<rightharpoonup> operation list)" where
  "group_ops [] m = m"
| "group_ops (v # hist) m = (let key = in_Key (fst v) in
     group_ops hist (m(key \<mapsto> (case m key of None \<Rightarrow> [] | Some ops \<Rightarrow> ops) @ [v])))"

text \<open>The keys of the grouped map are those of the history, here in order of first occurrence.\<close>

definition KvModel_Partition :: "operation list \<Rightarrow> operation list list" where
  "KvModel_Partition history =
     (let m = group_ops history Map.empty;
          keys = sort (remdups (map (\<lambda>v. in_Key (fst v)) history))
      in map (\<lambda>k. the (m k)) keys)"

lemma group_ops_lookup:
  "group_ops hist m k = (let ops = filter (\<lambda>v. in_Key (fst v) = k) hist in
     if ops = [] then m k else Some ((case m k of None \<Rightarrow> [] | Some x \<Rightarrow> x) @ ops))"
  by (induction hist arbitrary: m) (auto simp: Let_def split: option.splits)

lemma group_ops_dom: "dom (group_ops hist m) = dom m \<union> set (map (\<lambda>v. in_Key (fst v)) hist)"
  by (induction hist arbitrary: m) (auto simp: Let_def split: if_splits)

lemma KvModel_Partition_parts:
  "KvModel_Partition hist = map (\<lambda>k. filter (\<lambda>v. in_Key (fst v) = k) hist)
     (sort (remdups (map (\<lambda>v. in_Key (fst v)) hist)))"
proof -
  have "the (group_ops hist Map.empty k) = filter (\<lambda>v. in_Key (fst v) = k) hist"
    if "k \<in> set (map (\<lambda>v. in_Key (fst v)) hist)" for k
    using that by (force simp: group_ops_lookup Let_def filter_empty_conv)
  then show ?thesis by (simp add: KvModel_Partition_def Let_def)
qed

section \<open>The whole store\<close>

text \<open>The store as a function from keys to registers, and legality of a history for it.\<close>

fun legal_store :: "(string \<Rightarrow> KvState) \<Rightarrow> operation list \<Rightarrow> bool" where
  "legal_store f [] = True"
| "legal_store f ((i, out) # ops) = (case KvModel_Step (f (in_Key i)) i out of
     (ok, Some st') \<Rightarrow> ok \<and> legal_store (f(in_Key i := st')) ops | (ok, None) \<Rightarrow> False)"

lemma legal_store_by_key:
  "legal_store f hist \<longleftrightarrow> (\<forall>k. legal (f k) (filter (\<lambda>v. in_Key (fst v) = k) hist))"
proof (induction hist arbitrary: f)
  case Nil
  then show ?case by simp
next
  case (Cons v hist)
  obtain i out where v: "v = (i, out)" by (cases v)
  show ?case
  proof (cases "KvModel_Step (f (in_Key i)) i out")
    case (Pair ok st)
    show ?thesis
    proof (cases st)
      case None
      have "\<not> legal (f (in_Key i)) (filter (\<lambda>v. in_Key (fst v) = in_Key i) (v # hist))"
        using v Pair None by simp
      then show ?thesis using v Pair None by (auto simp del: filter.simps)
    next
      case (Some st')
      have "(\<forall>k. legal ((f(in_Key i := st')) k) (filter (\<lambda>v. in_Key (fst v) = k) hist)) \<and> ok
          \<longleftrightarrow> (\<forall>k. legal (f k) (filter (\<lambda>v. in_Key (fst v) = k) (v # hist)))"
        using v Pair Some by (auto split: if_splits)
      then show ?thesis using v Pair Some Cons.IH by auto
    qed
  qed
qed

text \<open>
  Checking key by key loses nothing.  A sequential history of the store is legal exactly
  when every part that \<open>Partition\<close> makes of it is legal for the single-key model from its
  initial state; the parts are non-empty, one per key, and together hold every operation once.
\<close>

theorem KvModel_Partition_exact:
  "(legal_store (\<lambda>_. KvModel_Init) hist \<longleftrightarrow> list_all (legal KvModel_Init) (KvModel_Partition hist))
   \<and> mset (concat (KvModel_Partition hist)) = mset hist"
proof
  let ?K = "set (map (\<lambda>v. in_Key (fst v)) hist)"
  have out: "filter (\<lambda>v. in_Key (fst v) = k) hist = []" if "k \<notin> ?K" for k
    using that by (auto simp: filter_empty_conv)
  have "(\<forall>k. legal KvModel_Init (filter (\<lambda>v. in_Key (fst v) = k) hist))
      \<longleftrightarrow> (\<forall>k \<in> ?K. legal KvModel_Init (filter (\<lambda>v. in_Key (fst v) = k) hist))"
  proof (intro iffI allI)
    fix k assume all: "\<forall>k \<in> ?K. legal KvModel_Init (filter (\<lambda>v. in_Key (fst v) = k) hist)"
    show "legal KvModel_Init (filter (\<lambda>v. in_Key (fst v) = k) hist)"
      using all out [of k] by (cases "k \<in> ?K") auto
  qed blast
  then show "legal_store (\<lambda>_. KvModel_Init) hist \<longleftrightarrow> list_all (legal KvModel_Init) (KvModel_Partition hist)"
    unfolding legal_store_by_key KvModel_Partition_parts list_all_iff by simp
  have parts: "mset (concat (map (\<lambda>k. filter (\<lambda>v. g v = k) hist) ks)) = mset (filter (\<lambda>v. g v \<in> set ks) hist)"
    if "distinct ks" for ks and g :: "operation \<Rightarrow> string"
    using that
  proof (induction ks)
    case (Cons k ks)
    have "mset (filter (\<lambda>v. g v = k) hist) + mset (filter (\<lambda>v. g v \<in> set ks) hist)
        = mset (filter (\<lambda>v. g v \<in> set (k # ks)) hist)"
      using Cons.prems by (induction hist) auto
    then show ?case using Cons by simp
  qed simp
  show "mset (concat (KvModel_Partition hist)) = mset hist"
    unfolding KvModel_Partition_parts
    using parts [of "sort (remdups (map (\<lambda>v. in_Key (fst v)) hist))" "\<lambda>v. in_Key (fst v)"] by (simp add: filter_id_conv)
qed

end
