(* ===== verification/KVSrv.thy ===== *)
theory KVSrv
  imports KVModel
begin

text \<open>
  The single key/value server and its clerk (src/src/kvsrv1/server.go, client.go, rpc/rpc.go).
  The server's handlers hold its lock, so they are atomic functions on its state.  The clerk's
  retry loop runs over a schedule of attempts: before each attempt other clients may have
  changed the server, and the attempt's request or its reply may be lost.
\<close>

section \<open>RPC types\<close>

datatype Err = ErrEmpty | OK | ErrNoKey | ErrVersion | ErrMaybe | ErrWrongLeader | ErrWrongGroup

primrec err_str :: "Err \<Rightarrow> string" where
  "err_str ErrEmpty = ''''"
| "err_str OK = ''OK''"
| "err_str ErrNoKey = ''ErrNoKey''"
| "err_str ErrVersion = ''ErrVersion''"
| "err_str ErrMaybe = ''ErrMaybe''"
| "err_str ErrWrongLeader = ''ErrWrongLeader''"
| "err_str ErrWrongGroup = ''ErrWrongGroup''"

record PutArgs =
  pa_Key :: string
  pa_Value :: string
  pa_Version :: Tversion
  pa_ClientId :: int
  pa_SeqNum :: int

record PutReply =
  pr_Err :: Err

record GetArgs =
  ga_Key :: string
  ga_ClientId :: int
  ga_SeqNum :: int

record GetReply =
  gr_Value :: string
  gr_Version :: Tversion
  gr_Err :: Err

section \<open>The server\<close>

record KVPair =
  kv_value :: string
  kv_version :: Tversion

record dupTab =
  lastSeqNum :: int
  lastGetReply :: "GetReply option"
  lastPutReply :: "PutReply option"

record KVServer =
  cache :: "string \<rightharpoonup> KVPair"
  clientMap :: "int \<rightharpoonup> dupTab"

definition MakeKVServer :: KVServer where
  "MakeKVServer = \<lparr>cache = Map.empty, clientMap = Map.empty\<rparr>"

text \<open>The duplicate check of \<open>Get\<close>: the cached reply of the same request.\<close>

definition get_cached :: "GetArgs \<Rightarrow> KVServer \<Rightarrow> GetReply option" where
  "get_cached args kv = (case clientMap kv (ga_ClientId args) of
     Some dup \<Rightarrow> if ga_SeqNum args = lastSeqNum dup then lastGetReply dup else None
   | None \<Rightarrow> None)"

definition srv_Get :: "GetArgs \<Rightarrow> KVServer \<Rightarrow> GetReply \<times> KVServer" where
  "srv_Get args kv = (case get_cached args kv of
     Some r \<Rightarrow> (r, kv)
   | None \<Rightarrow>
       (let reply = (case cache kv (ga_Key args) of
              Some pair \<Rightarrow> \<lparr>gr_Value = kv_value pair, gr_Version = kv_version pair, gr_Err = OK\<rparr>
            | None \<Rightarrow> \<lparr>gr_Value = '''', gr_Version = 0, gr_Err = ErrNoKey\<rparr>)
        in (reply, kv\<lparr>clientMap := (clientMap kv)(ga_ClientId args \<mapsto>
              \<lparr>lastSeqNum = ga_SeqNum args, lastGetReply = Some reply, lastPutReply = None\<rparr>)\<rparr>)))"

text \<open>
  The duplicate check of \<open>Put\<close>: a cached success of the same request that would still succeed.
\<close>

definition dup_hit :: "PutArgs \<Rightarrow> KVServer \<Rightarrow> PutReply option" where
  "dup_hit args kv = (case clientMap kv (pa_ClientId args) of
     None \<Rightarrow> None
   | Some dup \<Rightarrow>
       (if pa_SeqNum args = lastSeqNum dup then
          (case lastPutReply dup of
             None \<Rightarrow> None
           | Some r \<Rightarrow>
               if pr_Err r = OK then
                 (case cache kv (pa_Key args) of
                    Some pair \<Rightarrow> if pa_Version args = kv_version pair then Some r else None
                  | None \<Rightarrow> if pa_Version args = 0 then Some r else None)
               else None)
        else None))"

definition srv_Put :: "PutArgs \<Rightarrow> KVServer \<Rightarrow> PutReply \<times> KVServer" where
  "srv_Put args kv = (case dup_hit args kv of
     Some r \<Rightarrow> (r, kv)
   | None \<Rightarrow>
       (let remember = (\<lambda>reply. (clientMap kv)(pa_ClientId args \<mapsto>
              \<lparr>lastSeqNum = pa_SeqNum args, lastGetReply = None, lastPutReply = Some reply\<rparr>))
        in case cache kv (pa_Key args) of
             Some pair \<Rightarrow>
               if pa_Version args = kv_version pair
               then (\<lparr>pr_Err = OK\<rparr>,
                     kv\<lparr>cache := (cache kv)(pa_Key args \<mapsto>
                            \<lparr>kv_value = pa_Value args, kv_version = kv_version pair + 1\<rparr>),
                        clientMap := remember \<lparr>pr_Err = OK\<rparr>\<rparr>)
               else (\<lparr>pr_Err = ErrVersion\<rparr>, kv)
           | None \<Rightarrow>
               if pa_Version args = 0
               then (\<lparr>pr_Err = OK\<rparr>,
                     kv\<lparr>cache := (cache kv)(pa_Key args \<mapsto> \<lparr>kv_value = pa_Value args, kv_version = 1\<rparr>),
                        clientMap := remember \<lparr>pr_Err = OK\<rparr>\<rparr>)
               else (\<lparr>pr_Err = ErrNoKey\<rparr>, kv)))"

section \<open>The clerk\<close>

record Clerk =
  ck_clientId :: int
  ck_seqNum :: int

definition MakeClerk :: "int \<Rightarrow> Clerk \<times> int" where
  "MakeClerk globalClientId =
     (\<lparr>ck_clientId = globalClientId + 1, ck_seqNum = 0\<rparr>, globalClientId + 1)"

text \<open>What happens to one call: the request or the reply is lost, or both arrive.\<close>

datatype fate = ReqLost | ReplyLost | Delivered

text \<open>One attempt: what the other clients do to the server before it, and its fate.\<close>

type_synonym attempt = "(KVServer \<Rightarrow> KVServer) \<times> fate"

text \<open>
  The loop of \<open>Clerk.Get\<close>.  The result is \<open>None\<close> while no attempt of the schedule has been
  answered.
\<close>

fun Get_loop :: "GetArgs \<Rightarrow> attempt list \<Rightarrow> KVServer \<Rightarrow> GetReply option \<times> KVServer" where
  "Get_loop args [] kv = (None, kv)"
| "Get_loop args ((others, fate) # sched) kv =
     (let kv = others kv in
      case fate of
        ReqLost \<Rightarrow> Get_loop args sched kv
      | ReplyLost \<Rightarrow> Get_loop args sched (snd (srv_Get args kv))
      | Delivered \<Rightarrow> (Some (fst (srv_Get args kv)), snd (srv_Get args kv)))"

definition Clerk_Get :: "string \<Rightarrow> attempt list \<Rightarrow> Clerk \<Rightarrow> KVServer \<Rightarrow>
    (string \<times> Tversion \<times> Err) option \<times> Clerk \<times> KVServer" where
  "Clerk_Get key sched ck kv =
     (let ck = ck\<lparr>ck_seqNum := ck_seqNum ck + 1\<rparr>;
          args = \<lparr>ga_Key = key, ga_ClientId = ck_clientId ck, ga_SeqNum = ck_seqNum ck\<rparr>;
          (r, kv) = Get_loop args sched kv
      in (map_option (\<lambda>r. (gr_Value r, gr_Version r, gr_Err r)) r, ck, kv))"

text \<open>The loop of \<open>Clerk.Put\<close>; the list collects what the server answered, seen or not.\<close>

fun Put_loop :: "PutArgs \<Rightarrow> bool \<Rightarrow> attempt list \<Rightarrow> KVServer \<Rightarrow> Err option \<times> Err list \<times> KVServer" where
  "Put_loop args firstAttempt [] kv = (None, [], kv)"
| "Put_loop args firstAttempt ((others, fate) # sched) kv =
     (let kv = others kv in
      case fate of
        ReqLost \<Rightarrow> Put_loop args False sched kv
      | ReplyLost \<Rightarrow>
          (let (reply, kv) = srv_Put args kv;
               (res, answers, kv) = Put_loop args False sched kv
           in (res, pr_Err reply # answers, kv))
      | Delivered \<Rightarrow>
          (let (reply, kv) = srv_Put args kv;
               err = (if pr_Err reply = ErrVersion \<and> \<not> firstAttempt then ErrMaybe else pr_Err reply)
           in (Some err, [pr_Err reply], kv)))"

definition Clerk_Put :: "string \<Rightarrow> string \<Rightarrow> Tversion \<Rightarrow> attempt list \<Rightarrow> Clerk \<Rightarrow> KVServer \<Rightarrow>
    Err option \<times> Err list \<times> Clerk \<times> KVServer" where
  "Clerk_Put key value version sched ck kv =
     (let ck = ck\<lparr>ck_seqNum := ck_seqNum ck + 1\<rparr>;
          args = \<lparr>pa_Key = key, pa_Value = value, pa_Version = version,
                  pa_ClientId = ck_clientId ck, pa_SeqNum = ck_seqNum ck\<rparr>;
          (res, answers, kv) = Put_loop args True sched kv
      in (res, answers, ck, kv))"

section \<open>Refinement of the sequential specification\<close>

definition kv_abs :: "KVServer \<Rightarrow> string \<Rightarrow> KvState" where
  "kv_abs kv k = (case cache kv k of
     None \<Rightarrow> KvModel_Init | Some p \<Rightarrow> \<lparr>st_Value = kv_value p, st_Version = kv_version p\<rparr>)"

definition put_input :: "PutArgs \<Rightarrow> KvInput" where
  "put_input args = \<lparr>in_Op = 1, in_Key = pa_Key args, in_Value = pa_Value args,
     in_Version = pa_Version args\<rparr>"

definition put_output :: "PutReply \<Rightarrow> KvOutput" where
  "put_output r = \<lparr>out_Value = '''', out_Version = 0, out_Err = err_str (pr_Err r)\<rparr>"

definition get_input :: "GetArgs \<Rightarrow> KvInput" where
  "get_input args = \<lparr>in_Op = 0, in_Key = ga_Key args, in_Value = '''', in_Version = 0\<rparr>"

definition get_output :: "GetReply \<Rightarrow> KvOutput" where
  "get_output r = \<lparr>out_Value = gr_Value r, out_Version = gr_Version r, out_Err = err_str (gr_Err r)\<rparr>"

lemmas srv_defs = kv_abs_def put_input_def put_output_def get_input_def get_output_def
  KvModel_Step_def KvModel_Init_def



section \<open>At most once\<close>

text \<open>
  What the other clients may do between two attempts: versions of the key grow, the key is not
  deleted, and this clerk's entry of the duplicate table is left alone.  The version has not
  reached the last 64-bit value, from which it would wrap to 0.
\<close>

definition grows :: "string \<Rightarrow> KVServer \<Rightarrow> KVServer \<Rightarrow> bool" where
  "grows k kv kv' \<longleftrightarrow> (case cache kv k of None \<Rightarrow> True
     | Some p \<Rightarrow> (case cache kv' k of None \<Rightarrow> False | Some p' \<Rightarrow> kv_version p \<le> kv_version p'))"

definition no_wrap :: "string \<Rightarrow> KVServer \<Rightarrow> bool" where
  "no_wrap k kv \<longleftrightarrow> (case cache kv k of None \<Rightarrow> True | Some p \<Rightarrow> kv_version p < - 1)"

fun sched_ok :: "PutArgs \<Rightarrow> attempt list \<Rightarrow> KVServer \<Rightarrow> bool" where
  "sched_ok args [] kv = True"
| "sched_ok args ((others, fate) # sched) kv =
     (grows (pa_Key args) kv (others kv) \<and> no_wrap (pa_Key args) (others kv)
      \<and> clientMap (others kv) (pa_ClientId args) = clientMap kv (pa_ClientId args)
      \<and> sched_ok args sched (if fate = ReqLost then others kv else snd (srv_Put args (others kv))))"

text \<open>The request has taken effect: the key's version is past the one it asked for.\<close>

definition past :: "PutArgs \<Rightarrow> KVServer \<Rightarrow> bool" where
  "past args kv \<longleftrightarrow> (case cache kv (pa_Key args) of None \<Rightarrow> False | Some p \<Rightarrow> pa_Version args < kv_version p)"

definition unseen :: "PutArgs \<Rightarrow> KVServer \<Rightarrow> bool" where
  "unseen args kv \<longleftrightarrow> (case clientMap kv (pa_ClientId args) of None \<Rightarrow> True
     | Some d \<Rightarrow> lastSeqNum d \<noteq> pa_SeqNum args)"

lemma word_succ_greater: "(v :: 64 word) < - 1 \<Longrightarrow> v < v + 1"
  using inc_less_eq_triv_imp [of v] by (auto simp: not_le [symmetric])

lemma version_1_no_wrap: "(1 :: 64 word) < - 1"
  by (simp add: word_less_def unsigned_minus_1_eq_mask mask_eq_exp_minus_1)

lemma past_grows: "past args kv \<Longrightarrow> grows (pa_Key args) kv kv' \<Longrightarrow> past args kv'"
  by (auto simp: past_def grows_def split: option.splits)

lemma unseen_no_hit: "unseen args kv \<Longrightarrow> dup_hit args kv = None"
  by (auto simp: unseen_def dup_hit_def split: option.splits)

lemma past_Put:
  assumes "past args kv"
  shows "srv_Put args kv = (\<lparr>pr_Err = ErrVersion\<rparr>, kv)"
  using assms by (auto simp: past_def srv_Put_def dup_hit_def Let_def split: option.splits if_splits)

text \<open>A first execution: it succeeds and passes the version, or it changes nothing.\<close>

lemma unseen_Put:
  assumes "unseen args kv" and "no_wrap (pa_Key args) kv"
  shows "pr_Err (fst (srv_Put args kv)) = OK \<and> past args (snd (srv_Put args kv))
    \<or> pr_Err (fst (srv_Put args kv)) = ErrVersion \<and> snd (srv_Put args kv) = kv
    \<or> pr_Err (fst (srv_Put args kv)) = ErrNoKey \<and> snd (srv_Put args kv) = kv"
proof (cases "cache kv (pa_Key args)")
  case None
  then show ?thesis using unseen_no_hit [OF assms(1)] by (simp add: srv_Put_def past_def)
next
  case (Some p)
  then have "kv_version p < kv_version p + 1"
    using assms(2) word_succ_greater by (simp add: no_wrap_def)
  then show ?thesis using Some unseen_no_hit [OF assms(1)] by (simp add: srv_Put_def past_def)
qed

lemma Put_loop_past:
  assumes "past args kv" and "sched_ok args sched kv"
  shows "fst (Put_loop args False sched kv) \<in> {None, Some ErrMaybe}
    \<and> set (fst (snd (Put_loop args False sched kv))) \<subseteq> {ErrVersion}"
  using assms
proof (induction sched arbitrary: kv)
  case Nil
  then show ?case by simp
next
  case (Cons a sched)
  obtain others fate where a: "a = (others, fate)" by (cases a)
  have p: "past args (others kv)" using Cons.prems a past_grows by auto
  show ?case
    using Cons.IH [OF p] Cons.prems(2) past_Put [OF p]
    by (cases fate) (auto simp: a split: prod.splits)
qed

text \<open>What a result of the loop says about the answers the server gave.\<close>

definition once :: "bool \<Rightarrow> Err option \<Rightarrow> Err list \<Rightarrow> bool" where
  "once firstAttempt res answers \<longleftrightarrow>
    (res = Some OK \<longrightarrow> count_list answers OK = 1)
    \<and> (res = Some ErrVersion \<or> res = Some ErrNoKey \<longrightarrow> count_list answers OK = 0)
    \<and> count_list answers OK \<le> 1
    \<and> res \<in> {None, Some OK, Some ErrNoKey, Some ErrMaybe} \<union> (if firstAttempt then {Some ErrVersion} else {})"

lemma once_later: "once False res answers \<Longrightarrow> once firstAttempt res answers"
  by (auto simp: once_def)

lemma once_refused: "once False res answers \<Longrightarrow> e \<noteq> OK \<Longrightarrow> once firstAttempt res (e # answers)"
  by (auto simp: once_def)

lemma once_passed:
  "res \<in> {None, Some ErrMaybe} \<Longrightarrow> set answers \<subseteq> {ErrVersion} \<Longrightarrow> once firstAttempt res (OK # answers)"
  by (auto simp: once_def count_list_0_iff)

lemma Put_loop_once:
  assumes "unseen args kv" and "sched_ok args sched kv"
  shows "once firstAttempt (fst (Put_loop args firstAttempt sched kv))
    (fst (snd (Put_loop args firstAttempt sched kv)))"
  using assms
proof (induction sched arbitrary: kv firstAttempt)
  case Nil
  then show ?case by (simp add: once_def)
next
  case (Cons a sched)
  obtain others fate where a: "a = (others, fate)" by (cases a)
  let ?kv = "others kv"
  let ?e = "pr_Err (fst (srv_Put args ?kv))" and ?kv' = "snd (srv_Put args ?kv)"
  have u: "unseen args ?kv" and w: "no_wrap (pa_Key args) ?kv" using Cons.prems a by (auto simp: unseen_def)
  note put = unseen_Put [OF u w]
  show ?case
  proof (cases fate)
    case ReqLost
    then show ?thesis
      using once_later [OF Cons.IH [OF u, of False]] Cons.prems(2) a by simp
  next
    case Delivered
    have "once firstAttempt (Some (if ?e = ErrVersion \<and> \<not> firstAttempt then ErrMaybe else ?e)) [?e]"
      using put by (auto simp: once_def)
    then show ?thesis by (simp add: a Delivered Let_def split_beta)
  next
    case ReplyLost
    have ok: "sched_ok args sched ?kv'" using Cons.prems(2) a ReplyLost by simp
    let ?r = "Put_loop args False sched ?kv'"
    have "once firstAttempt (fst ?r) (?e # fst (snd ?r))"
    proof (cases "?e = OK")
      case True
      then have "past args ?kv'" using put by auto
      then show ?thesis using Put_loop_past [OF _ ok] True once_passed by simp
    next
      case False
      then have "?kv' = ?kv" using put by auto
      then show ?thesis using once_refused [OF Cons.IH [OF u, of False] False] ok by simp
    qed
    then show ?thesis by (simp add: a ReplyLost Let_def split_beta)
  qed
qed

lemma retry_no_ErrVersion: "fst (Put_loop args False sched kv) \<noteq> Some ErrVersion"
  by (induction sched arbitrary: kv) (auto simp: Let_def split_beta split: fate.splits if_splits)

text \<open>
  C25: at most once.  Over any schedule of lost requests and lost replies, interleaved with any
  writes of other clients, a \<open>Put\<close> of the clerk that answers \<open>OK\<close> has been executed exactly once,
  one that answers \<open>ErrVersion\<close> or \<open>ErrNoKey\<close> has not been executed, and in no case has it been
  executed twice; \<open>ErrVersion\<close> after a retry is reported as \<open>ErrMaybe\<close>.
\<close>

theorem Clerk_Put_at_most_once:
  assumes "Clerk_Put key value version sched ck kv = (res, answers, ck', kv')"
    and "args = \<lparr>pa_Key = key, pa_Value = value, pa_Version = version,
           pa_ClientId = ck_clientId ck, pa_SeqNum = ck_seqNum ck + 1\<rparr>"
    and "unseen args kv" and "sched_ok args sched kv"
  shows "count_list answers OK \<le> 1
    \<and> (res = Some OK \<longrightarrow> count_list answers OK = 1)
    \<and> (res = Some ErrVersion \<or> res = Some ErrNoKey \<longrightarrow> count_list answers OK = 0)
    \<and> (sched \<noteq> [] \<and> snd (hd sched) \<noteq> Delivered \<longrightarrow> res \<noteq> Some ErrVersion)"
proof -
  have r: "Put_loop args True sched kv = (res, answers, kv')"
    using assms(1,2) by (auto simp: Clerk_Put_def split: prod.splits)
  have o: "once True res answers" using Put_loop_once [OF assms(3,4), of True] r by simp
  have "res \<noteq> Some ErrVersion" if "sched = (f, fate) # rest" "fate \<noteq> Delivered" for f fate rest
    using r that retry_no_ErrVersion [of args rest "f kv"]
      retry_no_ErrVersion [of args rest "snd (srv_Put args (f kv))"]
    by (cases fate) (auto simp: Let_def split_beta)
  then show ?thesis using o by (cases sched) (auto simp: once_def)
qed

definition ex_put :: "attempt list \<Rightarrow> Err option \<times> Err list \<times> Clerk \<times> KVServer" where
  "ex_put sched = Clerk_Put ''x'' ''v'' 0 sched \<lparr>ck_clientId = 1, ck_seqNum = 0\<rparr> MakeKVServer"

theorem Clerk_Put_at_most_once_witness:
  "fst (ex_put [(id, ReplyLost), (id, Delivered)]) = Some ErrMaybe
   \<and> count_list (fst (snd (ex_put [(id, ReplyLost), (id, Delivered)]))) OK \<le> 1"
proof -
  let ?s = "[(id, ReplyLost), (id, Delivered)]"
  let ?a = "\<lparr>pa_Key = ''x'', pa_Value = ''v'', pa_Version = 0, pa_ClientId = 1, pa_SeqNum = 1\<rparr>"
  have h: "unseen ?a MakeKVServer" "sched_ok ?a ?s MakeKVServer"
    by (simp_all add: unseen_def MakeKVServer_def grows_def no_wrap_def srv_Put_def dup_hit_def
        version_1_no_wrap)
  obtain res answers ck' kv' where r: "ex_put ?s = (res, answers, ck', kv')" by (metis prod_cases4)
  have "fst (ex_put ?s) = Some ErrMaybe"
    by (simp add: ex_put_def Clerk_Put_def MakeKVServer_def srv_Put_def dup_hit_def Let_def)
  then show ?thesis
    using Clerk_Put_at_most_once [OF r [unfolded ex_put_def] refl] h r by simp
qed

end
