(* ===== verification/Lock.thy ===== *)
theory Lock
  imports KVSrv
begin

text \<open>
  The distributed lock (src/src/kvsrv1/lock/lock.go) on top of the clerk and the key/value
  server.  \<open>Acquire\<close> and \<open>Release\<close> are loops around clerk calls; they are split at those calls,
  and the clerk's calls at their RPCs, so that the steps of many clients interleave at the
  granularity of single RPCs whose requests and replies may be lost.
\<close>

section \<open>The loops\<close>

datatype lock_action = Return | Retry | DoPut string Tversion

text \<open>The body of \<open>Acquire\<close> after \<open>Get\<close> and after \<open>Put\<close>, for a client with the given id.\<close>

definition Acquire_get :: "string \<Rightarrow> GetReply \<Rightarrow> lock_action" where
  "Acquire_get clientID r =
     (if gr_Err r = ErrNoKey then DoPut clientID 0
      else if gr_Err r = OK then
        (if gr_Value r = clientID then Return
         else if gr_Value r = '''' then DoPut clientID (gr_Version r)
         else Retry)
      else Retry)"

definition Acquire_put :: "Err \<Rightarrow> lock_action" where
  "Acquire_put err = (if err = OK then Return else Retry)"

definition Release_get :: "string \<Rightarrow> GetReply \<Rightarrow> lock_action" where
  "Release_get clientID r =
     (if gr_Err r = ErrNoKey then Return
      else if gr_Err r = OK then
        (if gr_Value r = clientID then DoPut '''' (gr_Version r) else Return)
      else Retry)"

definition Release_put :: "Err \<Rightarrow> lock_action" where
  "Release_put err = (if err = OK then Return else Retry)"

section \<open>Interleaved clients\<close>

datatype lock_op = Acq | Rel

text \<open>
  Where a client is: outside, inside the critical section, in a \<open>Get\<close> call, or in a \<open>Put\<close> call
  with its value, its version and whether it is the first attempt.
\<close>

datatype lockpc = Idle | Holding | InGet lock_op | InPut lock_op string Tversion bool

record LockSys =
  srv :: KVServer
  pc :: "nat \<Rightarrow> lockpc"
  seq :: "nat \<Rightarrow> int"

definition lock_get_args :: "string \<Rightarrow> nat \<Rightarrow> LockSys \<Rightarrow> GetArgs" where
  "lock_get_args l i s = \<lparr>ga_Key = l, ga_ClientId = int i, ga_SeqNum = seq s i\<rparr>"

definition lock_put_args :: "string \<Rightarrow> nat \<Rightarrow> string \<Rightarrow> Tversion \<Rightarrow> LockSys \<Rightarrow> PutArgs" where
  "lock_put_args l i value v s =
     \<lparr>pa_Key = l, pa_Value = value, pa_Version = v, pa_ClientId = int i, pa_SeqNum = seq s i\<rparr>"

text \<open>Entering a clerk call: \<open>ck.seqNum++\<close>.\<close>

definition enter :: "nat \<Rightarrow> lockpc \<Rightarrow> LockSys \<Rightarrow> LockSys" where
  "enter i p s = s\<lparr>pc := (pc s)(i := p), seq := (seq s)(i := seq s i + 1)\<rparr>"

definition leave :: "nat \<Rightarrow> lockpc \<Rightarrow> LockSys \<Rightarrow> LockSys" where
  "leave i p s = s\<lparr>pc := (pc s)(i := p)\<rparr>"

text \<open>What follows a clerk call of \<open>Acquire\<close> or \<open>Release\<close>.\<close>

fun continue :: "nat \<Rightarrow> lock_op \<Rightarrow> lock_action \<Rightarrow> LockSys \<Rightarrow> LockSys" where
  "continue i Acq Return s = leave i Holding s"
| "continue i Rel Return s = leave i Idle s"
| "continue i m Retry s = enter i (InGet m) s"
| "continue i m (DoPut value v) s = enter i (InPut m value v True) s"

definition after_get :: "string \<Rightarrow> lock_op \<Rightarrow> GetReply \<Rightarrow> lock_action" where
  "after_get clientID m r = (case m of Acq \<Rightarrow> Acquire_get clientID r | Rel \<Rightarrow> Release_get clientID r)"

definition after_put :: "lock_op \<Rightarrow> Err \<Rightarrow> lock_action" where
  "after_put m err = (case m of Acq \<Rightarrow> Acquire_put err | Rel \<Rightarrow> Release_put err)"

text \<open>
  The steps.  An attempt whose request is lost changes at most \<open>firstAttempt\<close>.  The version of
  the lock's key has not reached the last 64-bit value.
\<close>

inductive lock_step :: "string \<Rightarrow> (nat \<Rightarrow> string) \<Rightarrow> LockSys \<Rightarrow> LockSys \<Rightarrow> bool" for l ids where
  acquire: "pc s i = Idle \<Longrightarrow> lock_step l ids s (enter i (InGet Acq) s)"
| release: "pc s i = Holding \<Longrightarrow> lock_step l ids s (enter i (InGet Rel) s)"
| get_reply_lost: "pc s i = InGet m \<Longrightarrow> srv_Get (lock_get_args l i s) (srv s) = (r, kv) \<Longrightarrow>
    lock_step l ids s (s\<lparr>srv := kv\<rparr>)"
| get_done: "pc s i = InGet m \<Longrightarrow> srv_Get (lock_get_args l i s) (srv s) = (r, kv) \<Longrightarrow>
    lock_step l ids s (continue i m (after_get (ids i) m r) (s\<lparr>srv := kv\<rparr>))"
| put_request_lost: "pc s i = InPut m value v b \<Longrightarrow>
    lock_step l ids s (leave i (InPut m value v False) s)"
| put_reply_lost: "pc s i = InPut m value v b \<Longrightarrow> no_wrap l (srv s) \<Longrightarrow>
    srv_Put (lock_put_args l i value v s) (srv s) = (q, kv) \<Longrightarrow>
    lock_step l ids s (leave i (InPut m value v False) (s\<lparr>srv := kv\<rparr>))"
| put_done: "pc s i = InPut m value v b \<Longrightarrow> no_wrap l (srv s) \<Longrightarrow>
    srv_Put (lock_put_args l i value v s) (srv s) = (q, kv) \<Longrightarrow>
    err = (if pr_Err q = ErrVersion \<and> \<not> b then ErrMaybe else pr_Err q) \<Longrightarrow>
    lock_step l ids s (continue i m (after_put m err) (s\<lparr>srv := kv\<rparr>))"

definition lock_init :: LockSys where
  "lock_init = \<lparr>srv = MakeKVServer, pc = (\<lambda>_. Idle), seq = (\<lambda>_. 0)\<rparr>"

inductive lock_reach :: "string \<Rightarrow> (nat \<Rightarrow> string) \<Rightarrow> LockSys \<Rightarrow> bool" for l ids where
  init: "lock_reach l ids lock_init"
| step: "lock_reach l ids s \<Longrightarrow> lock_step l ids s s' \<Longrightarrow> lock_reach l ids s'"

section \<open>The lock's register\<close>

text \<open>The lock's key as a register; a missing key is the empty value at version 0.\<close>

definition lval :: "string \<Rightarrow> KVServer \<Rightarrow> string" where
  "lval l kv = (case cache kv l of None \<Rightarrow> '''' | Some p \<Rightarrow> kv_value p)"

definition lver :: "string \<Rightarrow> KVServer \<Rightarrow> Tversion" where
  "lver l kv = (case cache kv l of None \<Rightarrow> 0 | Some p \<Rightarrow> kv_version p)"

definition key_ok :: "string \<Rightarrow> KVServer \<Rightarrow> bool" where
  "key_ok l kv \<longleftrightarrow> (case cache kv l of None \<Rightarrow> True | Some p \<Rightarrow> kv_version p \<noteq> 0)"

lemma Get_register:
  assumes "srv_Get args kv = (r, kv')" and "ga_Key args = l"
  shows "cache kv' = cache kv"
    and "get_cached args kv = Some r \<and> kv' = kv \<or>
      gr_Value r = lval l kv \<and> gr_Version r = lver l kv \<and> gr_Err r \<in> {OK, ErrNoKey}
      \<and> (gr_Err r = ErrNoKey \<longrightarrow> lver l kv = 0 \<and> lval l kv = '''')
      \<and> clientMap kv' = (clientMap kv)(ga_ClientId args \<mapsto>
          \<lparr>lastSeqNum = ga_SeqNum args, lastGetReply = Some r, lastPutReply = None\<rparr>)"
  using assms by (auto simp: srv_Get_def lval_def lver_def Let_def split: option.splits)

lemma Put_register:
  assumes p: "srv_Put args kv = (q, kv')" and nd: "dup_hit args kv = None"
    and k: "key_ok (pa_Key args) kv" and w: "no_wrap (pa_Key args) kv"
  shows "key_ok (pa_Key args) kv' \<and>
     (pr_Err q = OK \<and> lver (pa_Key args) kv = pa_Version args
        \<and> lver (pa_Key args) kv < lver (pa_Key args) kv' \<and> lval (pa_Key args) kv' = pa_Value args
        \<and> clientMap kv' = (clientMap kv)(pa_ClientId args \<mapsto>
            \<lparr>lastSeqNum = pa_SeqNum args, lastGetReply = None, lastPutReply = Some q\<rparr>)
      \<or> pr_Err q \<noteq> OK \<and> kv' = kv)"
proof (cases "cache kv (pa_Key args)")
  case None
  then show ?thesis
    using p nd by (cases "pa_Version args = 0") (auto simp: srv_Put_def key_ok_def lver_def lval_def)
next
  case (Some pair)
  have up: "kv_version pair < kv_version pair + 1" "kv_version pair \<noteq> 0"
    using Some k w word_succ_greater by (simp_all add: key_ok_def no_wrap_def)
  then have "kv_version pair + 1 \<noteq> 0" by auto
  then show ?thesis
    using p nd Some up
    by (cases "pa_Version args = kv_version pair") (auto simp: srv_Put_def key_ok_def lver_def lval_def)
qed

section \<open>Mutual exclusion\<close>

text \<open>
  A reply seen by a client: at the version it carries the register held its value, and if it is
  the client's own id then the register still holds it, since only the client removes it.
\<close>

definition obs :: "string \<Rightarrow> string \<Rightarrow> KVServer \<Rightarrow> GetReply \<Rightarrow> bool" where
  "obs l me kv r \<longleftrightarrow> gr_Version r \<le> lver l kv \<and> (gr_Version r = lver l kv \<longrightarrow> gr_Value r = lval l kv)
     \<and> (gr_Value r = me \<longrightarrow> lval l kv = me) \<and> gr_Err r \<in> {OK, ErrNoKey}
     \<and> (gr_Err r = ErrNoKey \<longrightarrow> gr_Version r = 0 \<and> gr_Value r = '''')"

fun pc_ok :: "string \<Rightarrow> string \<Rightarrow> KVServer \<Rightarrow> lockpc \<Rightarrow> bool" where
  "pc_ok l me kv Holding = (lval l kv = me)"
| "pc_ok l me kv (InPut Acq value v b) = (value = me \<and> v \<le> lver l kv \<and> (v = lver l kv \<longrightarrow> lval l kv = ''''))"
| "pc_ok l me kv (InPut Rel value v b) = (value = '''' \<and> v \<le> lver l kv \<and> (v = lver l kv \<longrightarrow> lval l kv = me))"
| "pc_ok l me kv _ = True"

fun call_ok :: "string \<Rightarrow> string \<Rightarrow> KVServer \<Rightarrow> dupTab \<Rightarrow> lockpc \<Rightarrow> bool" where
  "call_ok l me kv d (InGet m) = (\<forall>r. lastGetReply d = Some r \<longrightarrow> obs l me kv r)"
| "call_ok l me kv d (InPut m value v b) = (lastPutReply d = None \<or> v < lver l kv)"
| "call_ok l me kv d _ = True"

definition dup_ok :: "string \<Rightarrow> string \<Rightarrow> KVServer \<Rightarrow> dupTab option \<Rightarrow> int \<Rightarrow> lockpc \<Rightarrow> bool" where
  "dup_ok l me kv d sq p = (case d of None \<Rightarrow> True
     | Some d \<Rightarrow> lastSeqNum d \<le> sq \<and> (lastSeqNum d = sq \<longrightarrow> call_ok l me kv d p))"

definition client_ok :: "string \<Rightarrow> (nat \<Rightarrow> string) \<Rightarrow> KVServer \<Rightarrow> nat \<Rightarrow> lockpc \<Rightarrow> int \<Rightarrow> bool" where
  "client_ok l ids kv i p sq \<longleftrightarrow> pc_ok l (ids i) kv p \<and> dup_ok l (ids i) kv (clientMap kv (int i)) sq p"

definition linv :: "string \<Rightarrow> (nat \<Rightarrow> string) \<Rightarrow> LockSys \<Rightarrow> bool" where
  "linv l ids s \<longleftrightarrow> key_ok l (srv s) \<and> (\<forall>i. client_ok l ids (srv s) i (pc s i) (seq s i))"

lemma register_cong:
  assumes "cache kv' = cache kv"
  shows "lval l kv' = lval l kv" "lver l kv' = lver l kv" "key_ok l kv' = key_ok l kv"
    "no_wrap l kv' = no_wrap l kv" "obs l me kv' r = obs l me kv r" "pc_ok l me kv' p = pc_ok l me kv p"
proof -
  show r: "lval l kv' = lval l kv" "lver l kv' = lver l kv" "key_ok l kv' = key_ok l kv"
    "no_wrap l kv' = no_wrap l kv"
    using assms by (simp_all add: lval_def lver_def key_ok_def no_wrap_def)
  show o: "obs l me kv' r = obs l me kv r" for r by (simp add: obs_def r)
  show "pc_ok l me kv' p = pc_ok l me kv p"
  proof (cases p)
    case (InPut m x v b)
    then show ?thesis by (cases m) (simp_all add: r)
  qed (simp_all add: r)
qed

lemma call_ok_cong:
  assumes "cache kv' = cache kv"
  shows "call_ok l me kv' d p = call_ok l me kv d p"
  by (cases p) (simp_all add: register_cong [OF assms])

text \<open>The clients that do not move, when the register keeps or is taken from a free or own state.\<close>

lemma client_ok_read:
  assumes "client_ok l ids kv i p sq" and "cache kv' = cache kv" and "clientMap kv' (int i) = clientMap kv (int i)"
  shows "client_ok l ids kv' i p sq"
  using assms(1,3)
  by (auto simp: client_ok_def dup_ok_def register_cong [OF assms(2)] call_ok_cong [OF assms(2)]
      split: option.splits)

lemma obs_write:
  assumes "obs l me kv r" and "lver l kv < lver l kv'" and "lval l kv \<noteq> me"
  shows "obs l me kv' r"
  using assms by (auto simp: obs_def)

lemma client_ok_write:
  assumes ok: "client_ok l ids kv i p sq" and v: "lver l kv < lver l kv'" and other: "lval l kv \<noteq> ids i"
    and m: "clientMap kv' (int i) = clientMap kv (int i)"
  shows "client_ok l ids kv' i p sq"
proof -
  have "pc_ok l (ids i) kv' p" if "pc_ok l (ids i) kv p"
  proof (cases p)
    case (InPut m x w b)
    then show ?thesis using that v by (cases m) auto
  qed (use that other in auto)
  moreover have "call_ok l (ids i) kv' d p" if "call_ok l (ids i) kv d p" for d
    using that v obs_write [OF _ v other] by (cases p) auto
  ultimately show ?thesis using ok m by (auto simp: client_ok_def dup_ok_def split: option.splits)
qed

text \<open>Entering a call with a fresh sequence number, or leaving one.\<close>

lemma client_ok_enter:
  assumes "client_ok l ids kv i p sq" and "pc_ok l (ids i) kv p'"
  shows "client_ok l ids kv i p' (sq + 1)"
  using assms by (auto simp: client_ok_def dup_ok_def split: option.splits)

lemma client_ok_leave:
  assumes "client_ok l ids kv i p sq" and "pc_ok l (ids i) kv p'" and "p' \<in> {Idle, Holding}"
  shows "client_ok l ids kv i p' sq"
  using assms by (auto simp: client_ok_def dup_ok_def split: option.splits)

lemma client_ok_continue:
  assumes "client_ok l ids kv i p sq" and "a = Return \<Longrightarrow> m = Acq \<Longrightarrow> lval l kv = ids i"
    and "\<And>x v. a = DoPut x v \<Longrightarrow> pc_ok l (ids i) kv (InPut m x v True)"
    and "seq s i = sq"
  shows "client_ok l ids kv i (pc (continue i m a s) i) (seq (continue i m a s) i)"
proof (cases a)
  case Return
  then show ?thesis
    using assms client_ok_leave [OF assms(1), of Idle] client_ok_leave [OF assms(1), of Holding]
    by (cases m) (auto simp: leave_def)
next
  case Retry
  then show ?thesis using assms client_ok_enter [OF assms(1), of "InGet m"] by (simp add: enter_def)
next
  case (DoPut x v)
  then show ?thesis using assms client_ok_enter [OF assms(1)] by (simp add: enter_def)
qed

lemma continue_simps [simp]:
  "srv (continue i m a s) = srv s" "j \<noteq> i \<Longrightarrow> pc (continue i m a s) j = pc s j"
  "j \<noteq> i \<Longrightarrow> seq (continue i m a s) j = seq s j"
  by (cases a; cases m; simp add: enter_def leave_def)+

text \<open>The hypotheses on the clients' ids, which are random strings of eight letters.\<close>

definition ids_ok :: "(nat \<Rightarrow> string) \<Rightarrow> bool" where
  "ids_ok ids \<longleftrightarrow> inj ids \<and> '''' \<notin> range ids"

lemma linvD: "linv l ids s \<Longrightarrow> client_ok l ids (srv s) i (pc s i) (seq s i)"
  and linv_key: "linv l ids s \<Longrightarrow> key_ok l (srv s)"
  by (simp_all add: linv_def)

text \<open>After a \<open>Get\<close>, executed or answered from the cache, the client has seen the register.\<close>

lemma get_step:
  assumes inv: "linv l ids s" and pc: "pc s i = InGet m"
    and g: "srv_Get (lock_get_args l i s) (srv s) = (r, kv)"
  shows "obs l (ids i) kv r" and "linv l ids (s\<lparr>srv := kv\<rparr>)"
proof -
  note G = Get_register [OF g, of l]
  have key: "ga_Key (lock_get_args l i s) = l" by (simp add: lock_get_args_def)
  note c = G(1) [OF key]
  have new: "obs l (ids i) kv r"
    if "gr_Value r = lval l (srv s)" "gr_Version r = lver l (srv s)" "gr_Err r \<in> {OK, ErrNoKey}"
      "gr_Err r = ErrNoKey \<longrightarrow> lver l (srv s) = 0 \<and> lval l (srv s) = ''''"
    using that by (auto simp: obs_def register_cong [OF c])
  have old: "obs l (ids i) (srv s) r" if "get_cached (lock_get_args l i s) (srv s) = Some r"
    using that linvD [OF inv, of i] pc
    by (auto simp: get_cached_def lock_get_args_def client_ok_def dup_ok_def split: option.splits if_splits)
  show o: "obs l (ids i) kv r" using G(2) [OF key] new old by auto
  have "client_ok l ids kv j (pc s j) (seq s j)" for j
  proof (cases "j = i")
    case False
    then have "clientMap kv (int j) = clientMap (srv s) (int j)"
      using G(2) [OF key] by (auto simp: lock_get_args_def)
    then show ?thesis by (rule client_ok_read [OF linvD [OF inv] c])
  next
    case True
    have "kv = srv s \<or> clientMap kv (int i) =
        Some \<lparr>lastSeqNum = seq s i, lastGetReply = Some r, lastPutReply = None\<rparr>"
      using G(2) [OF key] by (auto simp: lock_get_args_def)
    then show ?thesis using True linvD [OF inv, of i] o pc by (auto simp: client_ok_def dup_ok_def)
  qed
  then show "linv l ids (s\<lparr>srv := kv\<rparr>)" using linv_key [OF inv] by (simp add: linv_def register_cong [OF c])
qed

lemma after_get_ok:
  assumes "obs l (ids i) kv r" and "key_ok l kv"
  shows "after_get (ids i) Acq r = Return \<Longrightarrow> lval l kv = ids i"
    and "after_get (ids i) m r = DoPut x v \<Longrightarrow> pc_ok l (ids i) kv (InPut m x v True)"
proof -
  show "after_get (ids i) Acq r = Return \<Longrightarrow> lval l kv = ids i"
    using assms(1) by (auto simp: after_get_def Acquire_get_def obs_def split: if_splits)
  have "lver l kv = 0 \<longrightarrow> lval l kv = ''''"
    using assms(2) by (auto simp: key_ok_def lver_def lval_def split: option.splits)
  then show "after_get (ids i) m r = DoPut x v \<Longrightarrow> pc_ok l (ids i) kv (InPut m x v True)"
    using assms(1)
    by (cases m) (auto simp: after_get_def Acquire_get_def Release_get_def obs_def split: if_splits)
qed

text \<open>A \<open>Put\<close> attempt: it takes effect only from the register state the client has seen.\<close>

lemma put_no_hit:
  assumes inv: "linv l ids s" and pc: "pc s i = InPut m x v b"
  shows "dup_hit (lock_put_args l i x v s) (srv s) = None"
proof (cases "clientMap (srv s) (int i)")
  case None
  then show ?thesis by (simp add: dup_hit_def lock_put_args_def)
next
  case (Some d)
  have "lastPutReply d = None \<or> v < lver l (srv s)" if "lastSeqNum d = seq s i"
    using linvD [OF inv, of i] pc Some that by (simp add: client_ok_def dup_ok_def)
  moreover have "\<not> v < lver l (srv s)" if "cache (srv s) l = None" using that by (simp add: lver_def)
  moreover have "v \<noteq> kv_version pr" if "cache (srv s) l = Some pr" "v < lver l (srv s)" for pr
    using that by (simp add: lver_def)
  ultimately show ?thesis
    using Some by (auto simp: dup_hit_def lock_put_args_def split: option.splits if_splits)
qed

lemma put_step:
  assumes inv: "linv l ids s" and ids: "ids_ok ids" and pc: "pc s i = InPut m x v b"
    and w: "no_wrap l (srv s)" and p: "srv_Put (lock_put_args l i x v s) (srv s) = (q, kv)"
  shows "linv l ids (leave i (InPut m x v False) (s\<lparr>srv := kv\<rparr>))"
    and "pr_Err q = OK \<Longrightarrow> m = Acq \<Longrightarrow> lval l kv = ids i"
proof -
  let ?a = "lock_put_args l i x v s"
  have a [simp]: "pa_Key ?a = l" "pa_Value ?a = x" "pa_Version ?a = v" "pa_ClientId ?a = int i"
    "pa_SeqNum ?a = seq s i" by (simp_all add: lock_put_args_def)
  note R = Put_register [OF p put_no_hit [OF inv pc], simplified, OF linv_key [OF inv] w]
  have me: "pc_ok l (ids i) (srv s) (InPut m x v b)" using linvD [OF inv, of i] pc by (simp add: client_ok_def)
  have cl: "client_ok l ids kv j (pc s j) (seq s j)" if "j \<noteq> i" for j
  proof (cases "pr_Err q = OK")
    case True
    have "lval l (srv s) = '''' \<or> lval l (srv s) = ids i"
      using R True me by (cases m) auto
    then have "lval l (srv s) \<noteq> ids j" using ids that by (auto simp: ids_ok_def inj_def)
    then show ?thesis using R True that client_ok_write [OF linvD [OF inv, of j], of kv] by auto
  next
    case False
    then show ?thesis using R linvD [OF inv] by simp
  qed
  have "client_ok l ids kv i (InPut m x v False) (seq s i)"
  proof (cases "pr_Err q = OK")
    case True
    then show ?thesis using R me by (cases m) (auto simp: client_ok_def dup_ok_def)
  next
    case False
    then show ?thesis using R linvD [OF inv, of i] pc
      by (cases m) (auto simp: client_ok_def dup_ok_def split: option.splits)
  qed
  then show "linv l ids (leave i (InPut m x v False) (s\<lparr>srv := kv\<rparr>))"
    using R cl by (auto simp: linv_def leave_def)
  show "lval l kv = ids i" if "pr_Err q = OK" "m = Acq" using R that me by auto
qed

lemma linv_continue:
  assumes "linv l ids s" and "a = Return \<Longrightarrow> m = Acq \<Longrightarrow> lval l (srv s) = ids i"
    and "\<And>x v. a = DoPut x v \<Longrightarrow> pc_ok l (ids i) (srv s) (InPut m x v True)"
  shows "linv l ids (continue i m a s)"
proof -
  have "client_ok l ids (srv s) j (pc (continue i m a s) j) (seq (continue i m a s) j)" for j
    using client_ok_continue [OF linvD [OF assms(1)] assms(2,3) refl] linvD [OF assms(1), of j]
    by (cases "j = i") simp_all
  then show ?thesis using linv_key [OF assms(1)] by (simp add: linv_def)
qed

lemma linv_enter:
  assumes "linv l ids s" and "pc_ok l (ids i) (srv s) p"
  shows "linv l ids (enter i p s)"
  using assms client_ok_enter [OF linvD [OF assms(1)] assms(2)] by (auto simp: linv_def enter_def)

lemma linv_step:
  assumes "lock_step l ids s s'" and inv: "linv l ids s" and ids: "ids_ok ids"
  shows "linv l ids s'"
  using assms(1)
proof cases
  case (acquire i)
  then show ?thesis using linv_enter [OF inv] by simp
next
  case (release i)
  then show ?thesis using linv_enter [OF inv] by simp
next
  case (get_reply_lost i m r kv)
  then show ?thesis using get_step(2) [OF inv] by simp
next
  case (get_done i m r kv)
  note g = get_step [OF inv get_done(2,3)]
  show ?thesis
    unfolding get_done(1) using after_get_ok [of l ids i kv r, OF g(1)] linv_key [OF g(2)]
    by (intro linv_continue [OF g(2)]) auto
next
  case (put_request_lost i m x v b)
  have "client_ok l ids (srv s) i (InPut m x v False) (seq s i)"
    using linvD [OF inv, of i] put_request_lost(2)
    by (cases m) (auto simp: client_ok_def dup_ok_def split: option.splits)
  then show ?thesis using inv put_request_lost(1) by (auto simp: linv_def leave_def)
next
  case (put_reply_lost i m x v b q kv)
  then show ?thesis using put_step(1) [OF inv ids] by simp
next
  case (put_done i m x v b q kv err)
  let ?s = "leave i (InPut m x v False) (s\<lparr>srv := kv\<rparr>)"
  note p = put_step [OF inv ids put_done(2,3,4)]
  have "linv l ids (continue i m (after_put m err) ?s)"
    using p put_done(5)
    by (intro linv_continue) (auto simp: after_put_def Acquire_put_def Release_put_def leave_def
        split: if_splits lock_op.splits)
  moreover have "continue i m a (leave i z t) = continue i m a t" for a z t
    by (cases m; cases a) (simp_all add: leave_def enter_def)
  ultimately show ?thesis using put_done(1) by simp
qed

lemma lock_reach_inv:
  assumes "lock_reach l ids s" and "ids_ok ids"
  shows "linv l ids s"
  using assms(1)
proof induction
  case init
  then show ?case
    by (simp add: linv_def lock_init_def MakeKVServer_def key_ok_def client_ok_def dup_ok_def)
next
  case (step s s')
  then show ?case using linv_step assms(2) by blast
qed

text \<open>
  C17: mutual exclusion.  Whatever requests and replies are lost and however the RPCs of the
  clients interleave, two clients with different ids are never both between a return of
  \<open>Acquire\<close> and the next call of \<open>Release\<close>; the lock's key then holds the id of the one that is.
\<close>

theorem lock_mutual_exclusion:
  assumes "lock_reach l ids s" and "ids_ok ids" and "pc s i = Holding" and "pc s j = Holding"
  shows "i = j \<and> lval l (srv s) = ids i"
proof -
  have h: "lval l (srv s) = ids k" if "pc s k = Holding" for k
    using linvD [OF lock_reach_inv [OF assms(1,2)], of k] that by (simp add: client_ok_def)
  have "ids i = ids j" using h [OF assms(3)] h [OF assms(4)] by simp
  then show ?thesis using h [OF assms(3)] assms(2) by (simp add: ids_ok_def inj_eq)
qed

definition ex_ids :: "nat \<Rightarrow> string" where
  "ex_ids i = replicate (Suc i) (CHR ''a'')"

definition ex_asking :: LockSys where
  "ex_asking = enter 0 (InGet Acq) lock_init"

definition ex_putting :: LockSys where
  "ex_putting = continue 0 Acq (DoPut (ex_ids 0) 0)
     (ex_asking\<lparr>srv := snd (srv_Get (lock_get_args ''l'' 0 ex_asking) (srv ex_asking))\<rparr>)"

definition ex_holding :: LockSys where
  "ex_holding = continue 0 Acq Return
     (ex_putting\<lparr>srv := snd (srv_Put (lock_put_args ''l'' 0 (ex_ids 0) 0 ex_putting) (srv ex_putting))\<rparr>)"

lemma ex_holding_reach: "lock_reach ''l'' ex_ids ex_holding"
proof -
  have a: "lock_reach ''l'' ex_ids ex_asking"
    unfolding ex_asking_def
    by (rule lock_reach.step [OF lock_reach.init acquire]) (simp add: lock_init_def)
  have pa: "pc ex_asking 0 = InGet Acq" by (simp add: ex_asking_def enter_def)
  obtain r kv where g: "srv_Get (lock_get_args ''l'' 0 ex_asking) (srv ex_asking) = (r, kv)" by fastforce
  then have "gr_Err r = ErrNoKey"
    by (auto simp: srv_Get_def get_cached_def ex_asking_def enter_def lock_init_def MakeKVServer_def
        lock_get_args_def Let_def)
  then have "after_get (ex_ids 0) Acq r = DoPut (ex_ids 0) 0" by (simp add: after_get_def Acquire_get_def)
  with lock_step.get_done [OF pa g, of ex_ids] have "lock_step ''l'' ex_ids ex_asking ex_putting"
    by (simp add: ex_putting_def g)
  with a have p: "lock_reach ''l'' ex_ids ex_putting" by (rule lock_reach.step)
  have pp: "pc ex_putting 0 = InPut Acq (ex_ids 0) 0 True" by (simp add: ex_putting_def enter_def)
  have c: "cache (srv ex_putting) ''l'' = None" "dup_hit (lock_put_args ''l'' 0 (ex_ids 0) 0 ex_putting) (srv ex_putting) = None"
    by (simp_all add: ex_putting_def enter_def ex_asking_def lock_init_def MakeKVServer_def srv_Get_def
        get_cached_def lock_get_args_def lock_put_args_def dup_hit_def Let_def)
  obtain q kv where u: "srv_Put (lock_put_args ''l'' 0 (ex_ids 0) 0 ex_putting) (srv ex_putting) = (q, kv)"
    by fastforce
  have "pr_Err q = OK" using u c by (auto simp: srv_Put_def lock_put_args_def Let_def)
  then have "lock_step ''l'' ex_ids ex_putting ex_holding"
    using lock_step.put_done [OF pp _ u refl, of ex_ids] c(1) u
    by (simp add: ex_holding_def no_wrap_def after_put_def Acquire_put_def)
  with p show ?thesis by (rule lock_reach.step)
qed

theorem lock_mutual_exclusion_witness:
  "lock_reach ''l'' ex_ids ex_holding \<and> pc ex_holding 0 = Holding \<and> lval ''l'' (srv ex_holding) = ''a''"
proof -
  have "ids_ok ex_ids" by (auto simp: ids_ok_def inj_def ex_ids_def dest: arg_cong [of _ _ length])
  moreover have "pc ex_holding 0 = Holding" by (simp add: ex_holding_def leave_def)
  ultimately show ?thesis
    using lock_mutual_exclusion [OF ex_holding_reach, of 0 0] ex_holding_reach by (simp add: ex_ids_def)
qed

end
