(* ===== verification/RSM.thy ===== *)
theory RSM
  imports RaftProps KVSrv "HOL-Library.AList"
begin

text \<open>
  The replicated state machine layer (src/src/kvraft1/rsm/rsm.go) between a service and its Raft
  peer.  The methods of the \<open>StateMachine\<close> interface are arguments of the operations that call
  them.  Each region under \<open>rsm.mu\<close> is one function on the state, so that whatever happens
  between two regions of a goroutine happens between two steps.  A \<open>PendingOp\<close> is an object of a
  heap, shared by the submitting goroutine and the reader; its channel has room for one value.
\<close>

section \<open>Data\<close>

record 'q Op =
  op_Me :: nat
  op_Id :: int
  op_Req :: 'q

record ('q, 'a) PendingOp =
  po_op :: "'q Op"
  po_result :: "'a option"
  po_done :: "bool option"

text \<open>What the layer writes into a snapshot, in order.\<close>

datatype 'x rsm_gob = ROpId int | RIndex int | RSm "'x list"

record ('q, 'a, 's, 'x) RSM =
  rsm_me :: nat
  rsm_rf :: "('q Op, 'x rsm_gob) Raft"
  rsm_maxraftstate :: int
  rsm_sm :: 's
  rsm_opId :: int
  rsm_lastApplied :: int
  rsm_pendingOps :: "(int \<times> nat) list"
  rsm_heap :: "('q, 'a) PendingOp list"
  rsm_shutdown :: bool
  rsm_shutdownCh :: bool

section \<open>Pending operations and shutdown\<close>

text \<open>A send on the channel that does not block: dropped when the channel is full.\<close>

definition send_done :: "bool \<Rightarrow> nat \<Rightarrow> ('q, 'a) PendingOp list \<Rightarrow> ('q, 'a) PendingOp list" where
  "send_done b p heap = (if p < length heap \<and> po_done (heap ! p) = None
     then heap[p := (heap ! p)\<lparr>po_done := Some b\<rparr>] else heap)"

definition isShutdown :: "('q, 'a, 's, 'x) RSM \<Rightarrow> bool" where
  "isShutdown rsm = (if rsm_shutdownCh rsm then True else rsm_shutdown rsm)"

definition notifyPendingOps :: "bool \<Rightarrow> ('q, 'a, 's, 'x) RSM \<Rightarrow> ('q, 'a, 's, 'x) RSM" where
  "notifyPendingOps result rsm =
     rsm\<lparr>rsm_heap := fold (\<lambda>(i, p). send_done result p) (rsm_pendingOps rsm) (rsm_heap rsm)\<rparr>"

definition doShutdown :: "('q, 'a, 's, 'x) RSM \<Rightarrow> ('q, 'a, 's, 'x) RSM" where
  "doShutdown rsm =
     (let rsm = rsm\<lparr>rsm_shutdown := True\<rparr>;
          rsm = (if rsm_shutdownCh rsm then rsm else rsm\<lparr>rsm_shutdownCh := True\<rparr>);
          rsm = notifyPendingOps False rsm
      in rsm\<lparr>rsm_pendingOps := []\<rparr>)"

definition handleShutdown :: "('q, 'a, 's, 'x) RSM \<Rightarrow> ('q, 'a, 's, 'x) RSM" where
  "handleShutdown rsm = doShutdown rsm"

definition rsm_Kill :: "('q, 'a, 's, 'x) RSM \<Rightarrow> ('q, 'a, 's, 'x) RSM" where
  "rsm_Kill rsm = (let rsm = doShutdown rsm in rsm\<lparr>rsm_rf := Kill (rsm_rf rsm)\<rparr>)"

section \<open>Submitting\<close>

text \<open>
  \<open>doSubmit\<close> up to the call of \<open>Start\<close>: the operation with its index and term, or \<open>Some None\<close>
  when it returns \<open>ErrWrongLeader\<close>.
\<close>

definition doSubmit_start ::
  "'q \<Rightarrow> ('q, 'a, 's, 'x) RSM \<Rightarrow> (('q Op \<times> int \<times> int) option \<times> ('q, 'a, 's, 'x) RSM) option" where
  "doSubmit_start req rsm =
     (if isShutdown rsm then Some (None, rsm)
      else do {
        let opId = rsm_opId rsm + 1;
        let rsm = rsm\<lparr>rsm_opId := opId\<rparr>;
        let op = \<lparr>op_Me = rsm_me rsm, op_Id = opId, op_Req = req\<rparr>;
        ((index, t, isLeader), rf) \<leftarrow> Start op (rsm_rf rsm);
        let rsm = rsm\<lparr>rsm_rf := rf\<rparr>;
        if \<not> isLeader then Some (None, rsm) else Some (Some (op, index, t), rsm)
      })"

text \<open>The region that registers the operation: the new object, or \<open>None\<close> after a shutdown.\<close>

definition doSubmit_register ::
  "'q Op \<Rightarrow> int \<Rightarrow> ('q, 'a, 's, 'x) RSM \<Rightarrow> nat option \<times> ('q, 'a, 's, 'x) RSM" where
  "doSubmit_register op index rsm =
     (if isShutdown rsm then (None, rsm)
      else let p = length (rsm_heap rsm);
               heap = rsm_heap rsm @ [\<lparr>po_op = op, po_result = None, po_done = None\<rparr>];
               heap = (case map_of (rsm_pendingOps rsm) index of
                         Some existingOp \<Rightarrow> send_done False existingOp heap | None \<Rightarrow> heap)
           in (Some p, rsm\<lparr>rsm_heap := heap,
                           rsm_pendingOps := AList.update index p (rsm_pendingOps rsm)\<rparr>))"

definition doSubmit_finish :: "int \<Rightarrow> ('q, 'a, 's, 'x) RSM \<Rightarrow> ('q, 'a, 's, 'x) RSM" where
  "doSubmit_finish index rsm = rsm\<lparr>rsm_pendingOps := AList.delete index (rsm_pendingOps rsm)\<rparr>"

text \<open>
  One iteration of \<open>waitForResult\<close>: whether the shutdown deadline has passed, and the case of the
  \<open>select\<close> that is taken.  A case that is not ready is \<open>Blocked\<close>.
\<close>

datatype wait_case = OnShutdownCh | OnDone | OnTimer

datatype 'a wait_result = Returns Err "'a option" | Again | Blocked

definition waitForResult ::
  "bool \<Rightarrow> wait_case \<Rightarrow> nat \<Rightarrow> int \<Rightarrow> ('q, 'a, 's, 'x) RSM \<Rightarrow> 'a wait_result \<times> ('q, 'a, 's, 'x) RSM" where
  "waitForResult expired c p initialTerm rsm =
     (if rsm_shutdown rsm \<and> expired then (Returns ErrWrongLeader None, rsm)
      else case c of
        OnShutdownCh \<Rightarrow> if rsm_shutdownCh rsm then (Returns ErrWrongLeader None, rsm) else (Blocked, rsm)
      | OnDone \<Rightarrow>
          (if p < length (rsm_heap rsm) then
             (let po = rsm_heap rsm ! p; rsm' = rsm\<lparr>rsm_heap := (rsm_heap rsm)[p := po\<lparr>po_done := None\<rparr>]\<rparr> in
              case po_done po of
                None \<Rightarrow> (Blocked, rsm)
              | Some True \<Rightarrow> (Returns OK (po_result po), rsm')
              | Some False \<Rightarrow> (Returns ErrWrongLeader None, rsm'))
           else (Blocked, rsm))
      | OnTimer \<Rightarrow>
          (if rsm_shutdown rsm then (Returns ErrWrongLeader None, rsm)
           else let (t, isLeader) = GetState (rsm_rf rsm)
                in if \<not> isLeader \<or> t \<noteq> initialTerm then (Returns ErrWrongLeader None, rsm)
                   else (Again, rsm)))"

text \<open>
  The outer \<open>select\<close> of \<open>Submit\<close>: the submitting goroutine is done with a result, the two seconds
  are over, or the layer shuts down.
\<close>

datatype 'a submit_case = OnSubmitted Err "'a option" | OnAfter | OnShutdown

definition Submit :: "'a submit_case \<Rightarrow> ('q, 'a, 's, 'x) RSM \<Rightarrow> (Err \<times> 'a option) option" where
  "Submit c rsm =
     (if rsm_shutdown rsm then Some (ErrWrongLeader, None)
      else case c of
        OnSubmitted err result \<Rightarrow> Some (err, result)
      | OnAfter \<Rightarrow> Some (ErrWrongLeader, None)
      | OnShutdown \<Rightarrow> if rsm_shutdownCh rsm then Some (ErrWrongLeader, None) else None)"

section \<open>Applying\<close>

definition applyCommand ::
  "('q \<Rightarrow> 's \<Rightarrow> 'a \<times> 's) \<Rightarrow> ('q Op gob \<Rightarrow> nat) \<Rightarrow> ('q Op, 'x rsm_gob) ApplyMsg \<Rightarrow> ('q, 'a, 's, 'x) RSM
    \<Rightarrow> (bool \<times> ('q, 'a, 's, 'x) RSM) option" where
  "applyCommand doOp sz msg rsm = do {
     op \<leftarrow> am_Command msg;
     if am_CommandIndex msg \<le> rsm_lastApplied rsm then Some (False, rsm)
     else do {
       let (result, sm) = doOp (op_Req op) (rsm_sm rsm);
       let rsm = rsm\<lparr>rsm_sm := sm, rsm_lastApplied := am_CommandIndex msg\<rparr>;
       let heap = (case map_of (rsm_pendingOps rsm) (am_CommandIndex msg) of
             None \<Rightarrow> rsm_heap rsm
           | Some p \<Rightarrow>
               if p < length (rsm_heap rsm) then
                 (let po = rsm_heap rsm ! p in
                  if op_Id (po_op po) = op_Id op \<and> op_Me (po_op po) = rsm_me rsm
                  then send_done True p ((rsm_heap rsm)[p := po\<lparr>po_result := Some result\<rparr>])
                  else send_done False p (rsm_heap rsm))
               else rsm_heap rsm);
       let shouldSnapshot = (rsm_maxraftstate rsm > 0
             \<and> int (PersistBytes sz (rsm_rf rsm)) > (rsm_maxraftstate rsm * 9) div 10);
       Some (shouldSnapshot, rsm\<lparr>rsm_heap := heap\<rparr>)
     }
   }"

definition createSnapshot ::
  "('s \<Rightarrow> 'x list) \<Rightarrow> int \<Rightarrow> ('q, 'a, 's, 'x) RSM \<Rightarrow> ('q, 'a, 's, 'x) RSM option" where
  "createSnapshot snap index rsm =
     (let snapshotIndex = rsm_lastApplied rsm in
      if snapshotIndex < index then Some rsm
      else do {
        let w = [ROpId (rsm_opId rsm), RIndex snapshotIndex, RSm (snap (rsm_sm rsm))];
        rf \<leftarrow> Snapshot snapshotIndex (Some w) (rsm_rf rsm);
        Some (rsm\<lparr>rsm_rf := rf\<rparr>)
      })"

text \<open>Decoding a snapshot; \<open>None\<close> is the panic.\<close>

fun decode_snapshot :: "'x rsm_gob list \<Rightarrow> (int \<times> int \<times> 'x list) option" where
  "decode_snapshot (ROpId opId # RIndex idx # RSm smSnapshot # _) = Some (opId, idx, smSnapshot)"
| "decode_snapshot _ = None"

definition applySnapshot ::
  "('x list \<Rightarrow> 's \<Rightarrow> 's option) \<Rightarrow> ('q Op, 'x rsm_gob) ApplyMsg \<Rightarrow> ('q, 'a, 's, 'x) RSM
    \<Rightarrow> ('q, 'a, 's, 'x) RSM option" where
  "applySnapshot restore msg rsm =
     (if am_SnapshotIndex msg \<le> rsm_lastApplied rsm then Some rsm
      else do {
        (opId, snapshotIndex, smSnapshot) \<leftarrow> decode_snapshot (am_Snapshot msg);
        if snapshotIndex \<noteq> am_SnapshotIndex msg then None
        else do {
          sm \<leftarrow> restore smSnapshot (rsm_sm rsm);
          let rsm = rsm\<lparr>rsm_opId := opId, rsm_lastApplied := am_SnapshotIndex msg, rsm_sm := sm\<rparr>;
          Some (rsm\<lparr>rsm_heap := fold (\<lambda>(i, p). send_done False p)
                  (filter (\<lambda>(i, p). i \<le> am_SnapshotIndex msg) (rsm_pendingOps rsm)) (rsm_heap rsm)\<rparr>)
        }
      })"

text \<open>One message of the reader; \<open>None\<close> in the result when the loop returns.\<close>

definition reader_msg ::
  "('q \<Rightarrow> 's \<Rightarrow> 'a \<times> 's) \<Rightarrow> ('s \<Rightarrow> 'x list) \<Rightarrow> ('x list \<Rightarrow> 's \<Rightarrow> 's option) \<Rightarrow> ('q Op gob \<Rightarrow> nat)
    \<Rightarrow> ('q Op, 'x rsm_gob) ApplyMsg \<Rightarrow> ('q, 'a, 's, 'x) RSM \<Rightarrow> ('q, 'a, 's, 'x) RSM option option" where
  "reader_msg doOp snap restore sz msg rsm =
     (if rsm_shutdown rsm then Some None
      else if am_CommandValid msg then do {
        (shouldSnapshot, rsm) \<leftarrow> applyCommand doOp sz msg rsm;
        rsm \<leftarrow> (if shouldSnapshot then createSnapshot snap (am_CommandIndex msg) rsm else Some rsm);
        Some (Some rsm)
      }
      else if am_SnapshotValid msg then map_option Some (applySnapshot restore msg rsm)
      else Some (Some rsm))"

text \<open>The reader over the messages of the channel, which is closed after the last one.\<close>

fun reader ::
  "('q \<Rightarrow> 's \<Rightarrow> 'a \<times> 's) \<Rightarrow> ('s \<Rightarrow> 'x list) \<Rightarrow> ('x list \<Rightarrow> 's \<Rightarrow> 's option) \<Rightarrow> ('q Op gob \<Rightarrow> nat)
    \<Rightarrow> ('q Op, 'x rsm_gob) ApplyMsg list \<Rightarrow> ('q, 'a, 's, 'x) RSM \<Rightarrow> ('q, 'a, 's, 'x) RSM option" where
  "reader doOp snap restore sz [] rsm = Some (handleShutdown rsm)"
| "reader doOp snap restore sz (msg # msgs) rsm = (case reader_msg doOp snap restore sz msg rsm of
     None \<Rightarrow> None
   | Some None \<Rightarrow> Some rsm
   | Some (Some rsm) \<Rightarrow> reader doOp snap restore sz msgs rsm)"

definition MakeRSM ::
  "('x list \<Rightarrow> 's \<Rightarrow> 's option) \<Rightarrow> nat \<Rightarrow> nat \<Rightarrow> ('q Op, 'x rsm_gob) disk \<Rightarrow> int \<Rightarrow> 's
    \<Rightarrow> ('q, 'a, 's, 'x) RSM option" where
  "MakeRSM restore servers i ps maxraftstate sm = do {
     rf \<leftarrow> Make servers i ps;
     let rsm = \<lparr>rsm_me = i, rsm_rf = rf, rsm_maxraftstate = maxraftstate, rsm_sm = sm, rsm_opId = 0,
                rsm_lastApplied = 0, rsm_pendingOps = [], rsm_heap = [], rsm_shutdown = False,
                rsm_shutdownCh = False\<rparr>;
     let snapshot = ReadSnapshot ps;
     if maxraftstate \<ge> 0 \<and> snapshot \<noteq> [] then do {
       (opId, la, smSnapshot) \<leftarrow> decode_snapshot snapshot;
       sm \<leftarrow> restore smSnapshot sm;
       Some (rsm\<lparr>rsm_opId := opId, rsm_lastApplied := la, rsm_sm := sm\<rparr>)
     } else Some rsm
   }"

section \<open>The contract of a state machine\<close>

fun run_ops :: "('q \<Rightarrow> 't \<Rightarrow> 'a \<times> 't) \<Rightarrow> 'q list \<Rightarrow> 't \<Rightarrow> 'a list \<times> 't" where
  "run_ops f [] t = ([], t)"
| "run_ops f (q # qs) t = (let (a, t) = f q t; (as, t) = run_ops f qs t in (a # as, t))"

lemma run_ops_append:
  "run_ops f (xs @ ys) t = (let (as, t) = run_ops f xs t; (bs, t) = run_ops f ys t in (as @ bs, t))"
  by (induction xs arbitrary: t) (simp_all add: split_beta Let_def)

lemma run_ops_length [simp]: "length (fst (run_ops f qs t)) = length qs"
  by (induction qs arbitrary: t) (simp_all add: split_beta Let_def)

text \<open>The state and the reply of the specification at a point of a log, counted from 1.\<close>

definition state_at :: "('q \<Rightarrow> 't \<Rightarrow> 'a \<times> 't) \<Rightarrow> 't \<Rightarrow> 'q list \<Rightarrow> nat \<Rightarrow> 't" where
  "state_at f t0 qs k = snd (run_ops f (take k qs) t0)"

definition reply_at :: "('q \<Rightarrow> 't \<Rightarrow> 'a \<times> 't) \<Rightarrow> 't \<Rightarrow> 'q list \<Rightarrow> nat \<Rightarrow> 'a" where
  "reply_at f t0 qs k = fst (f (qs ! k) (state_at f t0 qs k))"

lemma state_at_Suc: "k < length qs \<Longrightarrow> state_at f t0 qs (Suc k) = snd (f (qs ! k) (state_at f t0 qs k))"
  by (simp add: state_at_def take_Suc_conv_app_nth run_ops_append split_beta Let_def)

lemma run_ops_reply: "k < length qs \<Longrightarrow> fst (run_ops f qs t0) ! k = reply_at f t0 qs k"
proof -
  assume k: "k < length qs"
  then have "qs = take k qs @ qs ! k # drop (Suc k) qs" by (simp add: id_take_nth_drop)
  then have "fst (run_ops f qs t0) ! k = fst (run_ops f (take k qs @ qs ! k # drop (Suc k) qs) t0) ! k" by simp
  then show ?thesis using k by (simp add: run_ops_append split_beta Let_def reply_at_def state_at_def nth_append)
qed

text \<open>
  What the layer relies on: replica states stand for states of a specification after the same
  requests, operations answer as the specification does, and a state restored from a snapshot
  stands for what the snapshotted state stood for.  \<open>good\<close> limits the logs this is promised for.
\<close>

locale replicated =
  fixes doOp :: "'q \<Rightarrow> 's \<Rightarrow> 'a \<times> 's" and snap :: "'s \<Rightarrow> 'x list" and restore :: "'x list \<Rightarrow> 's \<Rightarrow> 's option"
    and sm0 :: 's and spec :: "'q \<Rightarrow> 't \<Rightarrow> 'a \<times> 't" and t0 :: 't
    and R :: "'q list \<Rightarrow> 's \<Rightarrow> 't \<Rightarrow> bool" and good :: "'q list \<Rightarrow> bool"
  assumes R_init: "R [] sm0 t0"
    and good_prefix: "good (qs @ qs') \<Longrightarrow> good qs"
    and R_step: "R qs s t \<Longrightarrow> good (qs @ [q])
      \<Longrightarrow> fst (doOp q s) = fst (spec q t) \<and> R (qs @ [q]) (snd (doOp q s)) (snd (spec q t))"
    and R_restore: "R qs s t \<Longrightarrow> good qs \<Longrightarrow> \<exists>s''. restore (snap s) s' = Some s'' \<and> R qs s'' t"
begin

definition stands :: "'q list \<Rightarrow> nat \<Rightarrow> 's \<Rightarrow> bool" where
  "stands qs k s \<longleftrightarrow> k \<le> length qs \<and> R (take k qs) s (state_at spec t0 qs k)"

lemma stands_init: "stands qs 0 sm0"
  by (simp add: stands_def state_at_def R_init)

lemma stands_step:
  assumes "stands qs k s" "k < length qs" "good (take (Suc k) qs)"
  shows "fst (doOp (qs ! k) s) = reply_at spec t0 qs k \<and> stands qs (Suc k) (snd (doOp (qs ! k) s))"
proof -
  have t: "take (Suc k) qs = take k qs @ [qs ! k]" using assms(2) by (simp add: take_Suc_conv_app_nth)
  have "good (take k qs @ [qs ! k])" using assms(3) by (simp only: t)
  with R_step [of "take k qs" s] assms(1,2) t show ?thesis
    by (simp add: stands_def reply_at_def state_at_Suc)
qed

lemma stands_restore:
  assumes "stands qs k s" "good (take k qs)" "restore (snap s) s' = Some s''"
  shows "stands qs k s''"
  using R_restore [of "take k qs" s "state_at spec t0 qs k" s'] assms by (auto simp: stands_def)

lemma good_upto: "good (take k qs) \<Longrightarrow> j \<le> k \<Longrightarrow> good (take j qs)"
  using good_prefix [of "take j qs" "drop j (take k qs)"] by (metis append_take_drop_id min_absorb1 take_take)

end

section \<open>Reachable states of the layer\<close>

definition snapshot_of :: "('s \<Rightarrow> 'x list) \<Rightarrow> ('q, 'a, 's, 'x) RSM \<Rightarrow> 'x rsm_gob list" where
  "snapshot_of snap rsm = [ROpId (rsm_opId rsm), RIndex (rsm_lastApplied rsm), RSm (snap (rsm_sm rsm))]"

text \<open>
  The replicas of one committed log.  The peer below may change at any time.  A command is the
  log's at its index and not beyond the next one, a snapshot is one that a replica took; that is
  what the applier delivers.
\<close>

inductive rsm_reach ::
  "('q \<Rightarrow> 's \<Rightarrow> 'a \<times> 's) \<Rightarrow> ('s \<Rightarrow> 'x list) \<Rightarrow> ('x list \<Rightarrow> 's \<Rightarrow> 's option) \<Rightarrow> 's \<Rightarrow> 'q Op list
    \<Rightarrow> ('q, 'a, 's, 'x) RSM \<Rightarrow> bool"
  for doOp snap restore sm0 log where
  boot: "MakeRSM restore n i ps m sm0 = Some rsm \<Longrightarrow> ReadSnapshot ps = [] \<Longrightarrow> rsm_reach doOp snap restore sm0 log rsm"
| reboot: "rsm_reach doOp snap restore sm0 log rsm2 \<Longrightarrow> ReadSnapshot ps = snapshot_of snap rsm2
    \<Longrightarrow> MakeRSM restore n i ps m sm0 = Some rsm \<Longrightarrow> rsm_reach doOp snap restore sm0 log rsm"
| raft: "rsm_reach doOp snap restore sm0 log rsm \<Longrightarrow> rsm_reach doOp snap restore sm0 log (rsm\<lparr>rsm_rf := rf\<rparr>)"
| start: "rsm_reach doOp snap restore sm0 log rsm \<Longrightarrow> doSubmit_start req rsm = Some (r, rsm')
    \<Longrightarrow> rsm_reach doOp snap restore sm0 log rsm'"
| register: "rsm_reach doOp snap restore sm0 log rsm
    \<Longrightarrow> rsm_reach doOp snap restore sm0 log (snd (doSubmit_register op index rsm))"
| wait: "rsm_reach doOp snap restore sm0 log rsm
    \<Longrightarrow> rsm_reach doOp snap restore sm0 log (snd (waitForResult expired c p t rsm))"
| finish: "rsm_reach doOp snap restore sm0 log rsm
    \<Longrightarrow> rsm_reach doOp snap restore sm0 log (doSubmit_finish index rsm)"
| closed: "rsm_reach doOp snap restore sm0 log rsm \<Longrightarrow> rsm_reach doOp snap restore sm0 log (handleShutdown rsm)"
| kill: "rsm_reach doOp snap restore sm0 log rsm \<Longrightarrow> rsm_reach doOp snap restore sm0 log (rsm_Kill rsm)"
| command: "rsm_reach doOp snap restore sm0 log rsm \<Longrightarrow> am_CommandIndex msg \<le> rsm_lastApplied rsm + 1
    \<Longrightarrow> 1 \<le> am_CommandIndex msg \<Longrightarrow> am_CommandIndex msg \<le> int (length log)
    \<Longrightarrow> am_Command msg = Some (log ! nat (am_CommandIndex msg - 1))
    \<Longrightarrow> applyCommand doOp sz msg rsm = Some (b, rsm') \<Longrightarrow> rsm_reach doOp snap restore sm0 log rsm'"
| snapshot: "rsm_reach doOp snap restore sm0 log rsm \<Longrightarrow> createSnapshot snap index rsm = Some rsm'
    \<Longrightarrow> rsm_reach doOp snap restore sm0 log rsm'"
| install: "rsm_reach doOp snap restore sm0 log rsm \<Longrightarrow> rsm_reach doOp snap restore sm0 log rsm2
    \<Longrightarrow> am_Snapshot msg = snapshot_of snap rsm2 \<Longrightarrow> applySnapshot restore msg rsm = Some rsm'
    \<Longrightarrow> rsm_reach doOp snap restore sm0 log rsm'"

text \<open>
  What every operation but \<open>applyCommand\<close> leaves of the heap: objects keep their operation and
  result, none is told that it is done with success, and new objects have no result.
\<close>

definition heap_le :: "('q, 'a) PendingOp list \<Rightarrow> ('q, 'a) PendingOp list \<Rightarrow> bool" where
  "heap_le h h' \<longleftrightarrow> length h \<le> length h'
     \<and> (\<forall>p < length h. po_op (h' ! p) = po_op (h ! p) \<and> po_result (h' ! p) = po_result (h ! p)
          \<and> (po_done (h' ! p) = Some True \<longrightarrow> po_done (h ! p) = Some True))
     \<and> (\<forall>p < length h'. length h \<le> p \<longrightarrow> po_result (h' ! p) = None \<and> po_done (h' ! p) \<noteq> Some True)"

lemma heap_le_refl [simp]: "heap_le h h"
  by (simp add: heap_le_def)

lemma heap_le_trans: "heap_le h h' \<Longrightarrow> heap_le h' h'' \<Longrightarrow> heap_le h h''"
  unfolding heap_le_def
  by (intro conjI allI impI) (simp_all, (metis linorder_not_less)+)

lemma send_done_le [simp]: "heap_le h (send_done False p h)"
  by (auto simp: heap_le_def send_done_def nth_list_update)

lemma send_all_le [simp]: "heap_le h (fold (\<lambda>(i, p). send_done False p) ps h)"
proof (induction ps arbitrary: h)
  case (Cons x ps)
  then show ?case by (cases x) (auto intro: heap_le_trans [OF send_done_le])
qed simp

lemma heap_le_snoc: "po_result po = None \<Longrightarrow> po_done po = None \<Longrightarrow> heap_le h (h @ [po])"
  by (auto simp: heap_le_def nth_append)

definition results_ok :: "(int \<Rightarrow> 'a \<Rightarrow> bool) \<Rightarrow> ('q, 'a) PendingOp list \<Rightarrow> bool" where
  "results_ok ok h \<longleftrightarrow> (\<forall>p < length h. (po_done (h ! p) = Some True \<longrightarrow> po_result (h ! p) \<noteq> None)
     \<and> (\<forall>r. po_result (h ! p) = Some r \<longrightarrow> ok (op_Id (po_op (h ! p))) r))"

lemma results_ok_le: "results_ok ok h \<Longrightarrow> heap_le h h' \<Longrightarrow> results_ok ok h'"
  unfolding results_ok_def heap_le_def by (metis linorder_not_less option.distinct(1))

lemma results_ok_upd:
  "results_ok ok h \<Longrightarrow> p < length h \<Longrightarrow> ok (op_Id (po_op (h ! p))) r
    \<Longrightarrow> results_ok ok (send_done True p (h[p := (h ! p)\<lparr>po_result := Some r\<rparr>]))"
  by (auto simp: results_ok_def send_done_def nth_list_update)

text \<open>What the operations other than applying leave alone.\<close>

definition calm :: "('q, 'a, 's, 'x) RSM \<Rightarrow> ('q, 'a, 's, 'x) RSM \<Rightarrow> bool" where
  "calm rsm rsm' \<longleftrightarrow> rsm_sm rsm' = rsm_sm rsm \<and> rsm_lastApplied rsm' = rsm_lastApplied rsm
     \<and> heap_le (rsm_heap rsm) (rsm_heap rsm')"

lemma doShutdown_calm: "calm rsm (doShutdown rsm)"
  by (simp add: calm_def doShutdown_def notifyPendingOps_def Let_def)

lemma doSubmit_start_calm: "doSubmit_start req rsm = Some (r, rsm') \<Longrightarrow> calm rsm rsm'"
  by (auto simp: doSubmit_start_def calm_def Let_def split: if_splits Option.bind_splits prod.splits)

lemma doSubmit_register_calm: "calm rsm (snd (doSubmit_register op index rsm))"
  by (auto simp: doSubmit_register_def calm_def Let_def split: option.splits
      intro: heap_le_snoc heap_le_trans [OF heap_le_snoc send_done_le])

lemma waitForResult_calm: "calm rsm (snd (waitForResult expired c p t rsm))"
  by (auto simp: waitForResult_def calm_def Let_def heap_le_def nth_list_update
      split: wait_case.splits option.splits bool.splits prod.splits)

lemma createSnapshot_calm: "createSnapshot snap index rsm = Some rsm' \<Longrightarrow> calm rsm rsm'"
  by (auto simp: createSnapshot_def calm_def Let_def split: if_splits Option.bind_splits)

lemma applyCommand_new:
  assumes "applyCommand doOp sz msg rsm = Some (b, rsm')" "am_Command msg = Some op"
    "rsm_lastApplied rsm < am_CommandIndex msg"
    "results_ok ok (rsm_heap rsm)" "ok (op_Id op) (fst (doOp (op_Req op) (rsm_sm rsm)))"
  shows "rsm_lastApplied rsm' = am_CommandIndex msg \<and> rsm_sm rsm' = snd (doOp (op_Req op) (rsm_sm rsm))
     \<and> results_ok ok (rsm_heap rsm')"
proof -
  obtain result sm where d: "doOp (op_Req op) (rsm_sm rsm) = (result, sm)" by fastforce
  let ?h = "rsm_heap rsm"
  have send: "results_ok ok (send_done False p ?h)" for p
    by (rule results_ok_le [OF assms(4) send_done_le])
  have send_upd: "results_ok ok (send_done True p (?h[p := (?h ! p)\<lparr>po_result := Some result\<rparr>]))"
    if "p < length ?h" "op_Id (po_op (?h ! p)) = op_Id op" for p
    using results_ok_upd [OF assms(4) that(1), of result] that(2) assms(5) d by simp
  show ?thesis
    using assms(1-4) d send send_upd by (auto simp: applyCommand_def Let_def split: option.splits)
qed

lemma applyCommand_state:
  assumes "applyCommand doOp sz msg rsm = Some (b, rsm')" "am_Command msg = Some op"
    "rsm_lastApplied rsm < am_CommandIndex msg"
  shows "rsm_lastApplied rsm' = am_CommandIndex msg \<and> rsm_sm rsm' = snd (doOp (op_Req op) (rsm_sm rsm))"
  using assms by (auto simp: applyCommand_def Let_def split_beta)

lemma applyCommand_old:
  "applyCommand doOp sz msg rsm = Some (b, rsm') \<Longrightarrow> am_CommandIndex msg \<le> rsm_lastApplied rsm \<Longrightarrow> rsm' = rsm"
  by (auto simp: applyCommand_def split: Option.bind_splits)

lemma waitForResult_OK:
  assumes "fst (waitForResult expired c p t rsm) = Returns OK res"
  shows "p < length (rsm_heap rsm) \<and> res = po_result (rsm_heap rsm ! p) \<and> po_done (rsm_heap rsm ! p) = Some True"
  using assms by (auto simp: waitForResult_def Let_def split: if_splits wait_case.splits option.splits bool.splits prod.splits)

context replicated
begin

definition reply_ok :: "'q Op list \<Rightarrow> int \<Rightarrow> 'a \<Rightarrow> bool" where
  "reply_ok log n r \<longleftrightarrow> (\<exists>k < length log. op_Id (log ! k) = n
     \<and> (good (take (Suc k) (map op_Req log)) \<longrightarrow> r = reply_at spec t0 (map op_Req log) k))"

text \<open>The state is right when the requests applied so far are good, a reply when those up to it are.\<close>

definition rsm_inv :: "'q Op list \<Rightarrow> ('q, 'a, 's, 'x) RSM \<Rightarrow> bool" where
  "rsm_inv log rsm \<longleftrightarrow> (let k = nat (rsm_lastApplied rsm); qs = map op_Req log in
     0 \<le> rsm_lastApplied rsm \<and> k \<le> length log \<and> (good (take k qs) \<longrightarrow> stands qs k (rsm_sm rsm))
     \<and> results_ok (reply_ok log) (rsm_heap rsm))"

lemma rsm_invD:
  assumes "rsm_inv log rsm" "rsm_lastApplied rsm = int k"
  shows "k \<le> length log" "good (take k (map op_Req log)) \<Longrightarrow> stands (map op_Req log) k (rsm_sm rsm)"
    "results_ok (reply_ok log) (rsm_heap rsm)"
  using assms by (simp_all add: rsm_inv_def Let_def)

lemma rsm_invI:
  assumes "rsm_lastApplied rsm = int k" "k \<le> length log"
    "good (take k (map op_Req log)) \<Longrightarrow> stands (map op_Req log) k (rsm_sm rsm)"
    "results_ok (reply_ok log) (rsm_heap rsm)"
  shows "rsm_inv log rsm"
  using assms by (simp add: rsm_inv_def Let_def)

lemma rsm_inv_index: "rsm_inv log rsm \<Longrightarrow> \<exists>k. rsm_lastApplied rsm = int k"
  by (auto simp: rsm_inv_def Let_def intro: exI [of _ "nat (rsm_lastApplied rsm)"])

lemma rsm_inv_calm: "rsm_inv log rsm \<Longrightarrow> calm rsm rsm' \<Longrightarrow> rsm_inv log rsm'"
  by (auto simp: rsm_inv_def Let_def calm_def intro: results_ok_le)

lemma rsm_inv_command:
  assumes inv: "rsm_inv log rsm"
    and i: "am_CommandIndex msg \<le> rsm_lastApplied rsm + 1" "1 \<le> am_CommandIndex msg"
      "am_CommandIndex msg \<le> int (length log)"
    and c: "am_Command msg = Some (log ! nat (am_CommandIndex msg - 1))"
    and ap: "applyCommand doOp sz msg rsm = Some (b, rsm')"
  shows "rsm_inv log rsm'"
proof (cases "am_CommandIndex msg \<le> rsm_lastApplied rsm")
  case True
  then show ?thesis using applyCommand_old [OF ap] inv by simp
next
  case False
  obtain k where k: "rsm_lastApplied rsm = int k" using rsm_inv_index [OF inv] by blast
  have m: "am_CommandIndex msg = int (Suc k)" "k < length log" using False i k by auto
  then have op: "am_Command msg = Some (log ! k)" using c by simp
  note d = rsm_invD [OF inv k] and new = applyCommand_new [OF ap op]
  have step: "fst (doOp (op_Req (log ! k)) (rsm_sm rsm)) = reply_at spec t0 (map op_Req log) k"
    "stands (map op_Req log) (Suc k) (snd (doOp (op_Req (log ! k)) (rsm_sm rsm)))"
    if "good (take (Suc k) (map op_Req log))"
    using stands_step [OF d(2) _ that] good_upto [OF that, of k] m(2) by simp_all
  show ?thesis
  proof (rule rsm_invI [of _ "Suc k"])
    have st: "rsm_lastApplied rsm' = am_CommandIndex msg \<and> rsm_sm rsm' = snd (doOp (op_Req (log ! k)) (rsm_sm rsm))"
      using applyCommand_state [OF ap op] False by simp
    show "rsm_lastApplied rsm' = int (Suc k)" using st m(1) by simp
    show "stands (map op_Req log) (Suc k) (rsm_sm rsm')" if "good (take (Suc k) (map op_Req log))"
      using step(2) [OF that] st by simp
    have "reply_ok log (op_Id (log ! k)) (fst (doOp (op_Req (log ! k)) (rsm_sm rsm)))"
      using step(1) m(2) by (auto simp: reply_ok_def)
    then show "results_ok (reply_ok log) (rsm_heap rsm')" using new [of "reply_ok log"] d(3) False by simp
  qed (use m in simp)
qed

lemma rsm_inv_boot:
  assumes "MakeRSM restore n i ps m sm0 = Some rsm"
    and "ReadSnapshot ps = [] \<or> (\<exists>rsm2. rsm_inv log rsm2 \<and> ReadSnapshot ps = snapshot_of snap rsm2)"
  shows "rsm_inv log rsm"
proof -
  have boot: "results_ok (reply_ok log) []" by (simp add: results_ok_def)
  have "rsm_heap rsm = []"
    and "rsm_lastApplied rsm = 0 \<and> rsm_sm rsm = sm0
      \<or> (\<exists>o' l d s. decode_snapshot (ReadSnapshot ps) = Some (o', l, d) \<and> restore d sm0 = Some s
          \<and> rsm_lastApplied rsm = l \<and> rsm_sm rsm = s \<and> ReadSnapshot ps \<noteq> [])"
    using assms(1) by (auto simp: MakeRSM_def Let_def split: Option.bind_splits if_splits)
  then show ?thesis
  proof (elim disjE exE conjE, goal_cases)
    case 1
    then show ?case using boot stands_init by (intro rsm_invI [of _ 0]) simp_all
  next
    case (2 o' l d s)
    then obtain rsm2 where r: "rsm_inv log rsm2" "ReadSnapshot ps = snapshot_of snap rsm2"
      using assms(2) by auto
    obtain k where k: "rsm_lastApplied rsm2 = int k" using rsm_inv_index [OF r(1)] by blast
    have "l = int k" "d = snap (rsm_sm rsm2)" using 2 r(2) k by (simp_all add: snapshot_of_def)
    then show ?case
      using 2 rsm_invD [OF r(1) k] stands_restore [of "map op_Req log" k "rsm_sm rsm2" sm0 s] boot
      by (intro rsm_invI [of _ k]) simp_all
  qed
qed

lemma rsm_inv_install:
  assumes "rsm_inv log rsm" "rsm_inv log rsm2" "am_Snapshot msg = snapshot_of snap rsm2"
    "applySnapshot restore msg rsm = Some rsm'"
  shows "rsm_inv log rsm'"
proof (cases "am_SnapshotIndex msg \<le> rsm_lastApplied rsm")
  case True
  then show ?thesis using assms by (simp add: applySnapshot_def)
next
  case False
  then obtain s where s: "restore (snap (rsm_sm rsm2)) (rsm_sm rsm) = Some s"
    "rsm_lastApplied rsm' = rsm_lastApplied rsm2" "rsm_sm rsm' = s" "heap_le (rsm_heap rsm) (rsm_heap rsm')"
    using assms(3,4) by (auto simp: applySnapshot_def snapshot_of_def Let_def split: if_splits Option.bind_splits)
  obtain k j where k: "rsm_lastApplied rsm2 = int k" "rsm_lastApplied rsm = int j" using rsm_inv_index assms(1,2) by blast
  show ?thesis
    using s k rsm_invD [OF assms(2) k(1)] rsm_invD(3) [OF assms(1) k(2)] stands_restore [of "map op_Req log" k "rsm_sm rsm2"]
    by (intro rsm_invI [of _ k]) (auto intro: results_ok_le)
qed

theorem rsm_reach_inv:
  assumes "rsm_reach doOp snap restore sm0 log rsm"
  shows "rsm_inv log rsm"
  using assms
proof induction
  case (boot n i ps m rsm)
  then show ?case using rsm_inv_boot by blast
next
  case (reboot rsm2 ps n i m rsm)
  then show ?case using rsm_inv_boot by blast
next
  case (raft rsm rf)
  show ?case by (rule rsm_inv_calm [OF raft.IH]) (simp add: calm_def)
next
  case (finish rsm index)
  show ?case by (rule rsm_inv_calm [OF finish.IH]) (simp add: calm_def doSubmit_finish_def)
next
  case (kill rsm)
  show ?case by (rule rsm_inv_calm [OF kill.IH])
      (use doShutdown_calm [of rsm] in \<open>simp add: rsm_Kill_def calm_def Let_def\<close>)
next
  case (closed rsm)
  show ?case unfolding handleShutdown_def by (rule rsm_inv_calm [OF closed.IH doShutdown_calm])
next
  case (command rsm msg sz b rsm')
  then show ?case using rsm_inv_command by blast
next
  case (install rsm rsm2 msg rsm')
  then show ?case using rsm_inv_install by blast
qed (blast intro: rsm_inv_calm doSubmit_start_calm doSubmit_register_calm waitForResult_calm createSnapshot_calm)+

lemma waited:
  assumes "rsm_reach doOp snap restore sm0 log rsm" and "fst (waitForResult expired c p t rsm) = Returns OK res"
  shows "\<exists>k < length log. op_Id (log ! k) = op_Id (po_op (rsm_heap rsm ! p))
     \<and> (good (take (Suc k) (map op_Req log)) \<longrightarrow> res = Some (reply_at spec t0 (map op_Req log) k))"
proof -
  have p: "p < length (rsm_heap rsm)" "res = po_result (rsm_heap rsm ! p)" "po_done (rsm_heap rsm ! p) = Some True"
    using waitForResult_OK [OF assms(2)] by auto
  obtain j where "rsm_lastApplied rsm = int j" using rsm_inv_index [OF rsm_reach_inv [OF assms(1)]] by blast
  from rsm_invD(3) [OF rsm_reach_inv [OF assms(1)] this]
  obtain r where "res = Some r" "reply_ok log (op_Id (po_op (rsm_heap rsm ! p))) r"
    using p by (auto simp: results_ok_def)
  then show ?thesis by (auto simp: reply_ok_def)
qed

end

end
