(* ===== verification/KVRaft.thy ===== *)
theory KVRaft
  imports KVSrv
begin

text \<open>
  The replicated key/value service (src/src/kvraft1/server.go, client.go): the state machine that
  every replica runs (\<open>DoOp\<close>, \<open>Snapshot\<close>, \<open>Restore\<close>), the RPC handlers on top of \<open>Submit\<close>, and the
  clerk that looks for the leader.  Sequence numbers only grow by one per call, so they are \<open>int\<close>;
  a nil reply table is the empty one, as the code treats it.
\<close>

section \<open>Data\<close>

record RaftReqMsg =
  rq_Command :: string
  rq_Key :: string
  rq_Value :: string
  rq_SeqNum :: int
  rq_ClientId :: int
  rq_Version :: Tversion

record RaftReplyMsg =
  rp_Command :: string
  rp_Value :: string
  rp_Version :: Tversion
  rp_Err :: Err

text \<open>What reaches \<open>DoOp\<close> as \<open>any\<close>: a request, as a value or as a pointer, or something else.\<close>

datatype any_req = ReqMsg RaftReqMsg | OtherReq

record kvr_dupTab =
  Replies :: "int \<rightharpoonup> RaftReplyMsg"
  MaxSeqNum :: int

record KVState =
  kvr_cache :: "string \<rightharpoonup> KVPair"
  kvr_clientMap :: "int \<rightharpoonup> kvr_dupTab"

definition kvr_init :: KVState where
  "kvr_init = \<lparr>kvr_cache = Map.empty, kvr_clientMap = Map.empty\<rparr>"

section \<open>The state machine\<close>

definition wrongLeader :: RaftReplyMsg where
  "wrongLeader = \<lparr>rp_Command = '''', rp_Value = '''', rp_Version = 0, rp_Err = ErrWrongLeader\<rparr>"

definition cached_reply :: "RaftReqMsg \<Rightarrow> KVState \<Rightarrow> RaftReplyMsg option" where
  "cached_reply req kv = (case kvr_clientMap kv (rq_ClientId req) of
     Some dup \<Rightarrow> Replies dup (rq_SeqNum req) | None \<Rightarrow> None)"

text \<open>The switch on the command: the reply and the new store, or \<open>None\<close> in the default case.\<close>

definition exec_cmd :: "RaftReqMsg \<Rightarrow> (string \<rightharpoonup> KVPair) \<Rightarrow> (RaftReplyMsg \<times> (string \<rightharpoonup> KVPair)) option" where
  "exec_cmd req c =
     (let replyMsg = \<lparr>rp_Command = rq_Command req, rp_Value = '''', rp_Version = rq_Version req,
                      rp_Err = ErrEmpty\<rparr> in
      if rq_Command req = ''Get'' then
        (case c (rq_Key req) of
           Some p \<Rightarrow> Some (replyMsg\<lparr>rp_Value := kv_value p, rp_Version := kv_version p, rp_Err := OK\<rparr>, c)
         | None \<Rightarrow> Some (replyMsg\<lparr>rp_Err := ErrNoKey\<rparr>, c))
      else if rq_Command req = ''Put'' then
        (case c (rq_Key req) of
           Some p \<Rightarrow>
             if kv_version p = rq_Version req
             then Some (replyMsg\<lparr>rp_Version := kv_version p + 1, rp_Err := OK\<rparr>,
                        c(rq_Key req \<mapsto> \<lparr>kv_value = rq_Value req, kv_version = kv_version p + 1\<rparr>))
             else Some (replyMsg\<lparr>rp_Err := ErrVersion\<rparr>, c)
         | None \<Rightarrow>
             if rq_Version req = 0
             then Some (replyMsg\<lparr>rp_Version := 1, rp_Err := OK\<rparr>,
                        c(rq_Key req \<mapsto> \<lparr>kv_value = rq_Value req, kv_version = 1\<rparr>))
             else Some (replyMsg\<lparr>rp_Err := ErrVersion\<rparr>, c))
      else None)"

text \<open>Remembering the reply, with the garbage collection of replies more than 100 behind.\<close>

definition remember :: "RaftReqMsg \<Rightarrow> RaftReplyMsg \<Rightarrow> kvr_dupTab option \<Rightarrow> kvr_dupTab" where
  "remember req r d = (case d of
     Some dup \<Rightarrow>
       (let dup = dup\<lparr>Replies := (Replies dup)(rq_SeqNum req \<mapsto> r)\<rparr> in
        if rq_SeqNum req > MaxSeqNum dup
        then dup\<lparr>MaxSeqNum := rq_SeqNum req,
                 Replies := (\<lambda>q. if q < rq_SeqNum req - 100 then None else Replies dup q)\<rparr>
        else dup)
   | None \<Rightarrow> \<lparr>Replies = [rq_SeqNum req \<mapsto> r], MaxSeqNum = rq_SeqNum req\<rparr>)"

definition DoOp :: "any_req \<Rightarrow> KVState \<Rightarrow> RaftReplyMsg \<times> KVState" where
  "DoOp a kv = (case a of
     OtherReq \<Rightarrow> (wrongLeader, kv)
   | ReqMsg req \<Rightarrow>
       (case cached_reply req kv of
          Some r \<Rightarrow> (r, kv)
        | None \<Rightarrow>
            (case exec_cmd req (kvr_cache kv) of
               None \<Rightarrow> (wrongLeader, kv)
             | Some (r, c) \<Rightarrow>
                 (r, \<lparr>kvr_cache = c, kvr_clientMap = (kvr_clientMap kv)(rq_ClientId req \<mapsto>
                        remember req r (kvr_clientMap kv (rq_ClientId req)))\<rparr>))))"

text \<open>
  A snapshot is the store and the compacted table, in the order they are encoded.  The table
  keeps the replies of the last ten sequence numbers.
\<close>

datatype kvr_gob = GCache "string \<rightharpoonup> KVPair" | GDupTab "int \<rightharpoonup> kvr_dupTab"

definition compact_dup :: "kvr_dupTab \<Rightarrow> kvr_dupTab" where
  "compact_dup dup = \<lparr>Replies = (\<lambda>q. if MaxSeqNum dup > 0 \<and> MaxSeqNum dup - 9 \<le> q \<and> q \<le> MaxSeqNum dup
       then Replies dup q else None), MaxSeqNum = MaxSeqNum dup\<rparr>"

definition kvr_Snapshot :: "KVState \<Rightarrow> kvr_gob list" where
  "kvr_Snapshot kv = [GCache (kvr_cache kv), GDupTab (map_option compact_dup \<circ> kvr_clientMap kv)]"

text \<open>\<open>Restore\<close>; \<open>None\<close> is the panic on a snapshot that cannot be decoded.\<close>

fun kvr_Restore :: "kvr_gob list \<Rightarrow> KVState \<Rightarrow> KVState option" where
  "kvr_Restore [] kv = Some kv"
| "kvr_Restore (GCache c # GDupTab d # _) kv = Some (kv\<lparr>kvr_cache := c, kvr_clientMap := d\<rparr>)"
| "kvr_Restore _ kv = None"

section \<open>The RPC handlers\<close>

text \<open>
  \<open>Submit\<close> is an argument: what it answers to the request.  A result that is not a
  \<open>RaftReplyMsg\<close> is \<open>None\<close>.
\<close>

definition kvr_Get :: "GetArgs \<Rightarrow> bool \<Rightarrow> bool \<Rightarrow> (RaftReqMsg \<Rightarrow> Err \<times> RaftReplyMsg option) \<Rightarrow> GetReply" where
  "kvr_Get args down isLeader submit =
     (let fail = (\<lambda>e. \<lparr>gr_Value = '''', gr_Version = 0, gr_Err = e\<rparr>) in
      if down \<or> \<not> isLeader then fail ErrWrongLeader
      else let raftMsg = \<lparr>rq_Command = ''Get'', rq_Key = ga_Key args, rq_Value = '''',
                  rq_SeqNum = ga_SeqNum args, rq_ClientId = ga_ClientId args, rq_Version = 0\<rparr>;
               (err, result) = submit raftMsg
           in if err \<noteq> OK then fail err
              else case result of
                None \<Rightarrow> fail ErrWrongLeader
              | Some r \<Rightarrow>
                  if rp_Command r \<noteq> ''Get'' then fail ErrWrongLeader
                  else \<lparr>gr_Value = rp_Value r, gr_Version = rp_Version r, gr_Err = rp_Err r\<rparr>)"

definition kvr_Put :: "PutArgs \<Rightarrow> bool \<Rightarrow> bool \<Rightarrow> (RaftReqMsg \<Rightarrow> Err \<times> RaftReplyMsg option) \<Rightarrow> PutReply" where
  "kvr_Put args down isLeader submit =
     (if down \<or> \<not> isLeader then \<lparr>pr_Err = ErrWrongLeader\<rparr>
      else let raftMsg = \<lparr>rq_Command = ''Put'', rq_Key = pa_Key args, rq_Value = pa_Value args,
                  rq_SeqNum = pa_SeqNum args, rq_ClientId = pa_ClientId args, rq_Version = pa_Version args\<rparr>;
               (err, result) = submit raftMsg
           in if err \<noteq> OK then \<lparr>pr_Err = err\<rparr>
              else case result of
                None \<Rightarrow> \<lparr>pr_Err = ErrWrongLeader\<rparr>
              | Some r \<Rightarrow>
                  if rp_Command r \<noteq> ''Put'' then \<lparr>pr_Err = ErrWrongLeader\<rparr>
                  else \<lparr>pr_Err = rp_Err r\<rparr>)"

section \<open>The clerk\<close>

record kvr_Clerk =
  kck_servers :: nat
  kck_clientId :: int
  kck_seqNum :: int
  kck_leaderIdx :: nat

definition kvr_MakeClerk :: "nat \<Rightarrow> int \<Rightarrow> kvr_Clerk \<times> int" where
  "kvr_MakeClerk servers globalClientId =
     (\<lparr>kck_servers = servers, kck_clientId = globalClientId + 1, kck_seqNum = 0, kck_leaderIdx = 0\<rparr>,
      globalClientId + 1)"

text \<open>
  The calls of one operation in the order they are made: the server called and, when the call
  succeeds, the error of its reply.  The schedule gives the outcome of each call.
\<close>

type_synonym call = "nat \<times> Err option"

text \<open>
  One round of \<open>Put\<close>: the previous leader first, then the others in order.  The result is the
  returned error with the new leader index, or the \<open>retried\<close> flag to go on with.
\<close>

fun Put_round :: "nat list \<Rightarrow> (nat \<Rightarrow> Err option) \<Rightarrow> bool \<Rightarrow> bool + (Err \<times> nat)" where
  "Put_round [] outcome retried = Inl retried"
| "Put_round (idx # rest) outcome retried = (case outcome idx of
     None \<Rightarrow> Put_round rest outcome True
   | Some err \<Rightarrow>
       if err \<noteq> ErrWrongLeader
       then Inr (if err = ErrVersion \<and> retried then ErrMaybe else err, idx)
       else Put_round rest outcome retried)"

definition round_order :: "kvr_Clerk \<Rightarrow> nat list" where
  "round_order ck = kck_leaderIdx ck # filter (\<lambda>i. i \<noteq> kck_leaderIdx ck) [0..<kck_servers ck]"

text \<open>The outer loop over rounds; \<open>None\<close> while no round of the schedule has succeeded.\<close>

fun kvr_Put_loop :: "(nat \<Rightarrow> Err option) list \<Rightarrow> bool \<Rightarrow> kvr_Clerk \<Rightarrow> Err option \<times> kvr_Clerk" where
  "kvr_Put_loop [] retried ck = (None, ck)"
| "kvr_Put_loop (outcome # rounds) retried ck = (case Put_round (round_order ck) outcome retried of
     Inr (err, idx) \<Rightarrow> (Some err, ck\<lparr>kck_leaderIdx := idx\<rparr>)
   | Inl retried \<Rightarrow> kvr_Put_loop rounds retried ck)"

definition kvr_Clerk_Put :: "(nat \<Rightarrow> Err option) list \<Rightarrow> kvr_Clerk \<Rightarrow> Err option \<times> kvr_Clerk" where
  "kvr_Clerk_Put rounds ck = kvr_Put_loop rounds False (ck\<lparr>kck_seqNum := kck_seqNum ck + 1\<rparr>)"

fun Get_round :: "nat list \<Rightarrow> (nat \<Rightarrow> GetReply option) \<Rightarrow> (GetReply \<times> nat) option" where
  "Get_round [] outcome = None"
| "Get_round (idx # rest) outcome = (case outcome idx of
     Some r \<Rightarrow> if gr_Err r = OK \<or> gr_Err r = ErrNoKey then Some (r, idx) else Get_round rest outcome
   | None \<Rightarrow> Get_round rest outcome)"

fun kvr_Get_loop :: "(nat \<Rightarrow> GetReply option) list \<Rightarrow> kvr_Clerk \<Rightarrow> GetReply option \<times> kvr_Clerk" where
  "kvr_Get_loop [] ck = (None, ck)"
| "kvr_Get_loop (outcome # rounds) ck = (case Get_round (round_order ck) outcome of
     Some (r, idx) \<Rightarrow> (Some r, ck\<lparr>kck_leaderIdx := idx\<rparr>)
   | None \<Rightarrow> kvr_Get_loop rounds ck)"

definition kvr_Clerk_Get :: "(nat \<Rightarrow> GetReply option) list \<Rightarrow> kvr_Clerk \<Rightarrow> GetReply option \<times> kvr_Clerk" where
  "kvr_Clerk_Get rounds ck = kvr_Get_loop rounds (ck\<lparr>kck_seqNum := kck_seqNum ck + 1\<rparr>)"

section \<open>Refinement of the sequential model\<close>

definition kvr_abs :: "KVState \<Rightarrow> string \<Rightarrow> KvState" where
  "kvr_abs kv k = (case kvr_cache kv k of
     None \<Rightarrow> KvModel_Init | Some p \<Rightarrow> \<lparr>st_Value = kv_value p, st_Version = kv_version p\<rparr>)"

definition req_input :: "RaftReqMsg \<Rightarrow> KvInput" where
  "req_input req = \<lparr>in_Op = (if rq_Command req = ''Get'' then 0 else 1), in_Key = rq_Key req,
     in_Value = rq_Value req, in_Version = rq_Version req\<rparr>"

definition reply_output :: "RaftReplyMsg \<Rightarrow> KvOutput" where
  "reply_output r = \<lparr>out_Value = rp_Value r, out_Version = rp_Version r, out_Err = err_str (rp_Err r)\<rparr>"

text \<open>
  The replicated store against its sequential specification.  Every \<open>Get\<close> or \<open>Put\<close> that is
  not a remembered duplicate is answered as \<open>KvModel.Step\<close> accepts it, and changes the register
  of its key exactly as the model does and no other.
\<close>

theorem DoOp_refines_model:
  assumes "cached_reply req kv = None" and "rq_Command req = ''Get'' \<or> rq_Command req = ''Put''"
  shows "KvModel_Step (kvr_abs kv (rq_Key req)) (req_input req) (reply_output (fst (DoOp (ReqMsg req) kv)))
       = (True, Some (kvr_abs (snd (DoOp (ReqMsg req) kv)) (rq_Key req)))
     \<and> (\<forall>k. k \<noteq> rq_Key req \<longrightarrow> kvr_abs (snd (DoOp (ReqMsg req) kv)) k = kvr_abs kv k)"
  using assms
  by (auto simp: DoOp_def exec_cmd_def Let_def kvr_abs_def req_input_def reply_output_def
      KvModel_Step_def KvModel_Init_def split: option.splits)

definition ex_put :: "string \<Rightarrow> string \<Rightarrow> Tversion \<Rightarrow> int \<Rightarrow> int \<Rightarrow> any_req" where
  "ex_put k v ver cid q = ReqMsg \<lparr>rq_Command = ''Put'', rq_Key = k, rq_Value = v, rq_SeqNum = q,
     rq_ClientId = cid, rq_Version = ver\<rparr>"

theorem DoOp_refines_model_witness:
  "KvModel_Step KvModel_Init \<lparr>in_Op = 1, in_Key = ''x'', in_Value = ''v'', in_Version = 3\<rparr>
     (reply_output (fst (DoOp (ex_put ''x'' ''v'' 3 1 1) kvr_init))) = (True, Some KvModel_Init)"
  using DoOp_refines_model [of "\<lparr>rq_Command = ''Put'', rq_Key = ''x'', rq_Value = ''v'', rq_SeqNum = 1,
      rq_ClientId = 1, rq_Version = 3\<rparr>" kvr_init]
  by (simp add: ex_put_def cached_reply_def kvr_init_def kvr_abs_def req_input_def DoOp_def exec_cmd_def)

section \<open>Exactly once\<close>

text \<open>
  A replica applies a log of requests; the reference remembers every reply forever and so
  executes each pair of client and sequence number once.
\<close>

fun run_log :: "any_req list \<Rightarrow> KVState \<Rightarrow> RaftReplyMsg list \<times> KVState" where
  "run_log [] kv = ([], kv)"
| "run_log (a # as) kv = (let (r, kv) = DoOp a kv; (rs, kv) = run_log as kv in (r # rs, kv))"

type_synonym once_state = "(int \<times> int \<rightharpoonup> RaftReplyMsg) \<times> (string \<rightharpoonup> KVPair)"

definition once_op :: "any_req \<Rightarrow> once_state \<Rightarrow> RaftReplyMsg \<times> once_state" where
  "once_op a st = (let (dn, c) = st in case a of
     OtherReq \<Rightarrow> (wrongLeader, st)
   | ReqMsg req \<Rightarrow>
       (case dn (rq_ClientId req, rq_SeqNum req) of
          Some r \<Rightarrow> (r, st)
        | None \<Rightarrow> (case exec_cmd req c of
              None \<Rightarrow> (wrongLeader, st)
            | Some (r, c) \<Rightarrow> (r, (dn((rq_ClientId req, rq_SeqNum req) \<mapsto> r), c)))))"

fun once_log :: "any_req list \<Rightarrow> once_state \<Rightarrow> RaftReplyMsg list \<times> once_state" where
  "once_log [] st = ([], st)"
| "once_log (a # as) st = (let (r, st) = once_op a st; (rs, st) = once_log as st in (r # rs, st))"

text \<open>No request lags more than \<open>w\<close> sequence numbers behind one its client has in the log.\<close>

fun lag_ok :: "int \<Rightarrow> any_req \<Rightarrow> any_req \<Rightarrow> bool" where
  "lag_ok w (ReqMsg p) (ReqMsg q) \<longleftrightarrow> (rq_ClientId p = rq_ClientId q \<longrightarrow> rq_SeqNum p \<le> rq_SeqNum q + w)"
| "lag_ok w _ _ \<longleftrightarrow> True"

definition lags :: "int \<Rightarrow> any_req list \<Rightarrow> bool" where
  "lags w = sorted_wrt (lag_ok w)"

text \<open>
  The duplicate table agrees with the reference on the last \<open>w\<close> sequence numbers of a client,
  and its highest number is that of a request in the log so far.
\<close>

definition dup_agrees :: "int \<Rightarrow> int \<Rightarrow> kvr_dupTab \<Rightarrow> (int \<times> int \<rightharpoonup> RaftReplyMsg) \<Rightarrow> bool" where
  "dup_agrees w cid d dn \<longleftrightarrow>
     (\<forall>q. (MaxSeqNum d - w \<le> q \<longrightarrow> Replies d q = dn (cid, q)) \<and> (MaxSeqNum d < q \<longrightarrow> dn (cid, q) = None))"

definition in_log :: "any_req list \<Rightarrow> int \<Rightarrow> int \<Rightarrow> bool" where
  "in_log prior cid q \<longleftrightarrow> (\<exists>p. ReqMsg p \<in> set prior \<and> rq_ClientId p = cid \<and> rq_SeqNum p = q)"

fun client_agrees :: "int \<Rightarrow> any_req list \<Rightarrow> (int \<times> int \<rightharpoonup> RaftReplyMsg) \<Rightarrow> int \<Rightarrow> kvr_dupTab option \<Rightarrow> bool" where
  "client_agrees w prior dn cid None \<longleftrightarrow> (\<forall>q. dn (cid, q) = None)"
| "client_agrees w prior dn cid (Some d) \<longleftrightarrow> dup_agrees w cid d dn \<and> in_log prior cid (MaxSeqNum d)"

definition agrees :: "int \<Rightarrow> any_req list \<Rightarrow> KVState \<Rightarrow> once_state \<Rightarrow> bool" where
  "agrees w prior kv st \<longleftrightarrow> kvr_cache kv = snd st \<and>
     (\<forall>cid. client_agrees w prior (fst st) cid (kvr_clientMap kv cid))"

lemma agreesD: "agrees w prior kv st \<Longrightarrow> client_agrees w prior (fst st) cid (kvr_clientMap kv cid)"
  by (simp add: agrees_def)

lemma agrees_cached:
  assumes "agrees w prior kv st" "\<forall>p \<in> set prior. lag_ok w p (ReqMsg req)"
  shows "cached_reply req kv = fst st (rq_ClientId req, rq_SeqNum req)"
proof (cases "kvr_clientMap kv (rq_ClientId req)")
  case None
  then show ?thesis using agreesD [OF assms(1), of "rq_ClientId req"] by (simp add: cached_reply_def)
next
  case (Some d)
  have "dup_agrees w (rq_ClientId req) d (fst st)" "in_log prior (rq_ClientId req) (MaxSeqNum d)"
    using agreesD [OF assms(1), of "rq_ClientId req"] Some by simp_all
  moreover from this(2) have "MaxSeqNum d - w \<le> rq_SeqNum req"
    using assms(2) by (fastforce simp: in_log_def)
  ultimately show ?thesis using Some by (simp add: cached_reply_def dup_agrees_def)
qed

lemma in_log_Cons [simp]: "in_log (ReqMsg r # prior) cid q \<longleftrightarrow> rq_ClientId r = cid \<and> rq_SeqNum r = q \<or> in_log prior cid q"
  by (auto simp: in_log_def)

lemma in_log_Other [simp]: "in_log (OtherReq # prior) cid q \<longleftrightarrow> in_log prior cid q"
  by (auto simp: in_log_def)

lemma remember_agrees:
  assumes "client_agrees w prior dn (rq_ClientId req) od" "0 \<le> w" "w \<le> 100"
  shows "client_agrees w (ReqMsg req # prior) (dn((rq_ClientId req, rq_SeqNum req) \<mapsto> r)) (rq_ClientId req)
    (Some (remember req r od))"
  using assms by (cases od) (auto simp: remember_def dup_agrees_def Let_def)

lemma client_agrees_mono: "client_agrees w prior dn cid od \<Longrightarrow> client_agrees w (a # prior) dn cid od"
  by (cases od; cases a) auto

lemma client_agrees_other:
  "cid \<noteq> cid' \<Longrightarrow> client_agrees w prior (dn((cid', q) \<mapsto> r)) cid od \<longleftrightarrow> client_agrees w prior dn cid od"
  by (cases od) (auto simp: dup_agrees_def)

lemma agrees_mono: "agrees w prior kv st \<Longrightarrow> agrees w (a # prior) kv st"
  by (simp add: agrees_def client_agrees_mono)

lemma agrees_step:
  assumes ag: "agrees w prior kv st" and lag: "\<forall>p \<in> set prior. lag_ok w p a" and w: "0 \<le> w" "w \<le> 100"
  shows "fst (DoOp a kv) = fst (once_op a st) \<and> agrees w (a # prior) (snd (DoOp a kv)) (snd (once_op a st))"
proof (cases a)
  case OtherReq
  then show ?thesis using agrees_mono [OF ag] by (simp add: DoOp_def once_op_def split_beta)
next
  case (ReqMsg req)
  obtain dn c where st: "st = (dn, c)" by (cases st)
  let ?cid = "rq_ClientId req"
  have hit: "cached_reply req kv = dn (?cid, rq_SeqNum req)"
    using agrees_cached [OF ag] lag ReqMsg st by simp
  have c: "kvr_cache kv = c" using ag st by (simp add: agrees_def)
  show ?thesis
  proof (cases "cached_reply req kv = None \<and> exec_cmd req c \<noteq> None")
    case False
    then have "DoOp a kv = (fst (once_op a st), kv)" "snd (once_op a st) = st"
      using hit c st ReqMsg by (auto simp: DoOp_def once_op_def split: option.splits)
    then show ?thesis using agrees_mono [OF ag] by simp
  next
    case True
    then obtain r c' where ex: "exec_cmd req c = Some (r, c')" by force
    let ?od = "kvr_clientMap kv ?cid"
    have "client_agrees w (a # prior) (dn((?cid, rq_SeqNum req) \<mapsto> r)) ?cid (Some (remember req r ?od))"
      using remember_agrees [OF agreesD [OF ag] w] st ReqMsg by simp
    moreover have "client_agrees w (a # prior) dn cid (kvr_clientMap kv cid)" for cid
      using agreesD [OF ag] st by (simp add: client_agrees_mono)
    moreover have "snd (once_op a st) = (dn((?cid, rq_SeqNum req) \<mapsto> r), c')" "fst (once_op a st) = r"
      using True ex hit st ReqMsg by (simp_all add: once_op_def)
    moreover have "DoOp a kv = (r, \<lparr>kvr_cache = c', kvr_clientMap = (kvr_clientMap kv)(?cid \<mapsto> remember req r ?od)\<rparr>)"
      using True ex c ReqMsg by (simp add: DoOp_def)
    ultimately show ?thesis by (simp add: agrees_def client_agrees_other)
  qed
qed

lemma agrees_log:
  assumes "agrees w prior kv st" "lags w ops" "\<forall>p \<in> set prior. \<forall>a \<in> set ops. lag_ok w p a" "0 \<le> w" "w \<le> 100"
  shows "fst (run_log ops kv) = fst (once_log ops st)
     \<and> agrees w (rev ops @ prior) (snd (run_log ops kv)) (snd (once_log ops st))"
  using assms
proof (induction ops arbitrary: prior kv st)
  case (Cons a ops)
  have s: "fst (DoOp a kv) = fst (once_op a st)" "agrees w (a # prior) (snd (DoOp a kv)) (snd (once_op a st))"
    using agrees_step [OF Cons.prems(1) _ Cons.prems(4,5)] Cons.prems(3) by simp_all
  have "\<forall>p \<in> set (a # prior). \<forall>b \<in> set ops. lag_ok w p b" "lags w ops"
    using Cons.prems(2,3) by (auto simp: lags_def)
  from Cons.IH [OF s(2) this(2,1) Cons.prems(4,5)] s(1) show ?case by (simp add: split_beta Let_def)
qed simp

lemma agrees_init: "agrees w [] kvr_init (Map.empty, Map.empty)"
  by (simp add: agrees_def kvr_init_def)

text \<open>
  C18: exactly once.  On every log in which no request lags more than 100 sequence numbers behind
  a request of its client, the replica answers each request, duplicates included, and ends with
  the same store as the reference that remembers every reply and executes each request once.
\<close>

theorem DoOp_exactly_once:
  assumes "lags 100 ops"
  shows "fst (run_log ops kvr_init) = fst (once_log ops (Map.empty, Map.empty))
     \<and> kvr_cache (snd (run_log ops kvr_init)) = snd (snd (once_log ops (Map.empty, Map.empty)))"
  using agrees_log [OF agrees_init assms] by (simp add: agrees_def)

theorem DoOp_exactly_once_witness:
  "map rp_Err (fst (run_log [ex_put ''x'' ''a'' 0 1 1, ex_put ''x'' ''b'' 1 2 1, ex_put ''x'' ''a'' 0 1 1] kvr_init))
     = [OK, OK, OK]"
proof -
  let ?ops = "[ex_put ''x'' ''a'' 0 1 1, ex_put ''x'' ''b'' 1 2 1, ex_put ''x'' ''a'' 0 1 1]"
  have "lags 100 ?ops" by (simp add: lags_def ex_put_def)
  from conjunct1 [OF DoOp_exactly_once [OF this]] show ?thesis
    by (simp add: once_op_def ex_put_def exec_cmd_def Let_def split_beta)
qed

section \<open>Snapshots\<close>

lemma compact_dup_idem [simp]: "compact_dup (compact_dup d) = compact_dup d"
  by (auto simp: compact_dup_def)

lemma Restore_Snapshot: "kvr_Restore (kvr_Snapshot kv) kv0
   = Some \<lparr>kvr_cache = kvr_cache kv, kvr_clientMap = map_option compact_dup \<circ> kvr_clientMap kv\<rparr>"
  by (cases kv0) (simp add: kvr_Snapshot_def)

definition positive_seqs :: "any_req list \<Rightarrow> bool" where
  "positive_seqs = list_all (\<lambda>a. case a of ReqMsg req \<Rightarrow> 0 < rq_SeqNum req | OtherReq \<Rightarrow> True)"

lemma agrees_restored:
  assumes "agrees w prior kv st" "positive_seqs prior" "9 \<le> w"
  shows "agrees 9 prior \<lparr>kvr_cache = kvr_cache kv, kvr_clientMap = map_option compact_dup \<circ> kvr_clientMap kv\<rparr> st"
proof -
  have pos: "0 < q" if "in_log prior cid q" for cid q
    using that assms(2) by (auto simp: in_log_def positive_seqs_def list_all_iff)
  have "client_agrees 9 prior dn cid (map_option compact_dup od)" if "client_agrees w prior dn cid od" for cid od dn
    using that pos assms(3) by (cases od) (fastforce simp: dup_agrees_def compact_dup_def)+
  then show ?thesis using assms(1) by (simp add: agrees_def)
qed

text \<open>
  C33: snapshots are transparent to recent requests.  A replica restored from the snapshot that
  another took after \<open>ops1\<close> answers every later request as that replica does and keeps the same
  store, provided no request lags more than nine sequence numbers behind its client.
\<close>

theorem Restore_Snapshot_transparent:
  assumes "lags 9 (ops1 @ ops2)" and "positive_seqs ops1"
  shows "\<exists>kv'. kvr_Restore (kvr_Snapshot (snd (run_log ops1 kvr_init))) kv0 = Some kv'
     \<and> fst (run_log ops2 kv') = fst (run_log ops2 (snd (run_log ops1 kvr_init)))
     \<and> kvr_cache (snd (run_log ops2 kv')) = kvr_cache (snd (run_log ops2 (snd (run_log ops1 kvr_init))))"
proof -
  let ?kv = "snd (run_log ops1 kvr_init)" and ?st = "snd (once_log ops1 (Map.empty, Map.empty))"
  let ?kv' = "\<lparr>kvr_cache = kvr_cache ?kv, kvr_clientMap = map_option compact_dup \<circ> kvr_clientMap ?kv\<rparr>"
  have l: "lags 9 ops1" "lags 9 ops2" "\<forall>p \<in> set (rev ops1). \<forall>a \<in> set ops2. lag_ok 9 p a"
    using assms(1) by (auto simp: lags_def sorted_wrt_append)
  have ag: "agrees 9 (rev ops1) ?kv ?st" using agrees_log [OF agrees_init l(1)] by simp
  have "agrees 9 (rev ops1) ?kv' ?st"
    using agrees_restored [OF ag] assms(2) by (simp add: positive_seqs_def)
  from agrees_log [OF this l(2,3)] agrees_log [OF ag l(2,3)]
  have "fst (run_log ops2 ?kv') = fst (run_log ops2 ?kv)"
    "kvr_cache (snd (run_log ops2 ?kv')) = kvr_cache (snd (run_log ops2 ?kv))"
    by (simp_all add: agrees_def)
  moreover have "kvr_Restore (kvr_Snapshot ?kv) kv0 = Some ?kv'" by (rule Restore_Snapshot)
  ultimately show ?thesis by blast
qed

theorem Restore_Snapshot_transparent_witness:
  "\<exists>kv'. kvr_Restore (kvr_Snapshot (snd (run_log [ex_put ''x'' ''a'' 0 1 1] kvr_init))) kvr_init = Some kv'
     \<and> map rp_Err (fst (run_log [ex_put ''x'' ''a'' 0 1 1] kv')) = [OK]"
proof -
  let ?ops = "[ex_put ''x'' ''a'' 0 1 1]"
  have "lags 9 (?ops @ ?ops)" "positive_seqs ?ops" by (simp_all add: lags_def ex_put_def positive_seqs_def)
  from Restore_Snapshot_transparent [OF this, of kvr_init] obtain kv' where
    "kvr_Restore (kvr_Snapshot (snd (run_log ?ops kvr_init))) kvr_init = Some kv'"
    "fst (run_log ?ops kv') = fst (run_log ?ops (snd (run_log ?ops kvr_init)))" by blast
  moreover have "map rp_Err (fst (run_log ?ops (snd (run_log ?ops kvr_init)))) = [OK]"
    by (simp add: ex_put_def DoOp_def exec_cmd_def cached_reply_def kvr_init_def remember_def Let_def)
  ultimately show ?thesis by (intro exI [of _ kv'] conjI) (simp_all only:)
qed

definition old_ops :: "any_req list" where
  "old_ops = ex_put ''x'' ''late'' 1 7 1 # map (\<lambda>q. ex_put ''y'' ''v'' 9 7 q) [2..11]
     @ [ex_put ''x'' ''first'' 0 8 1]"

text \<open>
  C34: and not to older ones.  Two replicas with the same log, one of them restored from a
  snapshot on the way, end with different values of a key: a request eleven sequence numbers
  old, failed when it was first applied, is answered from the table by the one and executed
  again, now with success, by the other.
\<close>

theorem Snapshot_diverges:
  "lags 100 (old_ops @ [ex_put ''x'' ''late'' 1 7 1]) \<and>
   (let kv = snd (run_log old_ops kvr_init); dup = ex_put ''x'' ''late'' 1 7 1 in
    \<exists>kv'. kvr_Restore (kvr_Snapshot kv) kvr_init = Some kv'
      \<and> map_option kv_value (kvr_cache (snd (DoOp dup kv)) ''x'') = Some ''first''
      \<and> map_option kv_value (kvr_cache (snd (DoOp dup kv')) ''x'') = Some ''late'')"
proof
  have up: "[2..11] = [2,3,4,5,6,7,8,9,10,11::int]" by (simp add: upto_rec1)
  show "lags 100 (old_ops @ [ex_put ''x'' ''late'' 1 7 1])"
    unfolding old_ops_def up by (simp add: lags_def ex_put_def)
  show "let kv = snd (run_log old_ops kvr_init); dup = ex_put ''x'' ''late'' 1 7 1 in
    \<exists>kv'. kvr_Restore (kvr_Snapshot kv) kvr_init = Some kv'
      \<and> map_option kv_value (kvr_cache (snd (DoOp dup kv)) ''x'') = Some ''first''
      \<and> map_option kv_value (kvr_cache (snd (DoOp dup kv')) ''x'') = Some ''late''"
    unfolding old_ops_def up
    by (simp add: ex_put_def DoOp_def exec_cmd_def cached_reply_def kvr_init_def remember_def Let_def
        kvr_Snapshot_def compact_dup_def)
qed

section \<open>The clerk's answer\<close>

text \<open>
  The calls a clerk would make over a schedule of rounds, in order, with their outcomes, and the
  calls that make it go on: a failed call, or an answer of a server that is not the leader.
\<close>

definition calls_of :: "kvr_Clerk \<Rightarrow> (nat \<Rightarrow> 'a) list \<Rightarrow> (nat \<times> 'a) list" where
  "calls_of ck rounds = concat (map (\<lambda>outcome. map (\<lambda>i. (i, outcome i)) (round_order ck)) rounds)"

definition put_goes_on :: "call \<Rightarrow> bool" where
  "put_goes_on c \<longleftrightarrow> snd c = None \<or> snd c = Some ErrWrongLeader"

fun put_answer :: "bool \<Rightarrow> call list \<Rightarrow> bool + (Err \<times> nat)" where
  "put_answer retried cs = (case dropWhile put_goes_on cs of
     (i, Some e) # _ \<Rightarrow>
       Inr (if e = ErrVersion \<and> (retried \<or> None \<in> snd ` set (takeWhile put_goes_on cs)) then ErrMaybe else e, i)
   | _ \<Rightarrow> Inl (retried \<or> None \<in> snd ` set cs))"

declare put_answer.simps [simp del]

lemma put_answer_Nil [simp]: "put_answer retried [] = Inl retried"
  by (simp add: put_answer.simps)

lemma put_answer_Cons [simp]:
  "put_answer retried ((i, oe) # cs) = (case oe of None \<Rightarrow> put_answer True cs
     | Some e \<Rightarrow> if e = ErrWrongLeader then put_answer retried cs
        else Inr (if e = ErrVersion \<and> retried then ErrMaybe else e, i))"
  by (auto simp: put_answer.simps put_goes_on_def simp del: dropWhile_eq_Nil_conv
      split: list.splits prod.splits option.splits)

lemma Put_round_answer: "Put_round idxs outcome retried = put_answer retried (map (\<lambda>i. (i, outcome i)) idxs)"
proof (induction idxs arbitrary: retried)
  case (Cons i idxs)
  then show ?case by (cases "outcome i") (auto simp: put_goes_on_def)
qed simp

lemma put_answer_append:
  "put_answer retried (cs @ ds) = (case put_answer retried cs of Inr x \<Rightarrow> Inr x | Inl r \<Rightarrow> put_answer r ds)"
proof (induction cs arbitrary: retried)
  case (Cons c cs)
  then show ?case by (cases c) (simp split: option.splits)
qed simp

lemma kvr_Put_loop_answer:
  "kvr_Put_loop rounds retried ck = (case put_answer retried (calls_of ck rounds) of
     Inr (e, i) \<Rightarrow> (Some e, ck\<lparr>kck_leaderIdx := i\<rparr>) | Inl _ \<Rightarrow> (None, ck))"
proof (induction rounds arbitrary: retried)
  case Nil
  then show ?case by (simp add: calls_of_def)
next
  case (Cons outcome rounds)
  have "calls_of ck (outcome # rounds) = map (\<lambda>i. (i, outcome i)) (round_order ck) @ calls_of ck rounds"
    by (simp add: calls_of_def)
  then show ?case using Cons.IH
    by (simp only: put_answer_append kvr_Put_loop.simps Put_round_answer) (simp split: sum.splits prod.splits)
qed

definition get_goes_on :: "nat \<times> GetReply option \<Rightarrow> bool" where
  "get_goes_on c \<longleftrightarrow> (case snd c of Some r \<Rightarrow> gr_Err r \<noteq> OK \<and> gr_Err r \<noteq> ErrNoKey | None \<Rightarrow> True)"

definition get_answer :: "(nat \<times> GetReply option) list \<Rightarrow> (GetReply \<times> nat) option" where
  "get_answer cs = (case dropWhile get_goes_on cs of (i, Some r) # _ \<Rightarrow> Some (r, i) | _ \<Rightarrow> None)"

lemma Get_round_answer: "Get_round idxs outcome = get_answer (map (\<lambda>i. (i, outcome i)) idxs)"
  by (induction idxs) (auto simp: get_answer_def get_goes_on_def split: option.splits)

lemma get_answer_append:
  "get_answer (cs @ ds) = (case get_answer cs of Some x \<Rightarrow> Some x | None \<Rightarrow> get_answer ds)"
proof (induction cs)
  case (Cons c cs)
  obtain i o_r where c: "c = (i, o_r)" by (cases c)
  have "get_answer ((i, o_r) # es) = (if get_goes_on (i, o_r) then get_answer es else Some (the o_r, i))" for es
    by (cases o_r) (auto simp: get_answer_def get_goes_on_def)
  then show ?case using Cons.IH c by simp
qed (simp add: get_answer_def)

lemma kvr_Get_loop_answer:
  "kvr_Get_loop rounds ck = (case get_answer (calls_of ck rounds) of
     Some (r, i) \<Rightarrow> (Some r, ck\<lparr>kck_leaderIdx := i\<rparr>) | None \<Rightarrow> (None, ck))"
proof (induction rounds)
  case Nil
  then show ?case by (simp add: calls_of_def get_answer_def)
next
  case (Cons outcome rounds)
  have "calls_of ck (outcome # rounds) = map (\<lambda>i. (i, outcome i)) (round_order ck) @ calls_of ck rounds"
    by (simp add: calls_of_def)
  then show ?case using Cons.IH by (simp add: get_answer_append Get_round_answer split: option.splits)
qed

lemma calls_of_seqNum [simp]: "calls_of (ck\<lparr>kck_seqNum := q\<rparr>) rounds = calls_of ck rounds"
  by (simp add: calls_of_def round_order_def)

text \<open>
  What the clerk answers.  Calls go to the last known leader first and then to the other
  servers in order, round after round.  \<open>Put\<close> returns the first answer that is not
  \<open>ErrWrongLeader\<close>, as \<open>ErrMaybe\<close> exactly when it is \<open>ErrVersion\<close> and an earlier call of the
  operation got no reply; \<open>Get\<close> returns the first \<open>OK\<close> or \<open>ErrNoKey\<close>.  Both remember the server
  that answered and take a new sequence number.
\<close>

theorem kvr_Clerk_answers:
  "kvr_Clerk_Put rounds ck = (case dropWhile put_goes_on (calls_of ck rounds) of
      (i, Some e) # _ \<Rightarrow>
        (Some (if e = ErrVersion \<and> None \<in> snd ` set (takeWhile put_goes_on (calls_of ck rounds)) then ErrMaybe else e),
         ck\<lparr>kck_seqNum := kck_seqNum ck + 1, kck_leaderIdx := i\<rparr>)
    | _ \<Rightarrow> (None, ck\<lparr>kck_seqNum := kck_seqNum ck + 1\<rparr>))
   \<and> kvr_Clerk_Get grounds ck = (case dropWhile get_goes_on (calls_of ck grounds) of
      (i, Some r) # _ \<Rightarrow> (Some r, ck\<lparr>kck_seqNum := kck_seqNum ck + 1, kck_leaderIdx := i\<rparr>)
    | _ \<Rightarrow> (None, ck\<lparr>kck_seqNum := kck_seqNum ck + 1\<rparr>))"
  unfolding kvr_Clerk_Put_def kvr_Clerk_Get_def kvr_Put_loop_answer kvr_Get_loop_answer
    put_answer.simps get_answer_def calls_of_seqNum
  by (auto simp del: dropWhile_eq_Nil_conv split: list.split option.split)

end
