(* ===== verification/KVService.thy ===== *)
theory KVService
  imports RSM KVRaft
begin

text \<open>
  The replicated key/value service as a whole (src/src/kvraft1/server.go on top of rsm/rsm.go and
  raft1/raft.go): \<open>StartKVServer\<close>, the store as an instance of the state machine contract, and
  the properties that need more than one layer.
\<close>

type_synonym KVRsm = "(any_req, RaftReplyMsg, KVState, kvr_gob) RSM"

record KVR =
  kvs_me :: nat
  kvs_dead :: bool
  kvs_rsm :: KVRsm

definition StartKVServer :: "nat \<Rightarrow> nat \<Rightarrow> (any_req Op, kvr_gob rsm_gob) disk \<Rightarrow> int \<Rightarrow> KVR option" where
  "StartKVServer servers i ps maxraftstate =
     map_option (\<lambda>rsm. \<lparr>kvs_me = i, kvs_dead = False, kvs_rsm = rsm\<rparr>)
       (MakeRSM kvr_Restore servers i ps maxraftstate kvr_init)"

definition kvs_Kill :: "KVR \<Rightarrow> KVR" where
  "kvs_Kill kv = kv\<lparr>kvs_dead := True, kvs_rsm := rsm_Kill (kvs_rsm kv)\<rparr>"

definition kvs_killed :: "KVR \<Rightarrow> bool" where
  "kvs_killed kv = kvs_dead kv"

section \<open>The store meets the contract\<close>

lemma once_log_run: "once_log ops st = run_ops once_op ops st"
  by (induction ops arbitrary: st) (simp_all add: split_beta Let_def)

interpretation kvs: replicated DoOp kvr_Snapshot kvr_Restore kvr_init once_op "(Map.empty, Map.empty)"
  "\<lambda>qs. agrees 9 (rev qs)" "\<lambda>qs. lags 9 qs \<and> positive_seqs qs"
proof unfold_locales
  show "agrees 9 (rev []) kvr_init (Map.empty, Map.empty)" by (simp add: agrees_init)
  show "lags 9 qs \<and> positive_seqs qs" if "lags 9 (qs @ qs') \<and> positive_seqs (qs @ qs')" for qs qs'
    using that by (simp add: lags_def sorted_wrt_append positive_seqs_def)
  show "fst (DoOp q s) = fst (once_op q t) \<and> agrees 9 (rev (qs @ [q])) (snd (DoOp q s)) (snd (once_op q t))"
    if "agrees 9 (rev qs) s t" "lags 9 (qs @ [q]) \<and> positive_seqs (qs @ [q])" for qs s t q
    using agrees_step [OF that(1), of q] that(2) by (simp add: lags_def sorted_wrt_append)
  show "\<exists>s''. kvr_Restore (kvr_Snapshot s) s' = Some s'' \<and> agrees 9 (rev qs) s'' t"
    if "agrees 9 (rev qs) s t" "lags 9 qs \<and> positive_seqs qs" for qs s t s'
    using agrees_restored [OF that(1)] that(2) by (simp add: Restore_Snapshot positive_seqs_def)
qed

abbreviation kvs_reach :: "any_req Op list \<Rightarrow> KVRsm \<Rightarrow> bool" where
  "kvs_reach \<equiv> rsm_reach DoOp kvr_Snapshot kvr_Restore kvr_init"

text \<open>
  A submitted request on its way: the layer of server 0 on a leader, the request registered at
  index 1, and the state after the reader has applied an entry at that index.
\<close>

definition ex_rf :: "(any_req Op, kvr_gob rsm_gob) Raft" where
  "ex_rf = (boot 3 0 MakePersister)\<lparr>state := Leader, currentTerm := 1\<rparr>"

definition ex_kvs :: KVRsm where
  "ex_kvs = \<lparr>rsm_me = 0, rsm_rf = boot 3 0 MakePersister, rsm_maxraftstate = -1, rsm_sm = kvr_init, rsm_opId = 0,
     rsm_lastApplied = 0, rsm_pendingOps = [], rsm_heap = [], rsm_shutdown = False, rsm_shutdownCh = False\<rparr>"

definition ex_msg :: "int \<Rightarrow> any_req Op \<Rightarrow> (any_req Op, kvr_gob rsm_gob) ApplyMsg" where
  "ex_msg i op = command_msg \<lparr>le_Command = Some op, le_Term = 1, le_Index = i\<rparr>"

definition ex_submitted :: "any_req \<Rightarrow> KVRsm" where
  "ex_submitted q = ex_kvs\<lparr>rsm_rf := started \<lparr>op_Me = 0, op_Id = 1, op_Req = q\<rparr> ex_rf, rsm_opId := 1,
     rsm_pendingOps := [(1, 0)],
     rsm_heap := [\<lparr>po_op = \<lparr>op_Me = 0, op_Id = 1, op_Req = q\<rparr>, po_result = None, po_done = None\<rparr>]\<rparr>"

definition ex_applied :: "any_req \<Rightarrow> any_req Op \<Rightarrow> KVRsm" where
  "ex_applied q op = snd (the (applyCommand DoOp (\<lambda>_. 1) (ex_msg 1 op) (ex_submitted q)))"

lemma ex_kvs_reach: "kvs_reach log ex_kvs"
proof (rule rsm_reach.boot)
  show "MakeRSM kvr_Restore 3 0 MakePersister (-1) kvr_init = Some ex_kvs"
    by (simp add: MakeRSM_def Make_boot readPersist_def decode_state_def ex_kvs_def)
qed simp

lemma ex_rf_wf: "raft_wf ex_rf"
  by (auto simp: raft_wf_def ex_rf_def arrays_ok_def boot_def) (simp add: generateSingleLog_def)

lemma ex_submitted_reach: "kvs_reach log (ex_submitted q)"
proof -
  have 1: "kvs_reach log (ex_kvs\<lparr>rsm_rf := ex_rf\<rparr>)" by (rule rsm_reach.raft [OF ex_kvs_reach])
  have "doSubmit_start q (ex_kvs\<lparr>rsm_rf := ex_rf\<rparr>)
      = Some (Some (\<lparr>op_Me = 0, op_Id = 1, op_Req = q\<rparr>, 1, 1),
          ex_kvs\<lparr>rsm_rf := started \<lparr>op_Me = 0, op_Id = 1, op_Req = q\<rparr> ex_rf, rsm_opId := 1\<rparr>)"
    using Start_ok [OF ex_rf_wf]
    by (simp add: doSubmit_start_def isShutdown_def ex_kvs_def) (simp add: ex_rf_def boot_def lastIdx_def generateSingleLog_def Let_def)
  from rsm_reach.register [OF rsm_reach.start [OF 1 this], of "\<lparr>op_Me = 0, op_Id = 1, op_Req = q\<rparr>" 1]
  show ?thesis by (simp add: doSubmit_register_def isShutdown_def ex_submitted_def ex_kvs_def)
qed

lemma ex_applied_reach: "log \<noteq> [] \<Longrightarrow> kvs_reach log (ex_applied q (hd log))"
proof -
  assume l: "log \<noteq> []"
  have "applyCommand DoOp (\<lambda>_. 1) (ex_msg 1 (hd log)) (ex_submitted q) = Some (False, ex_applied q (hd log))"
    by (simp add: ex_applied_def applyCommand_def ex_msg_def command_msg_def ex_submitted_def ex_kvs_def split_beta Let_def)
  then show ?thesis
    using l by (intro rsm_reach.command [OF ex_submitted_reach])
      (auto simp: ex_msg_def command_msg_def ex_submitted_def ex_kvs_def hd_conv_nth Suc_le_eq)
qed

lemma ex_applied_simps:
  "rsm_lastApplied (ex_applied q op) = 1"
  "rsm_sm (ex_applied q op) = snd (DoOp (op_Req op) kvr_init)"
  "rsm_heap (ex_applied q op) = [\<lparr>po_op = \<lparr>op_Me = 0, op_Id = 1, op_Req = q\<rparr>,
     po_result = (if op_Id op = 1 then Some (fst (DoOp (op_Req op) kvr_init)) else None),
     po_done = Some (op_Id op = 1)\<rparr>]"
  "\<not> rsm_shutdown (ex_applied q op)"
  by (auto simp: ex_applied_def applyCommand_def ex_msg_def command_msg_def ex_submitted_def ex_kvs_def
      split_beta Let_def send_done_def)

definition ex_op :: "nat \<Rightarrow> any_req Op" where
  "ex_op i = \<lparr>op_Me = i, op_Id = 1, op_Req = ex_put ''x'' (if i = 0 then ''a'' else ''b'') 0 (int i) 1\<rparr>"


section \<open>A snapshot travels\<close>

lemma createSnapshot_saves:
  assumes ok: "node_ok (rsm_rf rsm)" and "\<not> dead (rsm_rf rsm)" "index \<le> rsm_lastApplied rsm"
    and k: "firstIdx (logs (rsm_rf rsm)) < rsm_lastApplied rsm" "rsm_lastApplied rsm \<le> lastIdx (logs (rsm_rf rsm))"
      "rsm_lastApplied rsm \<le> lastApplied (rsm_rf rsm)"
  shows "\<exists>rf. createSnapshot snap index rsm = Some (rsm\<lparr>rsm_rf := rf\<rparr>) \<and> node_ok rf
    \<and> firstIdx (logs rf) = rsm_lastApplied rsm \<and> ReadSnapshot (persister rf) = snapshot_of snap rsm
    \<and> currentTerm rf = currentTerm (rsm_rf rsm)"
proof -
  let ?k = "rsm_lastApplied rsm" and ?rf = "rsm_rf rsm"
  have wf: "raft_wf ?rf" by (rule node_ok_wf [OF ok])
  then have lo: "log_ok (logs ?rf)" "terms_ok (logs ?rf)" by (auto simp: raft_wf_def)
  let ?r = "persist (Some (snapshot_of snap rsm)) (?rf\<lparr>lastIncludedIndex := ?k,
      lastIncludedTerm := termAt (logs ?rf) ?k, logs := compacted ?k (logs ?rf)\<rparr>)"
  have S: "Snapshot ?k (Some (snapshot_of snap rsm)) ?rf = Some ?r" using assms by (simp add: Snapshot_ok [OF wf])
  then have "createSnapshot snap index rsm = Some (rsm\<lparr>rsm_rf := ?r\<rparr>)"
    using assms(3) by (simp add: createSnapshot_def Let_def snapshot_of_def)
  moreover have "ReadSnapshot (persister ?r) = snapshot_of snap rsm" by (simp add: persist_def Let_def)
  ultimately show ?thesis
    using Snapshot_node_ok [OF ok k(3) S] compacted_ok [OF lo _ k(2)] k(1) by auto
qed

text \<open>
  C30: a snapshot travels.  What \<open>createSnapshot\<close> hands to a peer is what the peer sends to a
  follower that needs it, what the follower's applier delivers next, and what the follower's
  reader restores: it neither panics on a mismatched index nor rolls back, and ends with the
  sender's applied index and store.
\<close>

theorem snapshot_transfer:
  assumes "node_ok (rsm_rf rsm)" "\<not> dead (rsm_rf rsm)" "index \<le> rsm_lastApplied rsm"
    "firstIdx (logs (rsm_rf rsm)) < rsm_lastApplied rsm" "rsm_lastApplied rsm \<le> lastIdx (logs (rsm_rf rsm))"
    "rsm_lastApplied rsm \<le> lastApplied (rsm_rf rsm)"
    and f: "node_ok rf2" "\<not> dead rf2" "currentTerm rf2 \<le> currentTerm (rsm_rf rsm)"
      "lastApplied rf2 < rsm_lastApplied rsm"
    and r: "rsm_lastApplied rsm2 < rsm_lastApplied rsm" "\<not> rsm_shutdown rsm2"
  shows "\<exists>rsm' args reply rf2' rf3 msg rsm2'. createSnapshot kvr_Snapshot index rsm = Some rsm'
    \<and> makeInstallSnapShotArgs (rsm_rf rsm') = Some args
    \<and> InstallSnapShot args rf2 = Some (reply, rf2')
    \<and> applier rf2' = Some (ApplierContinues rf3) \<and> applyCh rf3 = applyCh rf2 @ [msg]
    \<and> reader_msg DoOp kvr_Snapshot kvr_Restore sz msg rsm2 = Some (Some rsm2')
    \<and> rsm_lastApplied rsm2' = rsm_lastApplied rsm \<and> kvr_cache (rsm_sm rsm2') = kvr_cache (rsm_sm rsm)"
proof -
  let ?k = "rsm_lastApplied rsm" and ?d = "snapshot_of kvr_Snapshot rsm"
  obtain rf where rf: "createSnapshot kvr_Snapshot index rsm = Some (rsm\<lparr>rsm_rf := rf\<rparr>)" "node_ok rf"
      "firstIdx (logs rf) = ?k" "ReadSnapshot (persister rf) = ?d" "currentTerm rf = currentTerm (rsm_rf rsm)"
    using createSnapshot_saves [OF assms(1-6), of kvr_Snapshot] by blast
  then have lo: "log_ok (logs rf)" using node_ok_log by blast
  obtain args where a: "makeInstallSnapShotArgs rf = Some args" "is_LastIncludedIndex args = ?k" "is_Data args = ?d"
      "is_Term args = currentTerm rf" "snap_wf args"
    using rf(2-4) raft_wf_log [OF node_ok_wf [OF rf(2)]]
    by (auto simp: makeInstallSnapShotArgs_def getFirstLog_ok firstIdx_def snap_wf_def node_ok_def raft_wf_def)
  have lo2: "log_ok (logs rf2)" "firstIdx (logs rf2) \<le> lastApplied rf2"
    using f(1) by (auto simp: node_ok_def raft_wf_def)
  have I: "InstallSnapShot args rf2 = Some (\<lparr>isr_Term = currentTerm rf2\<rparr>, installed args rf2)"
    using a(2,4) f(3,4) rf(5) by (simp add: InstallSnapShot_ok [OF lo2])
  have n: "node_ok (installed args rf2)" using installed_node_ok [OF f(1) a(5)] a(2) f(4) by simp
  let ?msg = "the (pendingSnapshot (installed args rf2))"
  let ?r3 = "(installed args rf2)\<lparr>pendingSnapshot := None, applyCh := applyCh (installed args rf2) @ [?msg]\<rparr>"
  have A: "applier (installed args rf2) = Some (ApplierContinues ?r3)"
    using n f(2) by (subst applier_ok) (auto simp: node_ok_def raft_wf_def installed_def Let_def)
  have m: "\<not> am_CommandValid ?msg" "am_SnapshotValid ?msg" "am_Snapshot ?msg = ?d" "am_SnapshotIndex ?msg = ?k"
    using a(2,3) by (simp_all add: installed_def Let_def)
  have "\<exists>rsm2'. reader_msg DoOp kvr_Snapshot kvr_Restore sz ?msg rsm2 = Some (Some rsm2')
      \<and> rsm_lastApplied rsm2' = ?k \<and> kvr_cache (rsm_sm rsm2') = kvr_cache (rsm_sm rsm)"
    using r m by (simp add: reader_msg_def applySnapshot_def snapshot_of_def Restore_Snapshot Let_def)
  then show ?thesis using rf(1) a(1) I A by (fastforce simp: installed_def Let_def)
qed

definition ex_sender_rf :: "(any_req Op, kvr_gob rsm_gob) Raft" where
  "ex_sender_rf = (boot 3 0 MakePersister)\<lparr>logs := [\<lparr>le_Command = None, le_Term = 0, le_Index = 0\<rparr>,
       \<lparr>le_Command = Some (ex_op 0), le_Term = 1, le_Index = 1\<rparr>], currentTerm := 1, commitIndex := 1,
     lastApplied := 1\<rparr>"

definition ex_sender :: KVRsm where
  "ex_sender = (ex_applied (op_Req (ex_op 0)) (ex_op 0))\<lparr>rsm_rf := persistState ex_sender_rf\<rparr>"

lemma ex_sender_ok: "node_ok (rsm_rf ex_sender)"
proof -
  have "raft_wf ex_sender_rf" "firstIdx (logs ex_sender_rf) \<le> lastApplied ex_sender_rf"
    by (simp_all add: ex_sender_rf_def raft_wf_def log_ok_def terms_ok_def arrays_ok_def boot_def firstIdx_def
        less_Suc_eq nth_Cons')
  then show ?thesis by (simp add: ex_sender_def node_ok_persistState)
qed

theorem snapshot_transfer_witness:
  "\<exists>rsm' args reply rf2' rf3 msg rsm2'. createSnapshot kvr_Snapshot 1 ex_sender = Some rsm'
    \<and> makeInstallSnapShotArgs (rsm_rf rsm') = Some args
    \<and> InstallSnapShot args (boot 3 1 MakePersister) = Some (reply, rf2')
    \<and> applier rf2' = Some (ApplierContinues rf3) \<and> applyCh rf3 = [msg]
    \<and> reader_msg DoOp kvr_Snapshot kvr_Restore (\<lambda>_. 1) msg ex_kvs = Some (Some rsm2')
    \<and> rsm_lastApplied rsm2' = 1 \<and> map_option kv_value (kvr_cache (rsm_sm rsm2') ''x'') = Some ''a''"
proof -
  have v: "map_option kv_value (kvr_cache (rsm_sm ex_sender) ''x'') = Some ''a''" "rsm_lastApplied ex_sender = 1"
    by (simp_all add: ex_sender_def ex_applied_simps ex_op_def ex_put_def DoOp_def cached_reply_def exec_cmd_def kvr_init_def)
  have "\<not> dead (rsm_rf ex_sender)" "firstIdx (logs (rsm_rf ex_sender)) < 1" "1 \<le> lastIdx (logs (rsm_rf ex_sender))"
      "lastApplied (rsm_rf ex_sender) = 1" "currentTerm (rsm_rf ex_sender) = 1"
    by (simp_all add: ex_sender_def ex_sender_rf_def boot_def firstIdx_def lastIdx_def)
  moreover have "lastApplied rf2 = 0" "currentTerm rf2 = 0" "\<not> dead rf2" "applyCh rf2 = []"
    if "rf2 = boot 3 1 MakePersister" for rf2 :: "(any_req Op, kvr_gob rsm_gob) Raft"
    using that by (simp_all add: boot_def)
  moreover have "rsm_lastApplied ex_kvs = 0" "\<not> rsm_shutdown ex_kvs" by (simp_all add: ex_kvs_def)
  ultimately show ?thesis
    using snapshot_transfer [OF ex_sender_ok _ _ _ _ _ boot_node_ok [of 1 3], of 1 ex_kvs "\<lambda>_. 1"] v
    by (simp del: map_option_eq_Some) metis
qed

end
