(* ===== verification/RaftFeed.thy ===== *)
theory RaftFeed
  imports RaftSafety
begin

text \<open>
  What a peer feeds to the service on top of it: the messages on its apply channel follow on one
  another without gap, every snapshot in the system is one that a service handed to \<open>Snapshot\<close>,
  and every delivered command is one that was given to \<open>Start\<close>.
\<close>

section \<open>The stream of messages\<close>

text \<open>The index reached by reading messages from index \<open>p\<close> on; \<open>None\<close> when one does not follow.\<close>

fun stream :: "int \<Rightarrow> ('c, 'b) ApplyMsg list \<Rightarrow> int option" where
  "stream p [] = Some p"
| "stream p (m # ms) =
     (if am_CommandValid m then if am_CommandIndex m = p + 1 then stream (p + 1) ms else None
      else if am_SnapshotValid m \<and> p < am_SnapshotIndex m then stream (am_SnapshotIndex m) ms else None)"

lemma stream_append: "stream p (ms @ ms') = Option.bind (stream p ms) (\<lambda>q. stream q ms')"
  by (induction p ms rule: stream.induct) simp_all

lemma stream_le: "stream p ms = Some q \<Longrightarrow> p \<le> q"
  by (induction p ms rule: stream.induct) (auto split: if_splits)

text \<open>What the reader of the channel has yet to see after \<open>k\<close> messages.\<close>

definition unread :: "nat \<Rightarrow> ('c, 'b) Raft \<Rightarrow> ('c, 'b) ApplyMsg list" where
  "unread k rf = drop k (applyCh rf) @ (case pendingSnapshot rf of None \<Rightarrow> [] | Some m \<Rightarrow> [m])"

definition cmds_ok :: "'c LogEntry list \<Rightarrow> bool" where
  "cmds_ok ls \<longleftrightarrow> (\<forall>e \<in> set (tl ls). le_Command e \<noteq> None)"

text \<open>
  \<open>J k d\<close> says that \<open>d\<close> is the snapshot of a service at index \<open>k\<close>.  A peer that has never been
  given one has the empty snapshot and starts at index 0.
\<close>

definition snap_is :: "(int \<Rightarrow> 'b list \<Rightarrow> bool) \<Rightarrow> int \<Rightarrow> 'b list \<Rightarrow> bool" where
  "snap_is J k d \<longleftrightarrow> k = 0 \<and> d = [] \<or> 0 < k \<and> d \<noteq> [] \<and> J k d"

definition msg_ok :: "(int \<Rightarrow> 'b list \<Rightarrow> bool) \<Rightarrow> ('c, 'b) ApplyMsg \<Rightarrow> bool" where
  "msg_ok J m \<longleftrightarrow> (if am_CommandValid m then am_Command m \<noteq> None else J (am_SnapshotIndex m) (am_Snapshot m))"

definition feeds :: "(int \<Rightarrow> 'b list \<Rightarrow> bool) \<Rightarrow> int \<Rightarrow> nat \<Rightarrow> ('c, 'b) Raft \<Rightarrow> bool" where
  "feeds J p k rf \<longleftrightarrow> 0 \<le> p \<and> k \<le> length (applyCh rf) \<and> stream p (unread k rf) = Some (lastApplied rf)
     \<and> (\<forall>m \<in> set (unread k rf). msg_ok J m)
     \<and> snap_is J (firstIdx (logs rf)) (ReadSnapshot (persister rf)) \<and> cmds_ok (logs rf)
     \<and> (\<forall>m \<in> set (applyCh rf). am_CommandValid m \<longrightarrow> am_Command m \<noteq> None)"

fun carries :: "(int \<Rightarrow> 'b list \<Rightarrow> bool) \<Rightarrow> ('c, 'b) packet \<Rightarrow> bool" where
  "carries J (SnapReq i p b) = snap_is J (is_LastIncludedIndex b) (is_Data b)"
| "carries J (AppReq i p a) = (\<forall>e \<in> set (ae_Entries a). le_Command e \<noteq> None)"
| "carries J _ = True"

lemma feedsD:
  assumes "feeds J p k rf"
  shows "0 \<le> p" and "k \<le> length (applyCh rf)" and "stream p (unread k rf) = Some (lastApplied rf)"
    and "m \<in> set (unread k rf) \<Longrightarrow> msg_ok J m"
    and "snap_is J (firstIdx (logs rf)) (ReadSnapshot (persister rf))" and "cmds_ok (logs rf)"
    and "m \<in> set (applyCh rf) \<Longrightarrow> am_CommandValid m \<Longrightarrow> am_Command m \<noteq> None"
  using assms by (simp_all add: feeds_def)

lemma feeds_le: "feeds J p k rf \<Longrightarrow> p \<le> lastApplied rf"
  by (rule stream_le [OF feedsD(3)])

lemma feeds_mono: "feeds J p k rf \<Longrightarrow> (\<And>k d. J k d \<Longrightarrow> J' k d) \<Longrightarrow> feeds J' p k rf"
  unfolding feeds_def snap_is_def msg_ok_def by (metis (mono_tags, lifting))

lemma carries_mono: "carries J m \<Longrightarrow> (\<And>k d. J k d \<Longrightarrow> J' k d) \<Longrightarrow> carries J' m"
  by (cases m) (auto simp: snap_is_def)

section \<open>Steps that feed nothing\<close>

definition still :: "('c, 'b) Raft \<Rightarrow> ('c, 'b) Raft \<Rightarrow> bool" where
  "still rf rf' \<longleftrightarrow> applyCh rf' = applyCh rf \<and> pendingSnapshot rf' = pendingSnapshot rf
     \<and> lastApplied rf' = lastApplied rf \<and> ReadSnapshot (persister rf') = ReadSnapshot (persister rf)
     \<and> firstIdx (logs rf') = firstIdx (logs rf) \<and> (cmds_ok (logs rf) \<longrightarrow> cmds_ok (logs rf'))"

lemma still_feeds: "feeds J p k rf \<Longrightarrow> still rf rf' \<Longrightarrow> feeds J p k rf'"
  by (simp add: feeds_def still_def unread_def)

lemma still_refl [simp]: "still rf rf"
  by (simp add: still_def)

lemma still_trans: "still rf rf' \<Longrightarrow> still rf' rf'' \<Longrightarrow> still rf rf''"
  by (simp add: still_def)

lemma ReadSnapshot_persistState [simp]: "ReadSnapshot (persister (persistState rf)) = ReadSnapshot (persister rf)"
  by (simp add: persistState_def persist_def)

lemma still_stepDown [simp]: "still rf (stepDown t rf)"
  by (simp add: still_def stepDown_def)

lemma still_simps [simp]:
  "still rf (asFollower t rf)" "still rf (adopt t rf)" "still rf (counted t rf)" "still rf (Kill rf)"
  "still rf (ticker_heartbeat rf)" "still rf (voted a rf)" "still rf (raised rf)" "still rf (campaign rf)"
  "still rf (elected t rf)"
  using still_stepDown [of rf]
  by (auto simp: still_def counted_def Kill_def ticker_heartbeat_def Let_def voted_def raised_def campaign_def
      elected_def asFollower_def)

lemma still_match: "still rf (rf\<lparr>matchIndex := x, nextIndex := y\<rparr>)"
  by (simp add: still_def)

lemma cmds_snoc: "cmds_ok (ls @ [e]) \<longleftrightarrow> ls = [] \<or> cmds_ok ls \<and> le_Command e \<noteq> None"
  by (cases ls) (auto simp: cmds_ok_def)

lemma still_started:
  assumes "raft_wf rf"
  shows "still rf (started c rf)"
proof -
  have "logs rf \<noteq> []" using raft_wf_log [OF assms] by (simp add: log_ok_def)
  then show ?thesis by (simp add: still_def started_def Let_def cmds_snoc firstIdx_def)
qed

lemma Start_still:
  assumes "raft_wf rf" and "Start c rf = Some (r, rf')"
  shows "still rf rf'"
  using assms(2) still_started [OF assms(1)] by (auto simp: Start_ok [OF assms(1)] split: if_splits)

lemma cmds_merge:
  assumes "log_ok ls" and "matches a ls" and "cmds_ok ls" and "\<forall>e \<in> set (ae_Entries a). le_Command e \<noteq> None"
  shows "cmds_ok (merge_log (ae_PrevLogIndex a) (ae_Entries a) ls)"
proof -
  obtain k where k: "0 < k"
    "merge_log (ae_PrevLogIndex a) (ae_Entries a) ls = take k ls @ merge_tail (drop k ls) (ae_Entries a)"
    using merge_log_split [of ls] assms(1,2) by (metis matches_def)
  obtain x xs where ls: "ls = x # xs" using assms(1) by (cases ls) (auto simp: log_ok_def)
  have "set (tl (take k ls)) \<subseteq> set xs" "set (drop k ls) \<subseteq> set xs" "take k ls \<noteq> []"
    using k(1) ls set_take_subset [of "k - 1" xs] set_drop_subset [of "k - 1" xs] by (cases k; simp)+
  then have "set (tl (take k ls @ merge_tail (drop k ls) (ae_Entries a))) \<subseteq> set xs \<union> set (ae_Entries a)"
    using set_merge_tail [of "drop k ls" "ae_Entries a"] by auto
  then show ?thesis using assms(3,4) ls unfolding cmds_ok_def k(2) by auto
qed

lemma still_accepted:
  assumes "log_ok (logs rf)" and "matches a (logs rf)" and "\<forall>e \<in> set (ae_Entries a). le_Command e \<noteq> None"
  shows "still rf (accepted a rf)"
  using still_simps(1) [of rf "ae_Term a"] cmds_merge [OF assms(1,2) _ assms(3)] firstIdx_merge_log(2) [OF assms(1,2)]
  by (simp add: still_def appended_def)

lemma AppendEntry_still:
  assumes "node_ok rf" and "ae_wf a" and "\<forall>e \<in> set (ae_Entries a). le_Command e \<noteq> None"
    and "AppendEntry a rf = Some (r, rf')"
  shows "still rf rf'"
  using AppendEntry_node_ok [OF assms(1,2)] assms(4) still_accepted [OF node_ok_log [OF assms(1)] _ assms(3)] by auto

lemma RequestVote_still:
  "log_ok (logs rf) \<Longrightarrow> RequestVote a rf = Some (r, rf') \<Longrightarrow> still rf rf'"
  by (auto simp: RequestVote_ok split: if_splits)

lemma ticker_election_still:
  "log_ok (logs rf) \<Longrightarrow> ticker_election rf = Some (cs, rf') \<Longrightarrow> still rf rf'"
  by (auto simp: ticker_election_ok split: if_splits)

lemma handleVoteReply_still:
  "log_ok (logs rf) \<Longrightarrow> arrays_ok rf \<Longrightarrow> handleVoteReply a r rf = Some rf' \<Longrightarrow> still rf rf'"
  by (auto simp: handleVoteReply_ok split: if_splits)

lemma acceptCommit_still: "still rf (acceptCommit rf)"
  by (simp add: still_def acceptCommit_def Let_def)

lemma handleAppendEntryReply_still:
  assumes "node_ok rf" and "p < npeers rf"
    and "isValidLeader (ae_Term a) rf \<longrightarrow> ae_PrevLogIndex a \<le> lastIdx (logs rf)"
    and "handleAppendEntryReply p a r rf = Some rf'"
  shows "still rf rf'"
proof -
  have "isValidLeader (ae_Term a) rf \<Longrightarrow> ae_PrevLogIndex a \<le> lastIdx (logs rf)" using assms(3) by blast
  from handleAppendEntryReply_node_ok [OF assms(1,2) this, of r]
  have "logs rf' = logs rf" "rf' = stepDown (aer_Term r) rf \<or> persister rf' = persister rf"
    using assms(4) by auto
  moreover from assms have "still rf rf' \<or> keeps rf rf'"
    by (rule handleReply_cases) (use still_trans [OF still_match acceptCommit_still] in blast)+
  ultimately show ?thesis using still_stepDown by (elim disjE) (auto simp: still_def keeps_def)
qed

lemma handleInstallSnapShotReply_still:
  assumes "node_ok rf" and "p < npeers rf" and "handleInstallSnapShotReply p b q rf = Some rf'"
  shows "still rf rf'"
proof -
  have ar: "arrays_ok rf" using assms(1) by (simp add: node_ok_def raft_wf_def)
  show ?thesis
    using assms(3) by (auto simp: handleInstallSnapShotReply_def updateTermAndStepDown_ok
        updateLogIndices_ok [OF ar assms(2)] still_match split: if_splits)
qed

section \<open>Steps that feed\<close>

lemma applier_feeds:
  assumes f: "feeds J p k rf" and ok: "node_ok rf" and c: "commitIndex rf \<le> lastIdx (logs rf)"
    and h: "applier rf = Some (ApplierContinues rf')"
  shows "feeds J p k rf'"
proof (cases "pendingSnapshot rf")
  case (Some m)
  have "rf' = rf\<lparr>pendingSnapshot := None, applyCh := applyCh rf @ [m]\<rparr>"
    using h Some ok by (simp add: applier_ok node_ok_def raft_wf_def split: if_splits)
  moreover have "unread k rf' = unread k rf" using calculation Some feedsD(2) [OF f] by (simp add: unread_def)
  moreover have "msg_ok J m" by (rule feedsD(4) [OF f]) (simp add: unread_def Some)
  ultimately show ?thesis using f by (auto simp: feeds_def msg_ok_def split: if_splits)
next
  case None
  let ?i = "lastApplied rf + 1"
  have la: "firstIdx (logs rf) \<le> lastApplied rf" and lo: "log_ok (logs rf)"
    using ok by (auto simp: node_ok_def raft_wf_def)
  have r: "rf' = rf\<lparr>lastApplied := ?i, applyCh := applyCh rf @ [command_msg (entryAt (logs rf) ?i)]\<rparr>" "?i \<le> lastIdx (logs rf)"
    using h None c by (auto simp: applier_ok [OF lo la] split: if_splits)
  have i: "nat (?i - firstIdx (logs rf)) < length (logs rf)" "0 < nat (?i - firstIdx (logs rf))"
    using r(2) la log_ok_bound [OF lo, of ?i] by auto
  then have "entryAt (logs rf) ?i \<in> set (tl (logs rf))"
    by (auto simp: entryAt_def set_conv_nth nth_tl intro!: exI [of _ "nat (?i - firstIdx (logs rf)) - 1"])
  then have e: "le_Command (entryAt (logs rf) ?i) \<noteq> None" using feedsD(6) [OF f] by (auto simp: cmds_ok_def)
  have "le_Index (entryAt (logs rf) ?i) = ?i" using lo i la by (simp add: entryAt_def log_ok_def) (simp add: firstIdx_def)
  moreover have "unread k rf' = unread k rf @ [command_msg (entryAt (logs rf) ?i)]"
    using r(1) None feedsD(2) [OF f] by (simp add: unread_def)
  ultimately show ?thesis
    using f e r(1) by (auto simp: feeds_def stream_append command_msg_def msg_ok_def)
qed

lemma cmds_single: "cmds_ok (generateSingleLog i t @ es) \<longleftrightarrow> (\<forall>e \<in> set es. le_Command e \<noteq> None)"
  by (simp add: cmds_ok_def generateSingleLog_def)

lemma cmds_drop: "cmds_ok ls \<Longrightarrow> 0 < k \<Longrightarrow> e \<in> set (drop k ls) \<Longrightarrow> le_Command e \<noteq> None"
  using set_drop_subset [of "k - 1" "tl ls"] by (cases ls; cases k) (auto simp: cmds_ok_def)

lemma installed_feeds:
  assumes f: "feeds J p k rf" and s: "snap_is J (is_LastIncludedIndex b) (is_Data b)"
    and la: "lastApplied rf < is_LastIncludedIndex b" "firstIdx (logs rf) \<le> lastApplied rf"
  shows "feeds J p k (installed b rf)"
proof -
  let ?k = "is_LastIncludedIndex b"
  let ?m = "\<lparr>am_CommandValid = False, am_Command = None, am_CommandIndex = 0, am_SnapshotValid = True,
     am_Snapshot = is_Data b, am_SnapshotTerm = is_LastIncludedTerm b, am_SnapshotIndex = ?k\<rparr>"
  have d: "is_Data b \<noteq> []" "J ?k (is_Data b)" using s feedsD(1) [OF f] feeds_le [OF f] la(1) by (auto simp: snap_is_def)
  obtain q where q: "stream p (drop k (applyCh rf)) = Some q"
      "stream q (case pendingSnapshot rf of None \<Rightarrow> [] | Some m \<Rightarrow> [m]) = Some (lastApplied rf)"
    using feedsD(3) [OF f] by (auto simp: unread_def stream_append bind_eq_Some_conv simp del: stream.simps)
  note q = q(1) stream_le [OF q(2)]
  have u: "unread k (installed b rf) = drop k (applyCh rf) @ [?m]"
    by (simp add: unread_def installed_def Let_def)
  have "stream p (unread k (installed b rf)) = Some ?k" using q la(1) by (simp add: u stream_append)
  moreover have "msg_ok J m" if "m \<in> set (unread k (installed b rf))" for m
    using that d(2) feedsD(4) [OF f, unfolded unread_def, of m] unfolding u by (auto simp: msg_ok_def)
  moreover have "cmds_ok (newLog b (logs rf))"
    using cmds_drop [OF feedsD(6) [OF f], of "nat (?k - firstIdx (logs rf) + 1)"] la
    by (auto simp: newLog_def Let_def cmds_single)
  ultimately show ?thesis
    using f s d(1)
    by (auto simp: feeds_def installed_def Let_def persist_def gob_slice_def newLog_def generateSingleLog_def firstIdx_def)
qed

lemma InstallSnapShot_feeds:
  assumes f: "feeds J p k rf" and ok: "node_ok rf" and s: "snap_is J (is_LastIncludedIndex b) (is_Data b)"
    and h: "InstallSnapShot b rf = Some (q, rf')"
  shows "feeds J p k rf'"
proof -
  have la: "firstIdx (logs rf) \<le> lastApplied rf" "log_ok (logs rf)" using ok by (auto simp: node_ok_def raft_wf_def)
  show ?thesis
    using h installed_feeds [OF f s _ la(1)] f still_feeds [OF f still_simps(2)]
    by (auto simp: InstallSnapShot_ok [OF la(2,1)] not_le split: if_splits)
qed

lemma Snapshot_feeds:
  assumes f: "feeds J p k rf" and ok: "raft_wf rf" and d: "d \<noteq> []" "J i d"
    and h: "Snapshot i (Some d) rf = Some rf'"
  shows "feeds J p k rf'"
proof (cases "dead rf \<or> i \<le> firstIdx (logs rf) \<or> i > lastIdx (logs rf)")
  case True
  then show ?thesis using h f by (simp add: Snapshot_ok [OF ok])
next
  case False
  have fi: "0 \<le> firstIdx (logs rf)" using feedsD(5) [OF f] by (auto simp: snap_is_def)
  have "cmds_ok (compacted i (logs rf))"
    using cmds_drop [OF feedsD(6) [OF f], of "nat (i - firstIdx (logs rf) + 1)"] False
    by (auto simp: compacted_def cmds_single)
  then show ?thesis
    using h f False fi d
    by (auto simp: Snapshot_ok [OF ok] feeds_def unread_def persist_def compacted_def snap_is_def generateSingleLog_def firstIdx_def)
qed

lemma revived_feeds:
  assumes f: "feeds J p k rf" and ok: "node_ok rf1" and st: "still rf rf1" and d: "d = persister rf1"
  shows "feeds J (firstIdx (logs rf1)) 0 (revived n i d)" and "snap_is J (firstIdx (logs rf1)) (ReadSnapshot d)"
proof -
  have f1: "feeds J p k rf1" by (rule still_feeds [OF f st])
  have l: "logs (revived n i d) = logs rf1" "lastApplied (revived n i d) = firstIdx (logs rf1)"
    "applyCh (revived n i d) = []" "pendingSnapshot (revived n i d) = None" "persister (revived n i d) = d"
    using ok unfolding d by (auto simp: revived_def node_ok_def boot_def split: prod.splits)
  show "snap_is J (firstIdx (logs rf1)) (ReadSnapshot d)" using feedsD(5) [OF f1] by (simp add: d)
  then show "feeds J (firstIdx (logs rf1)) 0 (revived n i d)"
    using feedsD(6) [OF f1] by (auto simp: feeds_def l unread_def snap_is_def)
qed

lemma send_carries:
  assumes f: "feeds J x k rf" and wf: "raft_wf rf" and p: "p < npeers rf"
    and h: "doSendAppendEntry p rf = Some (Some q)"
  shows "carries J (packet_of i p q)"
  using wf p h
proof (cases rule: doSend_cases)
  case (snapshot b)
  have "makeInstallSnapShotArgs rf = Some b"
    using h snapshot(2) by (auto simp: doSendAppendEntry_def Let_def bind_eq_Some_conv split: if_splits)
  then have "is_Data b = ReadSnapshot (persister rf)" by (auto simp: makeInstallSnapShotArgs_def bind_eq_Some_conv)
  then show ?thesis using snapshot feedsD(5) [OF f] by (simp add: packet_of_def)
next
  case (entries a prev)
  let ?p = "min prev (lastIdx (logs rf))"
  have lo: "log_ok (logs rf)" using wf by (simp add: raft_wf_def)
  have "ae_Entries a = drop (nat (?p + 1 - firstIdx (logs rf))) (logs rf)"
    using entries(4) by (auto simp: genAppendEntryArgs_ok [OF lo entries(3)] Let_def)
  then show ?thesis
    using cmds_drop [OF feedsD(6) [OF f], of "nat (?p + 1 - firstIdx (logs rf))"] entries log_ok_first_le_last [OF lo]
    by (simp add: packet_of_def)
qed

lemma commit_last:
  assumes inv: "cinv n H C s" and si: "sinv n H C G s" and i: "i < n"
  shows "commitIndex (nodes s i) \<le> lastIdx (logs (nodes s i))"
proof -
  have "nat (commitIndex (nodes s i)) < length (gfull G i)"
    using commit_invD(2) [OF sinvD(2) [OF si i]] by (simp add: committed_def)
  then show ?thesis using log_inv_last(1) [OF sinvD(1) [OF si i]] by linarith
qed

text \<open>Every step of the peers keeps what they feed.\<close>

theorem pstep_feeds:
  assumes st: "pstep n s s'" and inv: "cinv n H C s" and si: "sinv n H C G s"
    and F: "\<And>i. i < n \<Longrightarrow> feeds J (P i) (K i) (nodes s i)" and M: "\<And>m. m \<in># net s \<Longrightarrow> carries J m"
  shows "(\<forall>i < n. feeds J (P i) (K i) (nodes s' i)) \<and> (\<forall>m \<in># net s'. carries J m)"
proof -
  note pk = cinvD(4) [OF inv] and d = peer_okD [OF cinvD(1) [OF inv]]
  have one: ?thesis if "s' = put p rf (N + N') s" "p < n" "feeds J (P p) (K p) rf" "\<And>m. m \<in># N \<Longrightarrow> m \<in># net s"
    "\<And>m. m \<in># N' \<Longrightarrow> carries J m" for p rf N N'
    using that F M by auto
  have quiet: ?thesis if "s' = put p rf (N + N') s" "p < n" "still (nodes s p) rf" "\<And>m. m \<in># N \<Longrightarrow> m \<in># net s"
    "\<And>m. m \<in># N' \<Longrightarrow> carries J m" for p rf N N'
    by (rule one [OF that(1,2) still_feeds [OF F [OF that(2)] that(3)] that(4,5)])
  have D: "m \<in># net s" if "m \<in># net s - x" for m x using that by (rule in_diffD)
  from st show ?thesis
  proof cases
    case (timeout i calls rf)
    show ?thesis by (rule quiet [OF timeout(1,2) ticker_election_still [OF d(5) timeout(3)]]) (use timeout in auto)
  next
    case (heartbeat i)
    show ?thesis by (rule quiet [of i "ticker_heartbeat (nodes s i)" "net s" "{#}"]) (use heartbeat in simp_all)
  next
    case (request_vote i p a r rf)
    then have p: "p < n" using pk by fastforce
    show ?thesis by (rule quiet [OF request_vote(1) p RequestVote_still [OF d(5) request_vote(3)]]) (use p D in auto)
  next
    case (vote_reply i p a r rf)
    then have p: "i < n" using pk by fastforce
    show ?thesis
      by (rule quiet [of i rf "net s - {#VoteRep i p a r#}" "{#}", OF _ p handleVoteReply_still [OF d(5,6) vote_reply(3)]])
         (use p D vote_reply(1) in auto)
  next
    case (send i p q)
    show ?thesis
      by (rule quiet [OF send(1,2)]) (use send_carries [OF F d(4) _ send(5)] d(3) send(2,3) in auto)
  next
    case (append_entry i p a r rf)
    then have p: "p < n" "ae_wf a" using pk by fastforce+
    have "\<forall>e \<in> set (ae_Entries a). le_Command e \<noteq> None" using M [OF append_entry(2)] by simp
    then show ?thesis
      by (intro quiet [OF append_entry(1) p(1) AppendEntry_still [OF d(1) p(2) _ append_entry(3)]]) (use p D in auto)
  next
    case (append_reply i p a r rf)
    then have p: "i < n" "p < n" "lead_ok (nodes s i) a" using pk by fastforce+
    have "isValidLeader (ae_Term a) (nodes s i) \<longrightarrow> ae_PrevLogIndex a \<le> lastIdx (logs (nodes s i))"
      using p(3) by (auto simp: lead_ok_def isValidLeader_def)
    then have "still (nodes s i) rf"
      using handleAppendEntryReply_still [OF d(1) _ _ append_reply(3)] d(3) p by simp
    then show ?thesis
      by (intro quiet [of i rf "net s - {#AppRep i p a r#}" "{#}", OF _ p(1)]) (use D append_reply(1) in auto)
  next
    case (install_snapshot i p b q rf)
    then have p: "p < n" using pk by fastforce
    have "snap_is J (is_LastIncludedIndex b) (is_Data b)" using M [OF install_snapshot(2)] by simp
    then show ?thesis
      by (intro one [OF install_snapshot(1) p InstallSnapShot_feeds [OF F d(1) _ install_snapshot(3)]]) (use p D in auto)
  next
    case (snapshot_reply i p b q rf)
    then have p: "i < n" "p < n" using pk by fastforce+
    have "still (nodes s i) rf"
      using handleInstallSnapShotReply_still [OF d(1) _ snapshot_reply(3)] d(3) p by simp
    then show ?thesis
      by (intro quiet [of i rf "net s - {#SnapRep i p b q#}" "{#}", OF _ p(1)]) (use D snapshot_reply(1) in auto)
  next
    case (apply_step i rf)
    show ?thesis
      by (rule one [of i rf "net s" "{#}"])
         (use apply_step applier_feeds [OF F d(1) commit_last [OF inv si] apply_step(3)] in simp_all)
  next
    case (lose m)
    then show ?thesis using F M D by auto
  qed
qed

lemma at_crash_node:
  assumes "cinv n H C s" and "at_crash n s i d"
  shows "i < n" and "\<exists>rf1. node_ok rf1 \<and> still (nodes s i) rf1 \<and> d = persister rf1"
proof -
  note pk = cinvD(4) [OF assms(1)] and ok = peer_okD(1) [OF cinvD(1) [OF assms(1)]]
  show i: "i < n" using assms(2) pk by cases fastforce+
  show "\<exists>rf1. node_ok rf1 \<and> still (nodes s i) rf1 \<and> d = persister rf1"
    using assms(2) ok [OF i] raised_node_ok [OF ok [OF i]] stepDown_node_ok [OF ok [OF i]]
      still_refl still_simps(7) still_stepDown by cases blast+
qed

end
