(* ===== verification/Service.thy ===== *)
theory Service
  imports RaftFeed
begin

text \<open>
  A service on top of a cluster: every server is a Raft peer and an application that reads the
  peer's apply channel, gives commands to \<open>Start\<close> and snapshots to \<open>Snapshot\<close>, and is rebuilt from
  the peer's disk after a crash.  The locale \<open>consumer\<close> is what an application has to promise; it
  then only ever sees one log, in order, and never fails.
\<close>

section \<open>Servers and their steps\<close>

text \<open>
  \<open>sv_read i\<close> counts the messages that application \<open>i\<close> has received since its last start, and
  \<open>sv_due i\<close> is a snapshot it is about to hand to its peer.
\<close>

record ('c, 'b, 'a) Service =
  sv_cluster :: "('c, 'b) Cluster"
  sv_app :: "nat \<Rightarrow> 'a"
  sv_read :: "nat \<Rightarrow> nat"
  sv_due :: "nat \<Rightarrow> (int \<times> 'b list) option"

abbreviation sv_peer :: "('c, 'b, 'a) Service \<Rightarrow> nat \<Rightarrow> ('c, 'b) Raft" where
  "sv_peer S i \<equiv> nodes (sv_cluster S) i"

definition sv_put :: "nat \<Rightarrow> ('c, 'b) Raft \<Rightarrow> 'a \<Rightarrow> nat \<Rightarrow> (int \<times> 'b list) option \<Rightarrow> ('c, 'b, 'a) Service
    \<Rightarrow> ('c, 'b, 'a) Service" where
  "sv_put i rf a k r S = \<lparr>sv_cluster = put i rf (net (sv_cluster S)) (sv_cluster S), sv_app = (sv_app S)(i := a),
     sv_read = (sv_read S)(i := k), sv_due = (sv_due S)(i := r)\<rparr>"

lemma sv_put_simps [simp]:
  "sv_cluster (sv_put i rf a k r S) = put i rf (net (sv_cluster S)) (sv_cluster S)"
  "sv_app (sv_put i rf a k r S) = (sv_app S)(i := a)" "sv_read (sv_put i rf a k r S) = (sv_read S)(i := k)"
  "sv_due (sv_put i rf a k r S) = (sv_due S)(i := r)"
  by (simp_all add: sv_put_def)

text \<open>
  \<open>start i d\<close> starts server \<open>i\<close> from disk \<open>d\<close>.  \<open>recv i m rf A\<close> is what application \<open>i\<close> among all
  applications \<open>A\<close> does with message \<open>m\<close>: \<open>None\<close> is a panic, \<open>Some None\<close> the end of its loop.  \<open>acts\<close>
  is what the application and its clients do otherwise.
\<close>

inductive sstep ::
  "nat \<Rightarrow> (nat \<Rightarrow> ('c, 'b) disk \<Rightarrow> (('c, 'b) Raft \<times> 'a) option)
    \<Rightarrow> (nat \<Rightarrow> ('c, 'b) ApplyMsg \<Rightarrow> ('c, 'b) Raft \<Rightarrow> (nat \<Rightarrow> 'a) \<Rightarrow> ('a \<times> (int \<times> 'b list) option) option option)
    \<Rightarrow> (('c, 'b) Raft \<Rightarrow> 'a \<Rightarrow> ('c, 'b) Raft \<Rightarrow> 'a \<Rightarrow> bool)
    \<Rightarrow> ('c, 'b, 'a) Service \<Rightarrow> ('c, 'b, 'a) Service \<Rightarrow> bool"
  for n start recv acts where
  peer: "pstep n (sv_cluster S) s' \<Longrightarrow> sstep n start recv acts S (S\<lparr>sv_cluster := s'\<rparr>)"
| act: "i < n \<Longrightarrow> acts (sv_peer S i) (sv_app S i) rf a \<Longrightarrow>
    sstep n start recv acts S (sv_put i rf a (sv_read S i) (sv_due S i) S)"
| recv: "i < n \<Longrightarrow> sv_due S i = None \<Longrightarrow> sv_read S i < length (applyCh (sv_peer S i)) \<Longrightarrow>
    recv i (applyCh (sv_peer S i) ! sv_read S i) (sv_peer S i) (sv_app S) = Some (Some (a, r)) \<Longrightarrow>
    sstep n start recv acts S (sv_put i (sv_peer S i) a (Suc (sv_read S i)) r S)"
| snapshot: "i < n \<Longrightarrow> sv_due S i = Some (k, d) \<Longrightarrow> Snapshot k (Some d) (sv_peer S i) = Some rf \<Longrightarrow>
    sstep n start recv acts S (sv_put i rf (sv_app S i) (sv_read S i) None S)"
| restart: "i < n \<Longrightarrow> at_crash n (sv_cluster S) i d \<Longrightarrow> start i (Copy d) = Some (rf, a) \<Longrightarrow>
    sstep n start recv acts S (sv_put i rf a 0 None S)"

definition sinit :: "nat \<Rightarrow> (nat \<Rightarrow> ('c, 'b) disk \<Rightarrow> (('c, 'b) Raft \<times> 'a) option) \<Rightarrow> ('c, 'b, 'a) Service \<Rightarrow> bool" where
  "sinit n start S \<longleftrightarrow> (\<forall>i < n. start i MakePersister = Some (sv_peer S i, sv_app S i)
     \<and> sv_read S i = 0 \<and> sv_due S i = None) \<and> net (sv_cluster S) = {#}"

lemma sv_peers:
  assumes "(pstep n)\<^sup>*\<^sup>* (sv_cluster S) s'"
  shows "(sstep n start recv acts)\<^sup>*\<^sup>* S (S\<lparr>sv_cluster := s'\<rparr>)"
  using assms
proof (induction rule: rtranclp_induct)
  case (step s s')
  have "sstep n start recv acts (S\<lparr>sv_cluster := s\<rparr>) (S\<lparr>sv_cluster := s\<rparr>\<lparr>sv_cluster := s'\<rparr>)"
    by (rule sstep.peer) (use step.hyps(2) in simp)
  then show ?case using step.IH by simp
qed simp

lemma ex_peer_runs:
  "(pstep 3)\<^sup>*\<^sup>* (ex_boot :: ('c, 'b) Cluster) ex_elected"
  "(pstep 3)\<^sup>*\<^sup>* (ex_state c 0 :: ('c, 'b) Cluster) (ex_state c 7)"
proof -
  note r = rtranclp.rtrancl_into_rtrancl [of "pstep 3"] and r0 = r_into_rtranclp [of "pstep 3"]
  show "(pstep 3)\<^sup>*\<^sup>* (ex_boot :: ('c, 'b) Cluster) ex_elected"
    by (rule r [OF r [OF r0 [OF ex_elected_steps(1)] ex_elected_steps(2)] ex_elected_steps(3)])
  show "(pstep 3)\<^sup>*\<^sup>* (ex_state c 0 :: ('c, 'b) Cluster) (ex_state c 7)"
    by (rule r [OF r [OF r [OF r [OF r [OF r [OF r0 [OF ex_steps(1)] ex_steps(2)] ex_steps(3)] ex_steps(4)]
      ex_steps(5)] ex_steps(6)] ex_steps(7)])
qed

lemma ex_delivered:
  "applyCh (ex_run c 2) = [command_msg (ex_cmd c)]" "applyCh (ex_peer c 2) = [command_msg (ex_cmd c)]"
  by (simp_all add: ex_run_def ex_peer_def Let_def)

section \<open>The log that is delivered\<close>

text \<open>\<open>L\<close> is a prefix of the commands committed in the cluster.\<close>

definition clog :: "nat \<Rightarrow> 'c ghost \<Rightarrow> 'c list \<Rightarrow> bool" where
  "clog n G L \<longleftrightarrow> L = [] \<or> (\<exists>t N X. chosen n G t N \<and> glead G t = Some X \<and> length L \<le> N \<and> N < length X
     \<and> (\<forall>k < length L. le_Command (X ! Suc k) = Some (L ! k)))"

lemma clog_mono:
  assumes "clog n G L" and le: "ghost_le G G'"
  shows "clog n G' L"
proof (cases "L = []")
  case False
  then obtain t N X where t: "chosen n G t N" "glead G t = Some X" "length L \<le> N" "N < length X"
    "\<forall>k < length L. le_Command (X ! Suc k) = Some (L ! k)"
    using assms(1) by (auto simp: clog_def)
  obtain X' where X': "glead G' t = Some X'" "prefix X X'" using ghost_leD(1) [OF le t(2)] by blast
  have "X' ! Suc k = X ! Suc k" if "k < length L" for k using nth_prefix [OF X'(2), of "Suc k"] that t(3,4) by simp
  then show ?thesis
    using chosen_mono [OF t(1) le] X'(1) t(3-5) prefix_length_le [OF X'(2)]
    unfolding clog_def by (intro disjI2 exI [of _ t] exI [of _ N] exI [of _ X']) simp
qed (simp add: clog_def)

text \<open>A delivered command is that of the log, or the next one.\<close>

lemma delivered_log:
  assumes si: "sinv n H C G s" and L: "clog n G L" and m: "delivered n G m" "am_CommandValid m"
    and i: "am_CommandIndex m = int k + 1" and c: "am_Command m = Some c"
  shows "k < length L \<Longrightarrow> c = L ! k" and "k = length L \<Longrightarrow> clog n G (L @ [c])"
proof -
  obtain t N X l where t: "chosen n G t N" "glead G t = Some X" "0 < l" "l \<le> N" "N < length X" "m = command_msg (X ! l)"
    using m by (auto simp: delivered_def)
  have "le_Index (X ! l) = int l"
    using full_log_index [OF good_full [OF lead_invD(1) [OF sinvD(5) [OF si] t(2)]]] t(4,5) by simp
  then have l: "l = Suc k" using t(6) i by (simp add: command_msg_def)
  have c': "le_Command (X ! Suc k) = Some c" using c t(6) l by (simp add: command_msg_def)
  have agree: "le_Command (X ! Suc j) = Some (L ! j)" if j: "j < length L" "j \<le> k" for j
  proof -
    obtain u M Y where u: "chosen n G u M" "glead G u = Some Y" "length L \<le> M"
      "\<forall>k < length L. le_Command (Y ! Suc k) = Some (L ! k)"
      using L j(1) by (auto simp: clog_def)
    have "take (Suc (Suc j)) X = take (Suc (Suc j)) Y"
      by (rule chosen_agree [OF si t(1,2) _ u(1,2)]) (use t(4) l u(3) j in auto)
    then have "X ! Suc j = Y ! Suc j" by (metis lessI nth_take)
    then show ?thesis using u(4) j(1) by simp
  qed
  show "c = L ! k" if "k < length L" using agree [OF that] c' by simp
  show "clog n G (L @ [c])" if k: "k = length L"
    unfolding clog_def using t(1,2,4,5) l k c' agree
    by (intro disjI2 exI [of _ t] exI [of _ N] exI [of _ X]) (auto simp: nth_append less_Suc_eq)
qed

text \<open>
  \<open>says n S k c\<close>: in state \<open>S\<close> some peer has delivered \<open>c\<close> as command number \<open>k + 1\<close>; and every entry
  of a log that has been \<open>heard\<close> was delivered by some peer in a state on the way.
\<close>

definition says :: "nat \<Rightarrow> ('c, 'b, 'a) Service \<Rightarrow> nat \<Rightarrow> 'c \<Rightarrow> bool" where
  "says n S k c \<longleftrightarrow> (\<exists>i < n. \<exists>m \<in> set (applyCh (sv_peer S i)). am_CommandValid m \<and> am_CommandIndex m = int k + 1
     \<and> am_Command m = Some c)"

definition heard :: "nat \<Rightarrow> (('c, 'b, 'a) Service \<Rightarrow> ('c, 'b, 'a) Service \<Rightarrow> bool) \<Rightarrow> ('c, 'b, 'a) Service
    \<Rightarrow> ('c, 'b, 'a) Service \<Rightarrow> 'c list \<Rightarrow> bool" where
  "heard n step S0 S L \<longleftrightarrow> (\<forall>k < length L. \<exists>T. step\<^sup>*\<^sup>* S0 T \<and> step\<^sup>*\<^sup>* T S \<and> says n T k (L ! k))"

lemma heard_Nil [simp]: "heard n step S0 S []"
  by (simp add: heard_def)

lemma heard_step:
  assumes h: "heard n step S0 S L" and r: "step\<^sup>*\<^sup>* S0 S" and s: "step S S'"
    and L': "L' = [] \<or> (\<exists>c. L' = [c] \<and> says n S (length L) c)"
  shows "heard n step S0 S' (L @ L')"
  unfolding heard_def
proof (intro allI impI)
  fix k assume k: "k < length (L @ L')"
  show "\<exists>T. step\<^sup>*\<^sup>* S0 T \<and> step\<^sup>*\<^sup>* T S' \<and> says n T k ((L @ L') ! k)"
  proof (cases "k < length L")
    case True
    then obtain T where "step\<^sup>*\<^sup>* S0 T" "step\<^sup>*\<^sup>* T S" "says n T k (L ! k)" using h by (auto simp: heard_def)
    then show ?thesis using rtranclp.rtrancl_into_rtrancl [of step T S S'] s True by (auto simp: nth_append)
  next
    case False
    then show ?thesis using k L' r r_into_rtranclp [of step S S'] s by (intro exI [of _ S]) (auto simp: nth_append less_Suc_eq)
  qed
qed

section \<open>What an application promises\<close>

text \<open>
  \<open>receives\<close>: the application does not panic, and unless it stops reading it then stands at index \<open>k\<close>
  of log \<open>L\<close>, and a snapshot it wants to hand over is one of that index.
\<close>

definition receives :: "('a \<Rightarrow> int) \<Rightarrow> ('c list \<Rightarrow> 'a \<Rightarrow> bool) \<Rightarrow> ('c list \<Rightarrow> int \<Rightarrow> 'b list \<Rightarrow> bool) \<Rightarrow> 'c list
    \<Rightarrow> int \<Rightarrow> ('a \<times> (int \<times> 'b list) option) option option \<Rightarrow> bool" where
  "receives pos rep snapped L k out \<longleftrightarrow> out = Some None \<or> (\<exists>a r. out = Some (Some (a, r)) \<and> pos a = k \<and> rep L a
     \<and> (\<forall>j d. r = Some (j, d) \<longrightarrow> j = k \<and> d \<noteq> [] \<and> snapped L j d))"

text \<open>
  \<open>pos\<close> is the index an application has reached, \<open>rep L a\<close> says that its state is right for the log
  \<open>L\<close>, and \<open>snapped L k d\<close> that \<open>d\<close> is a snapshot at index \<open>k\<close> of \<open>L\<close>.
\<close>

locale consumer =
  fixes n :: nat
    and start :: "nat \<Rightarrow> ('c, 'b) disk \<Rightarrow> (('c, 'b) Raft \<times> 'a) option"
    and recv :: "nat \<Rightarrow> ('c, 'b) ApplyMsg \<Rightarrow> ('c, 'b) Raft \<Rightarrow> (nat \<Rightarrow> 'a) \<Rightarrow> ('a \<times> (int \<times> 'b list) option) option option"
    and acts :: "('c, 'b) Raft \<Rightarrow> 'a \<Rightarrow> ('c, 'b) Raft \<Rightarrow> 'a \<Rightarrow> bool"
    and pos :: "'a \<Rightarrow> int" and rep :: "'c list \<Rightarrow> 'a \<Rightarrow> bool" and snapped :: "'c list \<Rightarrow> int \<Rightarrow> 'b list \<Rightarrow> bool"
  assumes rep_pos: "rep L a \<Longrightarrow> 0 \<le> pos a \<and> pos a \<le> int (length L)"
    and rep_more: "rep L a \<Longrightarrow> rep (L @ L') a"
    and snapped_more: "snapped L j x \<Longrightarrow> snapped (L @ L') j x"
    and start_Make: "start i d = Some (rf, a) \<Longrightarrow> Make n i d = Some rf"
    and start_fresh: "i < n \<Longrightarrow> Make n i d = Some rf \<Longrightarrow> ReadSnapshot d = []
      \<Longrightarrow> \<exists>a. start i d = Some (rf, a) \<and> pos a = 0 \<and> rep L a"
    and start_snapped: "i < n \<Longrightarrow> Make n i d = Some rf \<Longrightarrow> ReadSnapshot d \<noteq> [] \<Longrightarrow> snapped L j (ReadSnapshot d)
      \<Longrightarrow> \<exists>a. start i d = Some (rf, a) \<and> pos a = j \<and> rep L a"
    and recv_command: "i < n \<Longrightarrow> (\<And>j. j < n \<Longrightarrow> rep L (A j)) \<Longrightarrow> pos (A i) = int k \<Longrightarrow> k < length L
      \<Longrightarrow> am_CommandValid m \<Longrightarrow> \<not> am_SnapshotValid m \<Longrightarrow> am_CommandIndex m = int k + 1 \<Longrightarrow> am_Command m = Some (L ! k)
      \<Longrightarrow> receives pos rep snapped L (int k + 1) (recv i m rf A)"
    and recv_snapshot: "i < n \<Longrightarrow> (\<And>j. j < n \<Longrightarrow> rep L (A j)) \<Longrightarrow> pos (A i) < am_SnapshotIndex m
      \<Longrightarrow> \<not> am_CommandValid m \<Longrightarrow> am_SnapshotValid m \<Longrightarrow> snapped L (am_SnapshotIndex m) (am_Snapshot m)
      \<Longrightarrow> receives pos rep snapped L (am_SnapshotIndex m) (recv i m rf A)"
    and acts_app: "acts rf a rf' a' \<Longrightarrow> pos a' = pos a \<and> (rep L a \<longrightarrow> rep L a')"
    and acts_peer: "acts rf a rf' a' \<Longrightarrow> rf' = rf \<or> rf' = Kill rf \<or> (\<exists>c r. Start c rf = Some (r, rf'))"
begin

abbreviation sv_step :: "('c, 'b, 'a) Service \<Rightarrow> ('c, 'b, 'a) Service \<Rightarrow> bool" where
  "sv_step \<equiv> sstep n start recv acts"

definition sv_inv :: "history \<Rightarrow> (nat \<Rightarrow> int \<Rightarrow> nat set) \<Rightarrow> 'c ghost \<Rightarrow> 'c list \<Rightarrow> ('c, 'b, 'a) Service \<Rightarrow> bool" where
  "sv_inv H C G L S \<longleftrightarrow> cinv n H C (sv_cluster S) \<and> sinv n H C G (sv_cluster S) \<and> clog n G L
     \<and> (\<forall>i < n. rep L (sv_app S i) \<and> feeds (snapped L) (pos (sv_app S i)) (sv_read S i) (sv_peer S i)
          \<and> (\<forall>k d. sv_due S i = Some (k, d) \<longrightarrow> k = pos (sv_app S i) \<and> d \<noteq> [] \<and> snapped L k d))
     \<and> (\<forall>m \<in># net (sv_cluster S). carries (snapped L) m)"

lemma sv_invD:
  assumes "sv_inv H C G L S"
  shows "cinv n H C (sv_cluster S)" and "sinv n H C G (sv_cluster S)" and "clog n G L"
    and "i < n \<Longrightarrow> rep L (sv_app S i)"
    and "i < n \<Longrightarrow> feeds (snapped L) (pos (sv_app S i)) (sv_read S i) (sv_peer S i)"
    and "i < n \<Longrightarrow> sv_due S i = Some (k, d) \<Longrightarrow> k = pos (sv_app S i) \<and> d \<noteq> [] \<and> snapped L k d"
    and "m \<in># net (sv_cluster S) \<Longrightarrow> carries (snapped L) m"
  using assms by (simp_all add: sv_inv_def)

lemma sv_inv_put:
  assumes inv: "sv_inv H C G L S" and i: "i < n"
    and c: "cinv n H' C' (put i rf (net (sv_cluster S)) (sv_cluster S))"
      "sinv n H' C' G' (put i rf (net (sv_cluster S)) (sv_cluster S))"
    and L: "clog n G' (L @ L')" and a: "rep (L @ L') a" "feeds (snapped (L @ L')) (pos a) k rf"
    and due: "\<And>j d. r = Some (j, d) \<Longrightarrow> j = pos a \<and> d \<noteq> [] \<and> snapped (L @ L') j d"
  shows "sv_inv H' C' G' (L @ L') (sv_put i rf a k r S)"
  unfolding sv_inv_def
proof (intro conjI allI impI ballI)
  fix j assume j: "j < n"
  show "rep (L @ L') (sv_app (sv_put i rf a k r S) j)" using a(1) rep_more [OF sv_invD(4) [OF inv j]] by simp
  show "feeds (snapped (L @ L')) (pos (sv_app (sv_put i rf a k r S) j)) (sv_read (sv_put i rf a k r S) j)
      (sv_peer (sv_put i rf a k r S) j)"
    using a(2) feeds_mono [OF sv_invD(5) [OF inv j] snapped_more] by simp
  fix l d assume "sv_due (sv_put i rf a k r S) j = Some (l, d)"
  then show "l = pos (sv_app (sv_put i rf a k r S) j)" "d \<noteq> []" "snapped (L @ L') l d"
    using due [of l d] sv_invD(6) [OF inv j, of l d] snapped_more by (auto split: if_splits)
next
  fix m assume "m \<in># net (sv_cluster (sv_put i rf a k r S))"
  then show "carries (snapped (L @ L')) m" using carries_mono [OF sv_invD(7) [OF inv] snapped_more] by simp
qed (use c L in simp_all)

lemma put_same: "put i (nodes s i) (net s) s = s"
  by (simp add: put_def)

text \<open>The next message and what it does.\<close>

lemma next_message:
  assumes "k < length (applyCh rf)"
  shows "unread k rf = applyCh rf ! k # unread (Suc k) rf"
  using assms by (simp add: unread_def Cons_nth_drop_Suc)

lemma sv_recv:
  assumes inv: "sv_inv H C G L S" and i: "i < n" and k: "sv_read S i < length (applyCh (sv_peer S i))"
  defines "m \<equiv> applyCh (sv_peer S i) ! sv_read S i"
  shows "\<exists>L' q. clog n G (L @ L') \<and> receives pos rep snapped (L @ L') q (recv i m (sv_peer S i) (sv_app S))
     \<and> feeds (snapped (L @ L')) q (Suc (sv_read S i)) (sv_peer S i)
     \<and> (L' = [] \<or> (\<exists>c. L' = [c] \<and> says n S (length L) c))"
proof -
  let ?rf = "sv_peer S i" and ?p = "pos (sv_app S i)"
  note f = sv_invD(5) [OF inv i]
  have u: "unread (sv_read S i) ?rf = m # unread (Suc (sv_read S i)) ?rf"
    unfolding m_def by (rule next_message [OF k])
  note st = feedsD(3) [OF f, unfolded u] and mk = feedsD(4) [OF f, of m, unfolded u]
  have fd: "feeds (snapped (L @ L')) q (Suc (sv_read S i)) ?rf"
    if "0 \<le> q" "stream q (unread (Suc (sv_read S i)) ?rf) = Some (lastApplied ?rf)" for q L'
    using feeds_mono [OF f snapped_more [of L _ _ L']] that k by (simp add: feeds_def u)
  show ?thesis
  proof (cases "am_CommandValid m")
    case True
    have p: "0 \<le> ?p" "?p \<le> int (length L)" using rep_pos [OF sv_invD(4) [OF inv i]] by auto
    define l where "l = nat ?p"
    have l: "?p = int l" "l \<le> length L" using p by (auto simp: l_def)
    have ix: "am_CommandIndex m = int l + 1" "stream (int l + 1) (unread (Suc (sv_read S i)) ?rf) = Some (lastApplied ?rf)"
      using st True l(1) by (auto split: if_splits)
    obtain c where c: "am_Command m = Some c" using mk True by (auto simp: msg_ok_def)
    have dl: "delivered n G m"
      using commit_invD(3) [OF sinvD(2) [OF sv_invD(2) [OF inv] i]] k by (simp add: m_def)
    then have ns: "\<not> am_SnapshotValid m" using True by (auto simp: delivered_def command_msg_def)
    note D = delivered_log [OF sv_invD(2,3) [OF inv] dl True ix(1) c]
    obtain L' where L': "clog n G (L @ L')" "l < length (L @ L')" "(L @ L') ! l = c"
      "L' = [] \<or> (\<exists>c. L' = [c] \<and> says n S (length L) c)"
    proof (cases "l < length L")
      case True
      then show thesis using that [of "[]"] sv_invD(3) [OF inv] D(1) by simp
    next
      case False
      then have "l = length L" using l(2) by simp
      moreover from this have "says n S (length L) c"
        using i True ix(1) c k unfolding says_def m_def by (metis nth_mem)
      ultimately show thesis using that [of "[c]"] D(2) by simp
    qed
    have "receives pos rep snapped (L @ L') (int l + 1) (recv i m ?rf (sv_app S))"
      by (rule recv_command) (use i rep_more [OF sv_invD(4) [OF inv]] l(1) L' True ns ix(1) c in auto)
    then show ?thesis using L'(1,4) fd [OF _ ix(2)] by fastforce
  next
    case False
    then have s: "am_SnapshotValid m" "?p < am_SnapshotIndex m" "snapped L (am_SnapshotIndex m) (am_Snapshot m)"
      "stream (am_SnapshotIndex m) (unread (Suc (sv_read S i)) ?rf) = Some (lastApplied ?rf)"
      using st mk by (auto simp: msg_ok_def split: if_splits)
    have "receives pos rep snapped L (am_SnapshotIndex m) (recv i m ?rf (sv_app S))"
      by (rule recv_snapshot) (use i sv_invD(4) [OF inv] s False in auto)
    then show ?thesis
      using fd [of _ "[]", OF _ s(4)] s(2) feedsD(1) [OF f] sv_invD(3) [OF inv] by (intro exI [of _ "[]"]) auto
  qed
qed

text \<open>A server can be started from what a crash leaves.\<close>

lemma sv_start:
  assumes inv: "sv_inv H C G L S" and d: "at_crash n (sv_cluster S) i d"
  shows "\<exists>rf a. start i (Copy d) = Some (rf, a) \<and> rep L a \<and> feeds (snapped L) (pos a) 0 rf"
proof -
  note i = at_crash_node(1) [OF sv_invD(1) [OF inv] d]
  obtain rf1 where r: "node_ok rf1" "still (sv_peer S i) rf1" "d = persister rf1"
    using at_crash_node(2) [OF sv_invD(1) [OF inv] d] by blast
  let ?rf = "revived n i d"
  have M: "Make n i (Copy d) = Some ?rf"
    using Make_revived [of d n i] node_ok_plogs [OF r(1)] node_ok_log [OF r(1)] r(3) by simp
  note f = revived_feeds [OF sv_invD(5) [OF inv i] r]
  have "\<exists>a. start i (Copy d) = Some (?rf, a) \<and> pos a = firstIdx (logs rf1) \<and> rep L a"
    using f(2) start_fresh [OF i M, of L] start_snapped [OF i M, of L] by (auto simp: snap_is_def)
  then show ?thesis using f(1) by auto
qed

lemma sv_inv_step:
  assumes st: "sv_step S S'" and inv: "sv_inv H C G L S"
  shows "\<exists>H' C' G' L'. sv_inv H' C' G' (L @ L') S' \<and> (L' = [] \<or> (\<exists>c. L' = [c] \<and> says n S (length L) c))"
  using st
proof cases
  case (peer s')
  obtain H' C' G' where c: "cinv n H' C' s'" "sinv n H' C' G' s'" "ghost_le G G'"
    using sinv_step [OF pstep_cstep [OF peer(2)] sv_invD(1,2) [OF inv]] by blast
  have "(\<forall>i < n. feeds (snapped L) (pos (sv_app S i)) (sv_read S i) (nodes s' i)) \<and> (\<forall>m \<in># net s'. carries (snapped L) m)"
    by (rule pstep_feeds [OF peer(2) sv_invD(1,2) [OF inv]]) (use sv_invD(5,7) [OF inv] in auto)
  then have "sv_inv H' C' G' (L @ []) S'"
    using inv c clog_mono [OF sv_invD(3) [OF inv] c(3)] by (simp add: sv_inv_def peer(1))
  then show ?thesis by blast
next
  case (act i rf a)
  note P = acts_peer [OF act(3)] and A = acts_app [OF act(3), of L]
  have wf: "raft_wf (sv_peer S i)" by (rule peer_okD(4) [OF cinvD(1) [OF sv_invD(1) [OF inv] act(2)]])
  have "still (sv_peer S i) rf" using P Start_still [OF wf] by auto
  then have f: "feeds (snapped L) (pos a) (sv_read S i) rf" using still_feeds [OF sv_invD(5) [OF inv act(2)]] A by simp
  have "(cstep n)\<^sup>=\<^sup>= (sv_cluster S) (put i rf (net (sv_cluster S)) (sv_cluster S))"
    using P cstep.kill [OF act(2), of "sv_cluster S"] cstep.start [OF act(2), of _ "sv_cluster S"] put_same by fastforce
  then obtain H' C' G' where c: "cinv n H' C' (put i rf (net (sv_cluster S)) (sv_cluster S))"
      "sinv n H' C' G' (put i rf (net (sv_cluster S)) (sv_cluster S))" "ghost_le G G'"
    using sinv_step [OF _ sv_invD(1,2) [OF inv]] sv_invD(1,2) [OF inv] ghost_le_refl by fastforce
  have "sv_inv H' C' G' (L @ []) S'"
    unfolding act(1) by (rule sv_inv_put [OF inv act(2) c(1,2)])
      (use clog_mono [OF sv_invD(3) [OF inv] c(3)] sv_invD(4,6) [OF inv act(2)] A f in auto)
  then show ?thesis by blast
next
  case (recv i a r)
  obtain L' q where L': "clog n G (L @ L')" "feeds (snapped (L @ L')) q (Suc (sv_read S i)) (sv_peer S i)"
      "receives pos rep snapped (L @ L') q (Some (Some (a, r)))"
      "L' = [] \<or> (\<exists>c. L' = [c] \<and> says n S (length L) c)"
    using sv_recv [OF inv recv(2,4)] recv(5) by auto
  have "sv_inv H C G (L @ L') S'"
    unfolding recv(1) by (rule sv_inv_put [OF inv recv(2)])
      (use sv_invD(1,2) [OF inv] L' in \<open>auto simp: put_same receives_def\<close>)
  then show ?thesis using L'(4) by blast
next
  case (snapshot i k d rf)
  note f = sv_invD(5) [OF inv snapshot(2)] and D = sv_invD(6) [OF inv snapshot(2,3)]
  have "cstep n (sv_cluster S) (put i rf (net (sv_cluster S)) (sv_cluster S))"
    by (rule cstep.snapshot [OF snapshot(2) _ snapshot(4)]) (use D feeds_le [OF f] in simp)
  then obtain H' C' G' where c: "cinv n H' C' (put i rf (net (sv_cluster S)) (sv_cluster S))"
      "sinv n H' C' G' (put i rf (net (sv_cluster S)) (sv_cluster S))" "ghost_le G G'"
    using sinv_step [OF _ sv_invD(1,2) [OF inv]] by blast
  have wf: "raft_wf (sv_peer S i)" by (rule peer_okD(4) [OF cinvD(1) [OF sv_invD(1) [OF inv] snapshot(2)]])
  have "feeds (snapped L) (pos (sv_app S i)) (sv_read S i) rf"
    using Snapshot_feeds [OF f wf _ _ snapshot(4)] D by blast
  then have "sv_inv H' C' G' (L @ []) S'"
    unfolding snapshot(1) by (intro sv_inv_put [OF inv snapshot(2) c(1,2)])
      (use clog_mono [OF sv_invD(3) [OF inv] c(3)] sv_invD(4) [OF inv snapshot(2)] in auto)
  then show ?thesis by blast
next
  case (restart i d rf a)
  obtain H' C' G' where c: "cinv n H' C' (put i rf (net (sv_cluster S)) (sv_cluster S))"
      "sinv n H' C' G' (put i rf (net (sv_cluster S)) (sv_cluster S))" "ghost_le G G'"
    using sinv_step [OF at_crash_cstep [OF restart(3) start_Make [OF restart(4)]] sv_invD(1,2) [OF inv]] by blast
  have "sv_inv H' C' G' (L @ []) S'"
    unfolding restart(1) by (rule sv_inv_put [OF inv restart(2) c(1,2)])
      (use clog_mono [OF sv_invD(3) [OF inv] c(3)] sv_start [OF inv restart(3)] restart(4) in auto)
  then show ?thesis by blast
qed

lemma sv_inv_init:
  assumes "sinit n start S"
  shows "\<exists>H C G. sv_inv H C G [] S"
proof -
  have M: "start i MakePersister = Some (sv_peer S i, sv_app S i)" "sv_read S i = 0" "sv_due S i = None" if "i < n" for i
    using assms that by (simp_all add: sinit_def)
  have B: "sv_peer S i = boot n i MakePersister" if "i < n" for i
    using start_Make [OF M(1) [OF that]] by (simp add: Make_fresh)
  have "cinit n (sv_cluster S)" using assms start_Make by (auto simp: cinit_def sinit_def)
  then obtain H C where c: "cinv n H C (sv_cluster S)" "sinv n H C ghost0 (sv_cluster S)"
    using cinv_init sinv_init by blast
  have "rep [] (sv_app S i) \<and> pos (sv_app S i) = 0" if "i < n" for i
    using start_fresh [OF that start_Make [OF M(1) [OF that]], of "[]"] M(1) [OF that] by auto
  moreover have "feeds J 0 0 (boot n i MakePersister :: ('c, 'b) Raft)" for J i
    by (simp add: feeds_def unread_def boot_def snap_is_def cmds_ok_def generateSingleLog_def firstIdx_def)
  ultimately have "sv_inv H C ghost0 [] S"
    using c assms M(2,3) B by (simp add: sv_inv_def sinit_def clog_def)
  then show ?thesis by blast
qed

lemma sv_reach_inv:
  assumes "sinit n start S0" and "sv_step\<^sup>*\<^sup>* S0 S"
  shows "\<exists>H C G L. sv_inv H C G L S \<and> heard n sv_step S0 S L"
  using assms(2)
proof (induction rule: rtranclp_induct)
  case base
  then show ?case using sv_inv_init [OF assms(1)] heard_Nil by blast
next
  case (step S S')
  then show ?case using sv_inv_step heard_step [OF _ step.hyps] by blast
qed

lemma sv_later:
  assumes "sv_step\<^sup>*\<^sup>* S S'" and "sv_inv H C G L S" and "sv_step\<^sup>*\<^sup>* S0 S" and "heard n sv_step S0 S L"
  shows "\<exists>H' C' G' L'. sv_inv H' C' G' (L @ L') S' \<and> heard n sv_step S0 S' (L @ L')"
  using assms(1)
proof (induction rule: rtranclp_induct)
  case base
  then show ?case using assms by (metis append_Nil2)
next
  case (step S1 S2)
  then obtain H1 C1 G1 L1 where 1: "sv_inv H1 C1 G1 (L @ L1) S1" "heard n sv_step S0 S1 (L @ L1)" by blast
  obtain H' C' G' L' where 2: "sv_inv H' C' G' ((L @ L1) @ L') S2"
    "L' = [] \<or> (\<exists>c. L' = [c] \<and> says n S1 (length (L @ L1)) c)"
    using sv_inv_step [OF step.hyps(2) 1(1)] by blast
  have "heard n sv_step S0 S2 ((L @ L1) @ L')"
    by (rule heard_step [OF 1(2) rtranclp_trans [OF assms(3) step.hyps(1)] step.hyps(2) 2(2)])
  then show ?case using 2(1) by (metis append.assoc)
qed

text \<open>One log for all servers and all times, no panic of an application, its peer or a restart.\<close>

lemma one_log:
  assumes "sinit n start S0" and "sv_step\<^sup>*\<^sup>* S0 S" and "sv_step\<^sup>*\<^sup>* S S'"
  shows "\<exists>L. heard n sv_step S0 S' L \<and> (\<forall>i < n. rep L (sv_app S i)) \<and> (\<forall>i < n. rep L (sv_app S' i))
     \<and> (\<forall>i < n. \<forall>m \<in> set (applyCh (sv_peer S' i)). \<forall>k < length L. am_CommandValid m \<longrightarrow>
          am_CommandIndex m = int k + 1 \<longrightarrow> am_Command m = Some (L ! k))"
proof -
  obtain H C G L where 1: "sv_inv H C G L S" "heard n sv_step S0 S L" using sv_reach_inv [OF assms(1,2)] by blast
  obtain H' C' G' L' where 2: "sv_inv H' C' G' (L @ L') S'" "heard n sv_step S0 S' (L @ L')"
    using sv_later [OF assms(3) 1(1) assms(2) 1(2)] by blast
  have "am_Command m = Some ((L @ L') ! k)"
    if i: "i < n" and m: "m \<in> set (applyCh (sv_peer S' i))" "am_CommandValid m" "am_CommandIndex m = int k + 1"
      and k: "k < length (L @ L')" for i m k
  proof -
    obtain c where c: "am_Command m = Some c" using feedsD(7) [OF sv_invD(5) [OF 2(1) i] m(1,2)] by blast
    have "delivered n G' m" by (rule commit_invD(3) [OF sinvD(2) [OF sv_invD(2) [OF 2(1)] i] m(1)])
    then show ?thesis using delivered_log(1) [OF sv_invD(2,3) [OF 2(1)] _ m(2,3) c k] c by simp
  qed
  then show ?thesis
    using rep_more [OF sv_invD(4) [OF 1(1)]] sv_invD(4) [OF 2(1)] 2(2) by (intro exI [of _ "L @ L'"] conjI allI ballI impI) auto
qed

lemma no_panic:
  assumes "sinit n start S0" and "sv_step\<^sup>*\<^sup>* S0 S" and i: "i < n"
  shows "sv_read S i < length (applyCh (sv_peer S i)) \<Longrightarrow>
      recv i (applyCh (sv_peer S i) ! sv_read S i) (sv_peer S i) (sv_app S) \<noteq> None"
    and "sv_due S i = Some (k, d) \<Longrightarrow> Snapshot k (Some d) (sv_peer S i) \<noteq> None"
    and "at_crash n (sv_cluster S) i x \<Longrightarrow> start i (Copy x) \<noteq> None"
proof -
  obtain H C G L where inv: "sv_inv H C G L S" using sv_reach_inv [OF assms(1,2)] by blast
  show "recv i (applyCh (sv_peer S i) ! sv_read S i) (sv_peer S i) (sv_app S) \<noteq> None"
    if "sv_read S i < length (applyCh (sv_peer S i))"
    using sv_recv [OF inv i that] by (auto simp: receives_def)
  show "Snapshot k (Some d) (sv_peer S i) \<noteq> None"
    using peer_okD(4) [OF cinvD(1) [OF sv_invD(1) [OF inv] i]] by (simp add: Snapshot_ok)
  show "start i (Copy x) \<noteq> None" if "at_crash n (sv_cluster S) i x" using sv_start [OF inv that] by auto
qed

end

end
