(* ===== verification/RSMCluster.thy ===== *)
theory RSMCluster
  imports RSM Service
begin

text \<open>
  The replicated state machine layer on the cluster: every server is an \<open>RSM\<close> of \<open>RSM.thy\<close> on a
  peer of \<open>RaftCluster.thy\<close>.  The layer keeps the promises of \<open>consumer\<close>, so that the one committed
  log that \<open>rsm_reach\<close> speaks of is a fact about the cluster and not an assumption.
\<close>

section \<open>The layer as an application\<close>

definition rsm_start ::
  "('x list \<Rightarrow> 's \<Rightarrow> 's option) \<Rightarrow> 's \<Rightarrow> nat \<Rightarrow> int \<Rightarrow> nat \<Rightarrow> ('q Op, 'x rsm_gob) disk
    \<Rightarrow> (('q Op, 'x rsm_gob) Raft \<times> ('q, 'a, 's, 'x) RSM) option" where
  "rsm_start restore sm0 n m i d = map_option (\<lambda>rsm. (rsm_rf rsm, rsm)) (MakeRSM restore n i d m sm0)"

text \<open>
  One message of the reader up to its call of \<open>Snapshot\<close>, before which the peer may move on.
\<close>

definition rsm_recv ::
  "('q \<Rightarrow> 's \<Rightarrow> 'a \<times> 's) \<Rightarrow> ('s \<Rightarrow> 'x list) \<Rightarrow> ('x list \<Rightarrow> 's \<Rightarrow> 's option) \<Rightarrow> ('q Op gob \<Rightarrow> nat) \<Rightarrow> nat
    \<Rightarrow> ('q Op, 'x rsm_gob) ApplyMsg \<Rightarrow> ('q Op, 'x rsm_gob) Raft \<Rightarrow> (nat \<Rightarrow> ('q, 'a, 's, 'x) RSM)
    \<Rightarrow> (('q, 'a, 's, 'x) RSM \<times> (int \<times> 'x rsm_gob list) option) option option" where
  "rsm_recv doOp snap restore sz i msg rf A =
     (let rsm = (A i)\<lparr>rsm_rf := rf\<rparr> in
      if rsm_shutdown rsm then Some None
      else if am_CommandValid msg then do {
        (shouldSnapshot, rsm) \<leftarrow> applyCommand doOp sz msg rsm;
        Some (Some (rsm, if shouldSnapshot then Some (rsm_lastApplied rsm, snapshot_of snap rsm) else None))
      }
      else if am_SnapshotValid msg then map_option (\<lambda>rsm. Some (rsm, None)) (applySnapshot restore msg rsm)
      else Some (Some (rsm, None)))"

text \<open>What the layer and its clients do besides reading.\<close>

inductive rsm_acts ::
  "('q Op, 'x rsm_gob) Raft \<Rightarrow> ('q, 'a, 's, 'x) RSM \<Rightarrow> ('q Op, 'x rsm_gob) Raft \<Rightarrow> ('q, 'a, 's, 'x) RSM \<Rightarrow> bool" where
  submit: "doSubmit_start req (rsm\<lparr>rsm_rf := rf\<rparr>) = Some (r, rsm') \<Longrightarrow> rsm_acts rf rsm (rsm_rf rsm') rsm'"
| register: "rsm_acts rf rsm rf (snd (doSubmit_register op index rsm))"
| wait: "rsm_acts rf rsm rf (snd (waitForResult expired c p t (rsm\<lparr>rsm_rf := rf\<rparr>)))"
| finish: "rsm_acts rf rsm rf (doSubmit_finish index rsm)"
| closed: "rsm_acts rf rsm rf (handleShutdown rsm)"
| kill: "rsm' = rsm_Kill (rsm\<lparr>rsm_rf := rf\<rparr>) \<Longrightarrow> rsm_acts rf rsm (rsm_rf rsm') rsm'"

text \<open>Together with its call of \<open>Snapshot\<close> this is \<open>reader_msg\<close>.\<close>

lemma applyCommand_reached:
  assumes "applyCommand doOp sz msg rsm = Some (b, rsm')"
  shows "am_CommandIndex msg \<le> rsm_lastApplied rsm'"
  using assms by (cases "am_Command msg") (auto simp: applyCommand_def Let_def split: option.splits prod.splits if_splits)

lemma applyCommand_next:
  assumes "am_Command msg = Some op" and "rsm_lastApplied rsm < am_CommandIndex msg"
  shows "\<exists>b rsm'. applyCommand doOp sz msg rsm = Some (b, rsm') \<and> rsm_lastApplied rsm' = am_CommandIndex msg
    \<and> rsm_maxraftstate rsm' = rsm_maxraftstate rsm \<and> (b \<longrightarrow> 0 < rsm_maxraftstate rsm)"
  using assms by (simp add: applyCommand_def Let_def split_beta)

lemma rsm_recv_reader:
  "reader_msg doOp snap restore sz msg ((A i)\<lparr>rsm_rf := rf\<rparr>) =
     (case rsm_recv doOp snap restore sz i msg rf A of
        None \<Rightarrow> None
      | Some None \<Rightarrow> Some None
      | Some (Some (rsm, None)) \<Rightarrow> Some (Some rsm)
      | Some (Some (rsm, Some (k, d))) \<Rightarrow>
          map_option (\<lambda>rf. Some (rsm\<lparr>rsm_rf := rf\<rparr>)) (Snapshot k (Some d) (rsm_rf rsm)))"
proof (cases "applyCommand doOp sz msg ((A i)\<lparr>rsm_rf := rf\<rparr>)")
  case None
  then show ?thesis by (auto simp: reader_msg_def rsm_recv_def Let_def split: option.splits)
next
  case (Some x)
  then show ?thesis
    using applyCommand_reached [of doOp sz msg "(A i)\<lparr>rsm_rf := rf\<rparr>" "fst x" "snd x"]
    by (auto simp: reader_msg_def rsm_recv_def createSnapshot_def snapshot_of_def Let_def
        map_option_case split: option.splits prod.splits)
qed

section \<open>Reachable states\<close>

lemma rsm_reach_pos:
  "rsm_reach doOp snap restore sm0 log rsm \<Longrightarrow> 0 \<le> rsm_lastApplied rsm \<and> rsm_lastApplied rsm \<le> int (length log)"
proof (induction rule: rsm_reach.induct)
  case (boot n i ps m rsm)
  then show ?case by (auto simp: MakeRSM_def Let_def split: Option.bind_splits if_splits)
next
  case (reboot rsm2 ps n i m rsm)
  then show ?case by (auto simp: MakeRSM_def Let_def snapshot_of_def split: Option.bind_splits if_splits)
next
  case (command rsm msg sz b rsm')
  then show ?case by (auto simp: applyCommand_def Let_def split: option.splits prod.splits if_splits)
next
  case (install rsm rsm2 msg rsm')
  then show ?case by (auto simp: applySnapshot_def Let_def snapshot_of_def split: Option.bind_splits if_splits)
next
  case (start rsm req r rsm')
  then show ?case using doSubmit_start_calm [OF start(2)] by (simp add: calm_def)
next
  case (register rsm op index)
  then show ?case using doSubmit_register_calm [of rsm op index] by (simp add: calm_def)
next
  case (wait rsm expired c p t)
  then show ?case using waitForResult_calm [of rsm expired c p t] by (simp add: calm_def)
next
  case (snapshot rsm index rsm')
  then show ?case using createSnapshot_calm [OF snapshot(2)] by (simp add: calm_def)
qed (simp_all add: doSubmit_finish_def handleShutdown_def rsm_Kill_def doShutdown_def notifyPendingOps_def Let_def)

lemma rsm_reach_more:
  "rsm_reach doOp snap restore sm0 log rsm \<Longrightarrow> rsm_reach doOp snap restore sm0 (log @ log') rsm"
proof (induction rule: rsm_reach.induct)
  case (command rsm msg sz b rsm')
  then show ?case
    by (intro rsm_reach.command [OF command.IH]) (auto simp: nth_append)
qed (blast intro: rsm_reach.intros)+

lemma rsm_acts_reach:
  assumes "rsm_acts rf rsm rf' rsm'" and "rsm_reach doOp snap restore sm0 log rsm"
  shows "rsm_reach doOp snap restore sm0 log rsm'"
  using assms(1)
  by cases (auto intro: rsm_reach.raft [OF assms(2)] assms(2) rsm_reach.start rsm_reach.register rsm_reach.wait rsm_reach.finish
      rsm_reach.closed rsm_reach.kill)

lemma rsm_acts_pos:
  assumes "rsm_acts rf rsm rf' rsm'"
  shows "rsm_lastApplied rsm' = rsm_lastApplied rsm"
  using assms
proof cases
  case (submit req r)
  then show ?thesis using doSubmit_start_calm [of req "rsm\<lparr>rsm_rf := rf\<rparr>"] by (simp add: calm_def)
next
  case (wait expired c p t)
  then show ?thesis using waitForResult_calm [of "rsm\<lparr>rsm_rf := rf\<rparr>" expired c p t] by (simp add: calm_def)
next
  case (register op index)
  then show ?thesis using doSubmit_register_calm [of rsm op index] by (simp add: calm_def)
qed (simp_all add: doSubmit_finish_def handleShutdown_def rsm_Kill_def doShutdown_def notifyPendingOps_def Let_def)

lemma rsm_acts_peer:
  assumes "rsm_acts rf rsm rf' rsm'"
  shows "rf' = rf \<or> rf' = Kill rf \<or> (\<exists>c r. Start c rf = Some (r, rf'))"
  using assms
proof cases
  case (submit req r)
  then show ?thesis by (auto simp: doSubmit_start_def Let_def split: if_splits Option.bind_splits prod.splits)
qed (simp_all add: rsm_Kill_def doShutdown_def notifyPendingOps_def Let_def)

section \<open>The layer keeps its promises\<close>

text \<open>
  A state machine on \<open>n\<close> servers with the bound \<open>m\<close> on the size of the Raft state and the sizes \<open>sz\<close>
  of encoded values.  Its snapshots can always be restored.
\<close>

locale replicated_cluster = replicated doOp snap restore sm0 spec t0 R good
  for doOp :: "'q \<Rightarrow> 's \<Rightarrow> 'a \<times> 's" and snap :: "'s \<Rightarrow> 'x list" and restore :: "'x list \<Rightarrow> 's \<Rightarrow> 's option"
    and sm0 :: 's and spec :: "'q \<Rightarrow> 't \<Rightarrow> 'a \<times> 't" and t0 :: 't
    and R :: "'q list \<Rightarrow> 's \<Rightarrow> 't \<Rightarrow> bool" and good :: "'q list \<Rightarrow> bool" +
  fixes n :: nat and m :: int and sz :: "'q Op gob \<Rightarrow> nat"
  assumes restore_total: "\<exists>s''. restore (snap s) s' = Some s''"
begin

definition rep :: "'q Op list \<Rightarrow> ('q, 'a, 's, 'x) RSM \<Rightarrow> bool" where
  "rep L rsm \<longleftrightarrow> rsm_reach doOp snap restore sm0 L rsm \<and> rsm_maxraftstate rsm = m"

definition taken :: "'q Op list \<Rightarrow> int \<Rightarrow> 'x rsm_gob list \<Rightarrow> bool" where
  "taken L k d \<longleftrightarrow> 0 < m \<and> (\<exists>rsm. rsm_reach doOp snap restore sm0 L rsm \<and> rsm_lastApplied rsm = k \<and> d = snapshot_of snap rsm)"

lemma MakeRSM_taken:
  assumes "Make n i d = Some rf" and "taken L k (ReadSnapshot d)"
  shows "\<exists>rsm. MakeRSM restore n i d m sm0 = Some rsm \<and> rsm_rf rsm = rf \<and> rsm_lastApplied rsm = k \<and> rep L rsm"
proof -
  obtain rsm2 where r: "rsm_reach doOp snap restore sm0 L rsm2" "rsm_lastApplied rsm2 = k" "ReadSnapshot d = snapshot_of snap rsm2"
    using assms(2) by (auto simp: taken_def)
  obtain s where s: "restore (snap (rsm_sm rsm2)) sm0 = Some s" using restore_total by blast
  have "\<exists>rsm. MakeRSM restore n i d m sm0 = Some rsm \<and> rsm_rf rsm = rf \<and> rsm_lastApplied rsm = k \<and> rsm_maxraftstate rsm = m"
    using assms s r(2) by (simp add: MakeRSM_def r(3) snapshot_of_def Let_def taken_def)
  then show ?thesis using rsm_reach.reboot [OF r(1,3)] by (auto simp: rep_def)
qed

lemma MakeRSM_new:
  assumes "Make n i d = Some rf" and "ReadSnapshot d = []"
  shows "\<exists>rsm. MakeRSM restore n i d m sm0 = Some rsm \<and> rsm_rf rsm = rf \<and> rsm_lastApplied rsm = 0 \<and> rep L rsm"
proof -
  have "\<exists>rsm. MakeRSM restore n i d m sm0 = Some rsm \<and> rsm_rf rsm = rf \<and> rsm_lastApplied rsm = 0 \<and> rsm_maxraftstate rsm = m"
    using assms by (simp add: MakeRSM_def Let_def)
  then show ?thesis using rsm_reach.boot [of restore n i d m sm0 _ doOp snap L] assms(2) by (auto simp: rep_def)
qed

lemma rsm_recv_command:
  assumes a: "rep L (A i)" "rsm_lastApplied (A i) = int k" "k < length L"
    and c: "am_CommandValid msg" "am_CommandIndex msg = int k + 1" "am_Command msg = Some (L ! k)"
  shows "receives rsm_lastApplied rep taken L (int k + 1) (rsm_recv doOp snap restore sz i msg rf A)"
proof (cases "rsm_shutdown (A i)")
  case False
  let ?r = "(A i)\<lparr>rsm_rf := rf\<rparr>"
  have r: "rsm_reach doOp snap restore sm0 L ?r" "rsm_maxraftstate ?r = m" using rsm_reach.raft a(1) by (auto simp: rep_def)
  obtain b rsm' where ap: "applyCommand doOp sz msg ?r = Some (b, rsm')"
    "rsm_lastApplied rsm' = int k + 1" "rsm_maxraftstate rsm' = m" "b \<longrightarrow> 0 < m"
    using applyCommand_next [OF c(3), of ?r doOp sz] c(2) a(2) r(2) by auto
  have "rsm_reach doOp snap restore sm0 L rsm'"
    by (rule rsm_reach.command [OF r(1) _ _ _ _ ap(1)]) (use a c in auto)
  then show ?thesis
    using ap c(1) False by (auto simp: receives_def rsm_recv_def Let_def rep_def taken_def snapshot_of_def)
qed (simp add: receives_def rsm_recv_def)

lemma rsm_recv_snapshot:
  assumes a: "rep L (A i)" "rsm_lastApplied (A i) < am_SnapshotIndex msg"
    and c: "\<not> am_CommandValid msg" "am_SnapshotValid msg" "taken L (am_SnapshotIndex msg) (am_Snapshot msg)"
  shows "receives rsm_lastApplied rep taken L (am_SnapshotIndex msg) (rsm_recv doOp snap restore sz i msg rf A)"
proof (cases "rsm_shutdown (A i)")
  case False
  let ?r = "(A i)\<lparr>rsm_rf := rf\<rparr>"
  have r: "rsm_reach doOp snap restore sm0 L ?r" "rsm_maxraftstate ?r = m" using rsm_reach.raft a(1) by (auto simp: rep_def)
  obtain rsm2 where r2: "rsm_reach doOp snap restore sm0 L rsm2" "rsm_lastApplied rsm2 = am_SnapshotIndex msg"
    "am_Snapshot msg = snapshot_of snap rsm2" using c(3) by (auto simp: taken_def)
  obtain s where s: "restore (snap (rsm_sm rsm2)) (rsm_sm (A i)) = Some s" using restore_total by blast
  obtain rsm' where ap: "applySnapshot restore msg ?r = Some rsm'"
    "rsm_lastApplied rsm' = am_SnapshotIndex msg" "rsm_maxraftstate rsm' = m"
    using a(2) r2(2) r(2) s by (simp add: applySnapshot_def r2(3) snapshot_of_def Let_def)
  have "rsm_reach doOp snap restore sm0 L rsm'" by (rule rsm_reach.install [OF r(1) r2(1,3) ap(1)])
  then show ?thesis using ap c False by (auto simp: receives_def rsm_recv_def Let_def rep_def)
qed (simp add: receives_def rsm_recv_def)

lemma rsm_acts_max: "rsm_acts rf rsm rf' rsm' \<Longrightarrow> rsm_maxraftstate rsm' = rsm_maxraftstate rsm"
  by (induction rule: rsm_acts.induct)
     (auto simp: doSubmit_start_def doSubmit_register_def waitForResult_def doSubmit_finish_def handleShutdown_def
      rsm_Kill_def doShutdown_def notifyPendingOps_def Let_def
      split: if_splits Option.bind_splits prod.splits wait_case.splits option.splits bool.splits)

end

sublocale replicated_cluster \<subseteq> rsms: consumer n "rsm_start restore sm0 n m" "rsm_recv doOp snap restore sz"
  rsm_acts rsm_lastApplied rep taken
proof unfold_locales
  fix L L' :: "'q Op list" and rsm :: "('q, 'a, 's, 'x) RSM"
  show "0 \<le> rsm_lastApplied rsm \<and> rsm_lastApplied rsm \<le> int (length L)" "rep (L @ L') rsm" if "rep L rsm"
    using that by (auto simp: rep_def dest: rsm_reach_pos intro: rsm_reach_more)
  show "taken (L @ L') k d" if "taken L k d" for k d using that by (auto simp: taken_def intro: rsm_reach_more)
  show "Make n i d = Some rf" if "rsm_start restore sm0 n m i d = Some (rf, rsm)" for i d rf
    using that by (auto simp: rsm_start_def MakeRSM_def Let_def split: Option.bind_splits if_splits)
  show "\<exists>a. rsm_start restore sm0 n m i d = Some (rf, a) \<and> rsm_lastApplied a = 0 \<and> rep L a"
    if "Make n i d = Some rf" "ReadSnapshot d = []" for i d rf
    using MakeRSM_new [OF that, of L] by (auto simp: rsm_start_def)
  show "\<exists>a. rsm_start restore sm0 n m i d = Some (rf, a) \<and> rsm_lastApplied a = k \<and> rep L a"
    if "Make n i d = Some rf" "taken L k (ReadSnapshot d)" for i d rf k
    using MakeRSM_taken [OF that] by (auto simp: rsm_start_def)
  show "rsm_lastApplied a' = rsm_lastApplied a \<and> (rep L a \<longrightarrow> rep L a')"
    "rf' = rf \<or> rf' = Kill rf \<or> (\<exists>c r. Start c rf = Some (r, rf'))" if "rsm_acts rf a rf' a'" for rf rf' a a'
    using rsm_acts_pos [OF that] rsm_acts_reach [OF that] rsm_acts_max [OF that] rsm_acts_peer [OF that] by (auto simp: rep_def)
qed (use rsm_recv_command rsm_recv_snapshot in blast)+

text \<open>
  So all replicas follow one log, each entry of which was delivered by some peer on the way, as far
  as a view \<open>V\<close> of their states shows it, and a waiter is told the reply of that log.
\<close>

context replicated_cluster
begin

lemma rep_follows:
  assumes "rep log rsm" and view: "\<And>qs s t. R qs s t \<Longrightarrow> V s = W t"
  shows "\<exists>k. rsm_lastApplied rsm = int k \<and> k \<le> length log \<and> (good (map op_Req (take k log)) \<longrightarrow>
    V (rsm_sm rsm) = W (snd (run_ops spec (map op_Req (take k log)) t0)))"
proof -
  have inv: "rsm_inv log rsm" using rsm_reach_inv assms(1) by (simp add: rep_def)
  obtain k where k: "rsm_lastApplied rsm = int k" using rsm_inv_index [OF inv] by blast
  show ?thesis using rsm_invD(1,2) [OF inv k] k view by (auto simp: stands_def state_at_def take_map)
qed

lemma rep_told:
  assumes "rep log rsm" and "fst (waitForResult expired c p t rsm) = Returns OK res"
  shows "\<exists>k < length log. op_Id (log ! k) = op_Id (po_op (rsm_heap rsm ! p))
    \<and> (good (map op_Req (take (Suc k) log)) \<longrightarrow> res = Some (fst (run_ops spec (map op_Req log) t0) ! k))"
proof -
  have "rsm_reach doOp snap restore sm0 log rsm" using assms(1) by (simp add: rep_def)
  from waited [OF this assms(2)] obtain k where k: "k < length log" "op_Id (log ! k) = op_Id (po_op (rsm_heap rsm ! p))"
    "good (map op_Req (take (Suc k) log)) \<longrightarrow> res = Some (reply_at spec t0 (map op_Req log) k)"
    by (auto simp: take_map)
  have "reply_at spec t0 (map op_Req log) k = fst (run_ops spec (map op_Req log) t0) ! k"
    by (rule run_ops_reply [symmetric]) (use k(1) in simp)
  then show ?thesis using k by auto
qed

lemma replicas_follow:
  assumes "sinit n (rsm_start restore sm0 n m) S0" "rsms.sv_step\<^sup>*\<^sup>* S0 S" "rsms.sv_step\<^sup>*\<^sup>* S S'"
    and "\<And>qs s t. R qs s t \<Longrightarrow> V s = W t"
  shows "\<exists>log. heard n rsms.sv_step S0 S' log
     \<and> (\<forall>i < n. \<forall>msg \<in> set (applyCh (sv_peer S' i)). \<forall>k < length log. am_CommandValid msg \<longrightarrow>
          am_CommandIndex msg = int k + 1 \<longrightarrow> am_Command msg = Some (log ! k))
     \<and> (\<forall>i < n. \<forall>T \<in> {S, S'}. \<exists>k. rsm_lastApplied (sv_app T i) = int k \<and> k \<le> length log
          \<and> (good (map op_Req (take k log)) \<longrightarrow>
             V (rsm_sm (sv_app T i)) = W (snd (run_ops spec (map op_Req (take k log)) t0))))"
proof -
  obtain log where "heard n rsms.sv_step S0 S' log" "\<And>i T. i < n \<Longrightarrow> T \<in> {S, S'} \<Longrightarrow> rep log (sv_app T i)"
    "\<forall>i < n. \<forall>msg \<in> set (applyCh (sv_peer S' i)). \<forall>k < length log. am_CommandValid msg \<longrightarrow>
       am_CommandIndex msg = int k + 1 \<longrightarrow> am_Command msg = Some (log ! k)"
    using rsms.one_log [OF assms(1-3)] by blast
  then show ?thesis by (intro exI [of _ log] conjI allI ballI impI rep_follows assms(4)) simp_all
qed

lemma waiter_told:
  assumes "sinit n (rsm_start restore sm0 n m) S0" "rsms.sv_step\<^sup>*\<^sup>* S0 S" "i < n"
    and "fst (waitForResult expired c p t (sv_app S i)) = Returns OK res"
  shows "\<exists>log. heard n rsms.sv_step S0 S log
     \<and> (\<forall>j < n. \<forall>msg \<in> set (applyCh (sv_peer S j)). \<forall>k < length log. am_CommandValid msg \<longrightarrow>
          am_CommandIndex msg = int k + 1 \<longrightarrow> am_Command msg = Some (log ! k))
     \<and> (\<exists>k < length log. op_Id (log ! k) = op_Id (po_op (rsm_heap (sv_app S i) ! p))
          \<and> (good (map op_Req (take (Suc k) log)) \<longrightarrow> res = Some (fst (run_ops spec (map op_Req log) t0) ! k)))"
proof -
  obtain log where "heard n rsms.sv_step S0 S log" "rep log (sv_app S i)"
    "\<forall>j < n. \<forall>msg \<in> set (applyCh (sv_peer S j)). \<forall>k < length log. am_CommandValid msg \<longrightarrow>
       am_CommandIndex msg = int k + 1 \<longrightarrow> am_Command msg = Some (log ! k)"
    using rsms.one_log [OF assms(1,2) rtranclp.rtrancl_refl] assms(3) by blast
  then show ?thesis by (intro exI [of _ log] conjI rep_told [OF _ assms(4)])
qed

end

end
