(* ===== verification/KVCluster.thy ===== *)
theory KVCluster
  imports KVService RSMCluster
begin

text \<open>
  The replicated key/value service on a whole cluster: servers of src/src/kvraft1/server.go, each on
  the layer of rsm/rsm.go and a peer of raft1/raft.go, with any clients, crashes and losses.
\<close>

abbreviation kv_init :: "nat \<Rightarrow> int \<Rightarrow> (any_req Op, kvr_gob rsm_gob, KVRsm) Service \<Rightarrow> bool" where
  "kv_init n m \<equiv> sinit n (rsm_start kvr_Restore kvr_init n m)"

abbreviation kv_step :: "nat \<Rightarrow> int \<Rightarrow> (any_req Op gob \<Rightarrow> nat)
    \<Rightarrow> (any_req Op, kvr_gob rsm_gob, KVRsm) Service \<Rightarrow> (any_req Op, kvr_gob rsm_gob, KVRsm) Service \<Rightarrow> bool" where
  "kv_step n m sz \<equiv> sstep n (rsm_start kvr_Restore kvr_init n m) (rsm_recv DoOp kvr_Snapshot kvr_Restore sz) rsm_acts"

interpretation kvc: replicated_cluster DoOp kvr_Snapshot kvr_Restore kvr_init once_op "(Map.empty, Map.empty)"
  "\<lambda>qs. agrees 9 (rev qs)" "\<lambda>qs. lags 9 qs \<and> positive_seqs qs" n m sz for n m sz
  by unfold_locales (simp add: Restore_Snapshot)


text \<open>
  C13: no server fails.  In every state of a cluster of servers, whatever message a reader takes from
  its peer next, a command or a snapshot, it can process it; a snapshot it hands over is accepted;
  and a server can be restarted from whatever a crash leaves on disk, also in the middle of a
  handler.
\<close>

theorem kv_never_panics:
  assumes "kv_init n m S0" "(kv_step n m sz)\<^sup>*\<^sup>* S0 S" "i < n"
  shows "(sv_read S i < length (applyCh (sv_peer S i)) \<longrightarrow> rsm_recv DoOp kvr_Snapshot kvr_Restore sz i
        (applyCh (sv_peer S i) ! sv_read S i) (sv_peer S i) (sv_app S) \<noteq> None)
     \<and> (\<forall>k d. sv_due S i = Some (k, d) \<longrightarrow> Snapshot k (Some d) (sv_peer S i) \<noteq> None)
     \<and> (\<forall>d. at_crash n (sv_cluster S) i d \<longrightarrow> (MakeRSM kvr_Restore n i (Copy d) m kvr_init :: KVRsm option) \<noteq> None)"
  using kvc.rsms.no_panic [OF assms] by (auto simp: rsm_start_def)


section \<open>A run\<close>

text \<open>
  Three servers.  Server 0 is elected, a client submits a \<open>Put\<close> to it, the operation is registered,
  replicated to server 1 and delivered on both, and both readers take it.
\<close>

definition ex_sv0 :: "(any_req Op, kvr_gob rsm_gob, KVRsm) Service" where
  "ex_sv0 = \<lparr>sv_cluster = ex_boot, sv_app = (\<lambda>i. ex_kvs\<lparr>rsm_me := i, rsm_rf := boot 3 i MakePersister\<rparr>),
     sv_read = (\<lambda>_. 0), sv_due = (\<lambda>_. None)\<rparr>"

definition ex_sub :: KVRsm where
  "ex_sub = ex_kvs\<lparr>rsm_me := 0, rsm_rf := ex_run (ex_op 0) 0, rsm_opId := 1\<rparr>"

definition ex_reg :: KVRsm where
  "ex_reg = snd (doSubmit_register (ex_op 0) 1 ex_sub)"

definition ex_sv1 :: "(any_req Op, kvr_gob rsm_gob, KVRsm) Service" where
  "ex_sv1 = sv_put 0 (ex_run (ex_op 0) 0) ex_sub 0 None (ex_sv0\<lparr>sv_cluster := ex_elected\<rparr>)"

definition ex_sv2 :: "(any_req Op, kvr_gob rsm_gob, KVRsm) Service" where
  "ex_sv2 = (sv_put 0 (sv_peer ex_sv1 0) ex_reg 0 None ex_sv1)\<lparr>sv_cluster := ex_state (ex_op 0) 7\<rparr>"

definition ex_take :: "nat \<Rightarrow> (any_req Op, kvr_gob rsm_gob, KVRsm) Service \<Rightarrow> KVRsm" where
  "ex_take i S = fst (the (the (rsm_recv DoOp kvr_Snapshot kvr_Restore (\<lambda>_. 1) i (command_msg (ex_cmd (ex_op 0)))
     (sv_peer S i) (sv_app S))))"

definition ex_sv3 :: "(any_req Op, kvr_gob rsm_gob, KVRsm) Service" where
  "ex_sv3 = sv_put 0 (sv_peer ex_sv2 0) (ex_take 0 ex_sv2) 1 None ex_sv2"

definition ex_sv4 :: "(any_req Op, kvr_gob rsm_gob, KVRsm) Service" where
  "ex_sv4 = sv_put 1 (sv_peer ex_sv3 1) (ex_take 1 ex_sv3) 1 None ex_sv3"

lemma ex_start_kv: "kv_init 3 (-1) ex_sv0"
  by (auto simp: sinit_def ex_sv0_def ex_boot_def rsm_start_def MakeRSM_def Make_boot readPersist_def decode_state_def
      ex_kvs_def)

lemma ex_sv_steps:
  "(kv_step 3 (-1) (\<lambda>_. 1))\<^sup>*\<^sup>* ex_sv0 (ex_sv0\<lparr>sv_cluster := ex_elected\<rparr>)"
  "kv_step 3 (-1) (\<lambda>_. 1) (ex_sv0\<lparr>sv_cluster := ex_elected\<rparr>) ex_sv1"
  "(kv_step 3 (-1) (\<lambda>_. 1))\<^sup>*\<^sup>* ex_sv1 ex_sv2"
proof -
  have "(pstep 3)\<^sup>*\<^sup>* (sv_cluster ex_sv0) ex_elected" by (simp add: ex_sv0_def ex_peer_runs)
  then show "(kv_step 3 (-1) (\<lambda>_. 1))\<^sup>*\<^sup>* ex_sv0 (ex_sv0\<lparr>sv_cluster := ex_elected\<rparr>)" by (rule sv_peers)
  let ?S = "ex_sv0\<lparr>sv_cluster := ex_elected\<rparr>"
  have op: "\<lparr>op_Me = 0, op_Id = 1, op_Req = op_Req (ex_op 0)\<rparr> = ex_op 0" by (simp add: ex_op_def)
  have "doSubmit_start (op_Req (ex_op 0)) ((sv_app ?S 0)\<lparr>rsm_rf := sv_peer ?S 0\<rparr>) = Some (Some (ex_op 0, 1, 1), ex_sub)"
    by (simp add: doSubmit_start_def isShutdown_def ex_sv0_def ex_kvs_def op ex_start ex_sub_def Let_def)
  then have "rsm_acts (sv_peer ?S 0) (sv_app ?S 0) (rsm_rf ex_sub) ex_sub" by (rule rsm_acts.submit)
  then have "kv_step 3 (-1) (\<lambda>_. 1) ?S (sv_put 0 (rsm_rf ex_sub) ex_sub (sv_read ?S 0) (sv_due ?S 0) ?S)"
    by (intro sstep.act) simp_all
  moreover have "rsm_rf ex_sub = ex_run (ex_op 0) 0" "sv_read ?S 0 = 0" "sv_due ?S 0 = None"
    by (simp_all add: ex_sub_def ex_sv0_def)
  ultimately show "kv_step 3 (-1) (\<lambda>_. 1) ?S ex_sv1" by (simp add: ex_sv1_def)
  let ?T = "sv_put 0 (sv_peer ex_sv1 0) ex_reg 0 None ex_sv1"
  have "rsm_acts (sv_peer ex_sv1 0) (sv_app ex_sv1 0) (sv_peer ex_sv1 0) ex_reg"
    unfolding ex_reg_def by (simp add: ex_sv1_def rsm_acts.register)
  then have "kv_step 3 (-1) (\<lambda>_. 1) ex_sv1 (sv_put 0 (sv_peer ex_sv1 0) ex_reg (sv_read ex_sv1 0) (sv_due ex_sv1 0) ex_sv1)"
    by (intro sstep.act) simp_all
  then have 1: "kv_step 3 (-1) (\<lambda>_. 1) ex_sv1 ?T" by (simp add: ex_sv1_def)
  have c: "sv_cluster ?T = ex_state (ex_op 0) 0" by (simp add: ex_sv1_def put_def)
  have "(kv_step 3 (-1) (\<lambda>_. 1))\<^sup>*\<^sup>* ?T ex_sv2"
    unfolding ex_sv2_def by (rule sv_peers) (simp only: c ex_peer_runs)
  with 1 show "(kv_step 3 (-1) (\<lambda>_. 1))\<^sup>*\<^sup>* ex_sv1 ex_sv2" by (rule converse_rtranclp_into_rtranclp)
qed

lemma ex_sv2_simps:
  "sv_peer ex_sv2 0 = ex_run (ex_op 0) 2" "sv_peer ex_sv2 1 = ex_peer (ex_op 0) 2" "sv_read ex_sv2 i = 0" "sv_due ex_sv2 i = None"
  "sv_app ex_sv2 0 = ex_reg" "sv_app ex_sv2 1 = ex_kvs\<lparr>rsm_me := 1, rsm_rf := boot 3 1 MakePersister\<rparr>"
  by (simp_all add: ex_sv2_def ex_sv1_def ex_sv0_def ex_state_nodes(14,15) [unfolded One_nat_def])

lemma ex_kv_recv:
  assumes "rsm_lastApplied (sv_app S i) = 0" "\<not> rsm_shutdown (sv_app S i)" "rsm_maxraftstate (sv_app S i) = -1"
  shows "rsm_recv DoOp kvr_Snapshot kvr_Restore (\<lambda>_. 1) i (command_msg (ex_cmd (ex_op 0))) (sv_peer S i) (sv_app S)
      = Some (Some (ex_take i S, None))"
    and "rsm_lastApplied (ex_take i S) = 1"
proof -
  let ?r = "(sv_app S i)\<lparr>rsm_rf := sv_peer S i\<rparr>"
  obtain b rsm where a: "applyCommand DoOp (\<lambda>_. 1) (command_msg (ex_cmd (ex_op 0))) ?r = Some (b, rsm)"
    "rsm_lastApplied rsm = 1" "\<not> b"
    using applyCommand_next [of "command_msg (ex_cmd (ex_op 0))" "ex_op 0" ?r DoOp "\<lambda>_. 1"] assms
    by (auto simp: command_msg_def ex_cmd_def)
  then have "rsm_recv DoOp kvr_Snapshot kvr_Restore (\<lambda>_. 1) i (command_msg (ex_cmd (ex_op 0))) (sv_peer S i) (sv_app S)
      = Some (Some (rsm, None))"
    using assms(2) by (simp add: rsm_recv_def command_msg_def)
  then show "rsm_recv DoOp kvr_Snapshot kvr_Restore (\<lambda>_. 1) i (command_msg (ex_cmd (ex_op 0))) (sv_peer S i) (sv_app S)
      = Some (Some (ex_take i S, None))" "rsm_lastApplied (ex_take i S) = 1"
    using a(2) by (simp_all add: ex_take_def)
qed

lemma ex_reg_simps:
  "rsm_lastApplied ex_reg = 0" "\<not> rsm_shutdown ex_reg" "rsm_maxraftstate ex_reg = -1"
  by (simp_all add: ex_reg_def doSubmit_register_def isShutdown_def ex_sub_def ex_kvs_def Let_def)

lemma ex_sv_taken:
  "kv_step 3 (-1) (\<lambda>_. 1) ex_sv2 ex_sv3" "kv_step 3 (-1) (\<lambda>_. 1) ex_sv3 ex_sv4"
  "rsm_lastApplied (sv_app ex_sv3 0) = 1" "rsm_lastApplied (sv_app ex_sv4 1) = 1"
proof -
  note s = ex_sv2_simps [unfolded One_nat_def]
  have "kv_step 3 (-1) (\<lambda>_. 1) ex_sv2 (sv_put 0 (sv_peer ex_sv2 0) (ex_take 0 ex_sv2) (Suc (sv_read ex_sv2 0)) None ex_sv2)"
    by (rule sstep.recv) (use ex_kv_recv(1) [of ex_sv2 0] ex_reg_simps in \<open>simp_all add: s(1,3,4,5) ex_delivered\<close>)
  then show "kv_step 3 (-1) (\<lambda>_. 1) ex_sv2 ex_sv3" by (simp add: ex_sv3_def s)
  show "rsm_lastApplied (sv_app ex_sv3 0) = 1" using ex_kv_recv(2) [of ex_sv2 0] ex_reg_simps by (simp add: ex_sv3_def s)
  have s3: "sv_peer ex_sv3 1 = ex_peer (ex_op 0) 2" "sv_read ex_sv3 1 = 0" "sv_due ex_sv3 1 = None"
    "sv_app ex_sv3 1 = ex_kvs\<lparr>rsm_me := 1, rsm_rf := boot 3 1 MakePersister\<rparr>"
    by (simp_all add: ex_sv3_def s)
  have k: "rsm_lastApplied (sv_app ex_sv3 1) = 0" "\<not> rsm_shutdown (sv_app ex_sv3 1)" "rsm_maxraftstate (sv_app ex_sv3 1) = -1"
    unfolding s3 by (simp_all add: ex_kvs_def)
  have "kv_step 3 (-1) (\<lambda>_. 1) ex_sv3 (sv_put 1 (sv_peer ex_sv3 1) (ex_take 1 ex_sv3) (Suc (sv_read ex_sv3 1)) None ex_sv3)"
    by (rule sstep.recv) (use ex_kv_recv(1) [OF k] s3 in \<open>simp_all add: ex_delivered\<close>)
  then show "kv_step 3 (-1) (\<lambda>_. 1) ex_sv3 ex_sv4" using s3(2) by (simp add: ex_sv4_def)
  show "rsm_lastApplied (sv_app ex_sv4 1) = 1" using ex_kv_recv(2) [OF k] by (simp add: ex_sv4_def)
qed

lemma ex_kv_reach:
  "(kv_step 3 (-1) (\<lambda>_. 1))\<^sup>*\<^sup>* ex_sv0 ex_sv3" "(kv_step 3 (-1) (\<lambda>_. 1))\<^sup>*\<^sup>* ex_sv3 ex_sv4"
proof -
  have "(kv_step 3 (-1) (\<lambda>_. 1))\<^sup>*\<^sup>* ex_sv0 ex_sv2"
    by (rule rtranclp_trans [OF ex_sv_steps(1) converse_rtranclp_into_rtranclp [OF ex_sv_steps(2,3)]])
  then show "(kv_step 3 (-1) (\<lambda>_. 1))\<^sup>*\<^sup>* ex_sv0 ex_sv3"
    using ex_sv_taken(1) by (rule rtranclp.rtrancl_into_rtrancl)
  show "(kv_step 3 (-1) (\<lambda>_. 1))\<^sup>*\<^sup>* ex_sv3 ex_sv4" using ex_sv_taken(2) by (rule r_into_rtranclp)
qed

lemma ex_heads:
  "sv_peer ex_sv3 0 = ex_run (ex_op 0) 2" "sv_peer ex_sv4 0 = ex_run (ex_op 0) 2"
  "sv_app ex_sv3 0 = ex_take 0 ex_sv2" "sv_app ex_sv4 0 = ex_take 0 ex_sv2"
  using ex_sv2_simps(1) by (simp_all add: ex_sv3_def ex_sv4_def)

lemma ex_first:
  assumes "\<forall>i < 3. \<forall>msg \<in> set (applyCh (P i)). \<forall>k < length log. am_CommandValid msg \<longrightarrow>
       am_CommandIndex msg = int k + 1 \<longrightarrow> am_Command msg = Some (log ! k)"
    and "P (0::nat) = ex_run (ex_op 0) 2" and "log \<noteq> []"
  shows "take 1 log = [ex_op 0]"
proof -
  have "command_msg (ex_cmd (ex_op 0)) \<in> set (applyCh (P 0))" by (simp add: assms(2) ex_delivered)
  then have "am_Command (command_msg (ex_cmd (ex_op 0))) = Some (log ! 0)"
    using assms(1) [rule_format, of 0 "command_msg (ex_cmd (ex_op 0))" 0] assms(3) by (simp add: command_msg_def ex_cmd_def)
  then show ?thesis using assms(3) by (cases log) (simp_all add: command_msg_def ex_cmd_def)
qed

lemma ex_log_fine: "lags 9 (map op_Req [ex_op 0])" "positive_seqs (map op_Req [ex_op 0])"
  by (simp_all add: lags_def positive_seqs_def ex_op_def ex_put_def)


theorem kv_never_panics_witness:
  "rsm_recv DoOp kvr_Snapshot kvr_Restore (\<lambda>_. 1) 1 (command_msg (ex_cmd (ex_op 0))) (sv_peer ex_sv3 1) (sv_app ex_sv3) \<noteq> None"
proof -
  have "sv_read ex_sv3 1 = 0" "sv_peer ex_sv3 1 = ex_peer (ex_op 0) 2"
    using ex_sv2_simps [unfolded One_nat_def] by (simp_all add: ex_sv3_def)
  then show ?thesis using kv_never_panics [OF ex_start_kv ex_kv_reach(1), of 1] by (simp add: ex_delivered)
qed

text \<open>The registered operation is answered when the reader takes the command.\<close>

lemma ex_answered:
  "rsm_heap (ex_take 0 ex_sv2) = [\<lparr>po_op = ex_op 0, po_result = Some (fst (DoOp (op_Req (ex_op 0)) kvr_init)), po_done = Some True\<rparr>]"
  "rsm_shutdown (ex_take 0 ex_sv2) = False"
  by (simp_all add: ex_take_def ex_sv2_simps rsm_recv_def command_msg_def ex_cmd_def applyCommand_def Let_def
      ex_reg_def doSubmit_register_def isShutdown_def ex_sub_def ex_kvs_def send_done_def ex_op_def split_beta)


end
