(* ===== verification/Counter.thy ===== *)
theory Counter
  imports RSMCluster
begin

text \<open>
  The counter that the tests of the replicated state machine layer run on it
  (src/src/kvraft1/rsm/server.go), as a second state machine of the contract \<open>replicated\<close>.
\<close>

section \<open>The state machine\<close>

datatype cnt_req = Inc | Null | Dec

datatype cnt_rep = IncRep int | NullRep

text \<open>The reply \<open>None\<close> is \<open>log.Fatalf\<close>.\<close>

definition cnt_DoOp :: "cnt_req \<Rightarrow> int \<Rightarrow> cnt_rep option \<times> int" where
  "cnt_DoOp req counter =
     (case req of
        Inc \<Rightarrow> (let counter = counter + 1 in (Some (IncRep counter), counter))
      | Null \<Rightarrow> (Some NullRep, counter)
      | _ \<Rightarrow> (None, counter))"

definition cnt_Snapshot :: "int \<Rightarrow> int list" where
  "cnt_Snapshot counter = [counter]"

definition cnt_Restore :: "int list \<Rightarrow> int \<Rightarrow> int option" where
  "cnt_Restore data counter = (case data of [] \<Rightarrow> None | c # _ \<Rightarrow> Some c)"

text \<open>The server; its counter is the state machine of its layer, and \<open>None\<close> is a layer that is \<open>nil\<close>.\<close>

type_synonym CntRsm = "(cnt_req, cnt_rep option, int, int) RSM"

record rsmSrv =
  rv_me :: nat
  rv_rsm :: "CntRsm option"

definition makeRsmSrv :: "nat \<Rightarrow> nat \<Rightarrow> (cnt_req Op, int rsm_gob) disk \<Rightarrow> int \<Rightarrow> rsmSrv option" where
  "makeRsmSrv n srv ps maxraftstate = do {
     rsm \<leftarrow> MakeRSM cnt_Restore n srv ps maxraftstate 0;
     Some \<lparr>rv_me = srv, rv_rsm = Some rsm\<rparr>
   }"

definition rsmSrv_Kill :: "rsmSrv \<Rightarrow> (CntRsm \<times> rsmSrv) option" where
  "rsmSrv_Kill rs = do { rsm \<leftarrow> rv_rsm rs; Some (rsm_Kill rsm, rs\<lparr>rv_rsm := None\<rparr>) }"

definition rsmSrv_Raft :: "rsmSrv \<Rightarrow> (cnt_req Op, int rsm_gob) Raft option" where
  "rsmSrv_Raft rs = map_option rsm_rf (rv_rsm rs)"

section \<open>Counting\<close>

text \<open>The specification counts increments.\<close>

definition cnt_op :: "cnt_req \<Rightarrow> nat \<Rightarrow> cnt_rep option \<times> nat" where
  "cnt_op q k = (case q of Inc \<Rightarrow> (Some (IncRep (int (Suc k))), Suc k) | Null \<Rightarrow> (Some NullRep, k) | Dec \<Rightarrow> (None, k))"

lemma run_cnt:
  "snd (run_ops cnt_op qs k) = k + count_list qs Inc"
  by (induction qs arbitrary: k) (simp_all add: cnt_op_def split_beta Let_def split: cnt_req.splits)

lemma cnt_reply:
  assumes "k < length log"
  shows "fst (run_ops cnt_op (map op_Req log) 0) ! k =
    (case op_Req (log ! k) of
       Inc \<Rightarrow> Some (IncRep (int (count_list (map op_Req (take (Suc k) log)) Inc))) | Null \<Rightarrow> Some NullRep | Dec \<Rightarrow> None)"
  using assms
  by (simp add: run_ops_reply reply_at_def state_at_def run_cnt cnt_op_def take_Suc_conv_app_nth take_map split: cnt_req.splits)

interpretation cnt: replicated_cluster cnt_DoOp cnt_Snapshot cnt_Restore 0 cnt_op 0
  "\<lambda>qs s t. s = int t" "\<lambda>_. True" n m sz for n m sz
  by unfold_locales (auto simp: cnt_DoOp_def cnt_op_def cnt_Snapshot_def cnt_Restore_def Let_def split: cnt_req.splits)

abbreviation cnt_init :: "nat \<Rightarrow> int \<Rightarrow> (cnt_req Op, int rsm_gob, CntRsm) Service \<Rightarrow> bool" where
  "cnt_init n m \<equiv> sinit n (rsm_start cnt_Restore 0 n m)"

abbreviation cnt_step :: "nat \<Rightarrow> int \<Rightarrow> (cnt_req Op gob \<Rightarrow> nat)
    \<Rightarrow> (cnt_req Op, int rsm_gob, CntRsm) Service \<Rightarrow> (cnt_req Op, int rsm_gob, CntRsm) Service \<Rightarrow> bool" where
  "cnt_step n m sz \<equiv> sstep n (rsm_start cnt_Restore 0 n m) (rsm_recv cnt_DoOp cnt_Snapshot cnt_Restore sz) rsm_acts"

text \<open>
  C15: the counter on a cluster.  Without any condition on the clients there is one log, delivered
  everywhere, such that the counter of a server that has applied \<open>k\<close> entries is the number of
  increments among the first \<open>k\<close>; and a successful submission is told, for an entry with its
  operation number, the number of increments up to it.
\<close>

theorem counter_counts:
  assumes "cnt_init n m S0" "(cnt_step n m sz)\<^sup>*\<^sup>* S0 S"
  shows "\<exists>log. heard n (cnt_step n m sz) S0 S log
     \<and> (\<forall>i < n. \<forall>msg \<in> set (applyCh (sv_peer S i)). \<forall>k < length log. am_CommandValid msg \<longrightarrow>
          am_CommandIndex msg = int k + 1 \<longrightarrow> am_Command msg = Some (log ! k))
     \<and> (\<forall>i < n.
     (\<exists>k \<le> length log. rsm_lastApplied (sv_app S i) = int k
        \<and> rsm_sm (sv_app S i) = int (count_list (map op_Req (take k log)) Inc))
     \<and> (\<forall>expired c p t res. fst (waitForResult expired c p t (sv_app S i)) = Returns OK res \<longrightarrow>
        (\<exists>k < length log. op_Id (log ! k) = op_Id (po_op (rsm_heap (sv_app S i) ! p))
          \<and> res = Some (case op_Req (log ! k) of
               Inc \<Rightarrow> Some (IncRep (int (count_list (map op_Req (take (Suc k) log)) Inc)))
             | Null \<Rightarrow> Some NullRep | Dec \<Rightarrow> None))))"
proof -
  obtain log where log: "heard n (cnt_step n m sz) S0 S log" "\<And>i. i < n \<Longrightarrow> cnt.rep m log (sv_app S i)"
    "\<forall>i < n. \<forall>msg \<in> set (applyCh (sv_peer S i)). \<forall>k < length log. am_CommandValid msg \<longrightarrow>
       am_CommandIndex msg = int k + 1 \<longrightarrow> am_Command msg = Some (log ! k)"
    using cnt.rsms.one_log [OF assms rtranclp.rtrancl_refl] by blast
  have "\<exists>k \<le> length log. rsm_lastApplied (sv_app S i) = int k
      \<and> rsm_sm (sv_app S i) = int (count_list (map op_Req (take k log)) Inc)" if "i < n" for i
    using cnt.rep_follows [OF log(2) [OF that], of "\<lambda>s. s" int] by (auto simp: run_cnt)
  moreover have "\<exists>k < length log. op_Id (log ! k) = op_Id (po_op (rsm_heap (sv_app S i) ! p))
      \<and> res = Some (case op_Req (log ! k) of
           Inc \<Rightarrow> Some (IncRep (int (count_list (map op_Req (take (Suc k) log)) Inc)))
         | Null \<Rightarrow> Some NullRep | Dec \<Rightarrow> None)"
    if "i < n" "fst (waitForResult expired c p t (sv_app S i)) = Returns OK res" for i expired c p t res
    using cnt.rep_told [OF log(2) [OF that(1)] that(2)] by (auto simp: cnt_reply)
  ultimately show ?thesis using log(1,3) by blast
qed

section \<open>A run\<close>

text \<open>Three servers: server 0 is elected, is given an increment, and takes it once it is committed.\<close>

definition ex_inc :: "cnt_req Op" where
  "ex_inc = \<lparr>op_Me = 0, op_Id = 1, op_Req = Inc\<rparr>"

definition ex_cn_app :: "nat \<Rightarrow> CntRsm" where
  "ex_cn_app i = \<lparr>rsm_me = i, rsm_rf = boot 3 i MakePersister, rsm_maxraftstate = -1, rsm_sm = 0, rsm_opId = 0,
     rsm_lastApplied = 0, rsm_pendingOps = [], rsm_heap = [], rsm_shutdown = False, rsm_shutdownCh = False\<rparr>"

definition ex_cn0 :: "(cnt_req Op, int rsm_gob, CntRsm) Service" where
  "ex_cn0 = \<lparr>sv_cluster = ex_boot, sv_app = ex_cn_app, sv_read = (\<lambda>_. 0), sv_due = (\<lambda>_. None)\<rparr>"

definition ex_cn_sub :: CntRsm where
  "ex_cn_sub = (ex_cn_app 0)\<lparr>rsm_rf := ex_run ex_inc 0, rsm_opId := 1\<rparr>"

definition ex_cn1 :: "(cnt_req Op, int rsm_gob, CntRsm) Service" where
  "ex_cn1 = sv_put 0 (ex_run ex_inc 0) ex_cn_sub 0 None (ex_cn0\<lparr>sv_cluster := ex_elected\<rparr>)"

definition ex_cn2 :: "(cnt_req Op, int rsm_gob, CntRsm) Service" where
  "ex_cn2 = ex_cn1\<lparr>sv_cluster := ex_state ex_inc 7\<rparr>"

definition ex_cn3 :: "(cnt_req Op, int rsm_gob, CntRsm) Service" where
  "ex_cn3 = sv_put 0 (ex_run ex_inc 2) (ex_cn_sub\<lparr>rsm_rf := ex_run ex_inc 2, rsm_sm := 1, rsm_lastApplied := 1\<rparr>) 1 None ex_cn2"

lemma ex_cn_init: "cnt_init 3 (-1) ex_cn0"
  by (simp add: sinit_def ex_cn0_def ex_boot_def rsm_start_def MakeRSM_def Make_fresh ex_cn_app_def)

lemma ex_cn_steps: "(cnt_step 3 (-1) (\<lambda>_. 1))\<^sup>*\<^sup>* ex_cn0 ex_cn3"
proof -
  let ?st = "cnt_step 3 (-1) (\<lambda>_. 1)" and ?S = "ex_cn0\<lparr>sv_cluster := ex_elected\<rparr>"
  have 1: "?st\<^sup>*\<^sup>* ex_cn0 ?S" by (rule sv_peers) (simp add: ex_cn0_def ex_peer_runs)
  have "doSubmit_start Inc ((sv_app ?S 0)\<lparr>rsm_rf := sv_peer ?S 0\<rparr>) = Some (Some (ex_inc, 1, 1), ex_cn_sub)"
    by (simp add: doSubmit_start_def isShutdown_def ex_cn0_def ex_cn_app_def ex_start ex_cn_sub_def Let_def flip: ex_inc_def)
  then have "rsm_acts (sv_peer ?S 0) (sv_app ?S 0) (rsm_rf ex_cn_sub) ex_cn_sub" by (rule rsm_acts.submit)
  then have "?st ?S (sv_put 0 (rsm_rf ex_cn_sub) ex_cn_sub (sv_read ?S 0) (sv_due ?S 0) ?S)" by (intro sstep.act) simp_all
  moreover have "rsm_rf ex_cn_sub = ex_run ex_inc 0" "sv_read ?S 0 = 0" "sv_due ?S 0 = None"
    by (simp_all add: ex_cn_sub_def ex_cn0_def)
  ultimately have 2: "?st ?S ex_cn1" by (simp add: ex_cn1_def)
  have c: "sv_cluster ex_cn1 = ex_state ex_inc 0" by (simp add: ex_cn1_def put_def)
  have 3: "?st\<^sup>*\<^sup>* ex_cn1 ex_cn2" unfolding ex_cn2_def by (rule sv_peers) (simp only: c ex_peer_runs)
  have p: "sv_peer ex_cn2 0 = ex_run ex_inc 2" "sv_app ex_cn2 0 = ex_cn_sub" "sv_read ex_cn2 0 = 0" "sv_due ex_cn2 0 = None"
    by (simp_all add: ex_cn2_def ex_state_nodes ex_cn1_def)
  have "rsm_recv cnt_DoOp cnt_Snapshot cnt_Restore (\<lambda>_. 1) 0 (command_msg (ex_cmd ex_inc)) (sv_peer ex_cn2 0) (sv_app ex_cn2)
      = Some (Some (ex_cn_sub\<lparr>rsm_rf := ex_run ex_inc 2, rsm_sm := 1, rsm_lastApplied := 1\<rparr>, None))"
    unfolding rsm_recv_def p by (simp add: ex_cn_sub_def ex_cn_app_def command_msg_def ex_cmd_def applyCommand_def cnt_DoOp_def
        ex_inc_def Let_def)
  then have "?st ex_cn2 (sv_put 0 (sv_peer ex_cn2 0) (ex_cn_sub\<lparr>rsm_rf := ex_run ex_inc 2, rsm_sm := 1, rsm_lastApplied := 1\<rparr>)
      (Suc (sv_read ex_cn2 0)) None ex_cn2)"
    by (intro sstep.recv) (simp_all add: p ex_delivered)
  then have 4: "?st ex_cn2 ex_cn3" by (simp add: p ex_cn3_def)
  from 2 3 have "?st\<^sup>*\<^sup>* ?S ex_cn2" by (rule converse_rtranclp_into_rtranclp)
  with 1 have "?st\<^sup>*\<^sup>* ex_cn0 ex_cn2" by (rule rtranclp_trans)
  then show ?thesis using 4 by (rule rtranclp.rtrancl_into_rtrancl)
qed

theorem counter_counts_witness:
  "\<exists>log :: cnt_req Op list. rsm_sm (sv_app ex_cn3 0) = int (count_list (map op_Req (take 1 log)) Inc) \<and> rsm_sm (sv_app ex_cn3 0) = 1"
proof -
  have "\<exists>log :: cnt_req Op list. \<forall>i < 3. \<exists>k \<le> length log. rsm_lastApplied (sv_app ex_cn3 i) = int k
      \<and> rsm_sm (sv_app ex_cn3 i) = int (count_list (map op_Req (take k log)) Inc)"
    using counter_counts [OF ex_cn_init ex_cn_steps] by (rule ex_forward) simp
  then obtain log :: "cnt_req Op list" and k where "rsm_lastApplied (sv_app ex_cn3 0) = int k"
    "rsm_sm (sv_app ex_cn3 0) = int (count_list (map op_Req (take k log)) Inc)" by force
  moreover have "rsm_sm (sv_app ex_cn3 0) = 1" "rsm_lastApplied (sv_app ex_cn3 0) = 1" by (simp_all add: ex_cn3_def)
  ultimately show ?thesis by auto
qed

end
