(* ===== verification/RaftSrv.thy ===== *)
theory RaftSrv
  imports Service
begin

text \<open>
  The application that the Raft tests run on a peer (src/src/raft1/server.go): it records every
  delivered command, compares it with what the other servers have recorded (\<open>checkLogs\<close> of
  src/src/raft1/test.go), stops the test when they differ or when an index is out of order, and, in
  the tests with snapshots, hands a snapshot of its record to the peer every ten commands.
\<close>

section \<open>The application\<close>

text \<open>
  \<open>rs_raft\<close> says whether the pointer to the peer is set.  The persister is that of the peer, and
  \<open>applyErr\<close> is only assigned after \<open>log.Fatalf\<close>, which does not return.  A
  recorded command is a value of type \<open>any\<close>, where \<open>None\<close> is \<open>nil\<close>.
\<close>

record 'c rfsrv =
  rs_me :: nat
  rs_lastApplied :: int
  rs_raft :: bool
  rs_logs :: "int \<Rightarrow> 'c option option"

datatype 'c rf_gob = XIndex int | XLog "'c option list"

datatype apply_err = NoErr | OutOfOrder | CommitDiffers | SnapshotDiffers

definition SnapShotInterval :: int where
  "SnapShotInterval = 10"

definition checkLogs :: "nat \<Rightarrow> nat \<Rightarrow> ('c, 'b) ApplyMsg \<Rightarrow> (nat \<Rightarrow> 'c rfsrv) \<Rightarrow> apply_err \<times> bool \<times> 'c rfsrv" where
  "checkLogs n i m srvs =
     (let v = am_Command m; me = srvs i;
          err = (if list_ex (\<lambda>j. case rs_logs (srvs j) (am_CommandIndex m) of None \<Rightarrow> False | Some old \<Rightarrow> old \<noteq> v) [0..<n]
                 then CommitDiffers else NoErr);
          prevok = (rs_logs me (am_CommandIndex m - 1) \<noteq> None)
      in (err, prevok, me\<lparr>rs_logs := (rs_logs me)(am_CommandIndex m \<mapsto> v)\<rparr>))"

fun decode_xlog :: "'c rf_gob list \<Rightarrow> (int \<times> 'c option list) option" where
  "decode_xlog (XIndex lastIncl # XLog xlog # _) = Some (lastIncl, xlog)"
| "decode_xlog _ = None"

text \<open>\<open>None\<close>: the test is stopped.\<close>

definition ingestSnap :: "'c rf_gob list \<Rightarrow> int \<Rightarrow> 'c rfsrv \<Rightarrow> (apply_err \<times> 'c rfsrv) option" where
  "ingestSnap snapshot index rs =
     (if snapshot = [] then None
      else do {
        (lastIncl, xlog) \<leftarrow> decode_xlog snapshot;
        if index \<noteq> -1 \<and> index \<noteq> lastIncl then Some (SnapshotDiffers, rs)
        else Some (NoErr, rs\<lparr>rs_logs := (\<lambda>j. if 0 \<le> j \<and> j < int (length xlog) then Some (xlog ! nat j) else None),
                             rs_lastApplied := lastIncl\<rparr>)
      })"

definition newRfsrv :: "nat \<Rightarrow> bool \<Rightarrow> nat \<Rightarrow> ('c, 'c rf_gob) disk \<Rightarrow> (('c, 'c rf_gob) Raft \<times> 'c rfsrv) option" where
  "newRfsrv n snapshot srv ps = do {
     raft \<leftarrow> Make n srv ps;
     let s = \<lparr>rs_me = srv, rs_lastApplied = 0, rs_raft = True, rs_logs = Map.empty\<rparr>;
     if snapshot \<and> ReadSnapshot ps \<noteq> [] then do {
       (err, s) \<leftarrow> ingestSnap (ReadSnapshot ps) (-1) s;
       if err \<noteq> NoErr then None else Some (raft, s)
     }
     else Some (raft, s)
   }"

definition rfsrv_Kill :: "'c rfsrv \<Rightarrow> ('c, 'c rf_gob) disk \<Rightarrow> 'c rfsrv \<times> ('c, 'c rf_gob) disk" where
  "rfsrv_Kill rs ps = (rs\<lparr>rs_raft := False\<rparr>, Save (ReadRaftState ps) (ReadSnapshot ps) ps)"

definition rfsrv_GetState :: "('c, 'c rf_gob) Raft \<Rightarrow> 'c rfsrv \<Rightarrow> (int \<times> bool) option" where
  "rfsrv_GetState raft rs = (if rs_raft rs then Some (GetState raft) else None)"

definition rfsrv_Logs :: "int \<Rightarrow> 'c rfsrv \<Rightarrow> 'c option \<times> bool" where
  "rfsrv_Logs i rs = (case rs_logs rs i of None \<Rightarrow> (None, False) | Some v \<Rightarrow> (v, True))"

text \<open>One message, without and with snapshots; a snapshot to hand over is the second component.\<close>

definition rfsrv_applier :: "nat \<Rightarrow> nat \<Rightarrow> ('c, 'b) ApplyMsg \<Rightarrow> (nat \<Rightarrow> 'c rfsrv) \<Rightarrow> 'c rfsrv option" where
  "rfsrv_applier n i m srvs =
     (if \<not> am_CommandValid m then Some (srvs i)
      else let (err, prevok, rs) = checkLogs n i m srvs;
               err = (if am_CommandIndex m > 1 \<and> \<not> prevok then OutOfOrder else err)
           in if err \<noteq> NoErr then None else Some rs)"

definition applierSnap :: "nat \<Rightarrow> nat \<Rightarrow> ('c, 'c rf_gob) ApplyMsg \<Rightarrow> (nat \<Rightarrow> 'c rfsrv)
    \<Rightarrow> ('c rfsrv \<times> (int \<times> 'c rf_gob list) option) option" where
  "applierSnap n i m srvs =
     (if am_SnapshotValid m then do {
        (err, rs) \<leftarrow> ingestSnap (am_Snapshot m) (am_SnapshotIndex m) (srvs i);
        if err \<noteq> NoErr then None else Some (rs, None)
      }
      else if am_CommandValid m then
        (let (err, rs) =
               (if am_CommandIndex m \<noteq> rs_lastApplied (srvs i) + 1 then (OutOfOrder, srvs i)
                else let (err, prevok, rs) = checkLogs n i m srvs
                     in (if am_CommandIndex m > 1 \<and> \<not> prevok then OutOfOrder else err, rs));
             rs = rs\<lparr>rs_lastApplied := am_CommandIndex m\<rparr>;
             xlog = map (\<lambda>j. case rs_logs rs j of None \<Rightarrow> None | Some v \<Rightarrow> v) [0..am_CommandIndex m];
             snapshot = (if (am_CommandIndex m + 1) mod SnapShotInterval = 0
                         then Some (am_CommandIndex m, [XIndex (am_CommandIndex m), XLog xlog]) else None)
         in if snapshot \<noteq> None \<and> \<not> rs_raft rs then None
            else if err \<noteq> NoErr then None else Some (rs, snapshot))
      else Some (srvs i, None))"

section \<open>As a service on the cluster\<close>

definition rf_recv :: "nat \<Rightarrow> bool \<Rightarrow> nat \<Rightarrow> ('c, 'c rf_gob) ApplyMsg \<Rightarrow> ('c, 'c rf_gob) Raft \<Rightarrow> (nat \<Rightarrow> 'c rfsrv)
    \<Rightarrow> ('c rfsrv \<times> (int \<times> 'c rf_gob list) option) option option" where
  "rf_recv n snapshot i m rf srvs =
     (if snapshot then map_option Some (applierSnap n i m srvs)
      else map_option (\<lambda>rs. Some (rs, None)) (rfsrv_applier n i m srvs))"

text \<open>A test gives commands to the peer of a server.\<close>

inductive rf_acts :: "('c, 'c rf_gob) Raft \<Rightarrow> 'c rfsrv \<Rightarrow> ('c, 'c rf_gob) Raft \<Rightarrow> 'c rfsrv \<Rightarrow> bool" where
  start: "rs_raft rs \<Longrightarrow> Start c rf = Some (r, rf') \<Longrightarrow> rf_acts rf rs rf' rs"

text \<open>The record holds the first \<open>k\<close> commands of the log; index 0 is \<open>nil\<close> once it has been in a snapshot.\<close>

definition records :: "'c list \<Rightarrow> nat \<Rightarrow> (int \<Rightarrow> 'c option option) \<Rightarrow> bool" where
  "records L k lg \<longleftrightarrow> (\<forall>j. j \<noteq> 0 \<longrightarrow> lg j = (if 0 < j \<and> j \<le> int k then Some (Some (L ! nat (j - 1))) else None))
     \<and> (lg 0 = None \<or> lg 0 = Some None)"

definition rf_pos :: "'c rfsrv \<Rightarrow> int" where
  "rf_pos rs = int (card {j. 0 < j \<and> rs_logs rs j \<noteq> None})"

definition rf_rep :: "bool \<Rightarrow> 'c list \<Rightarrow> 'c rfsrv \<Rightarrow> bool" where
  "rf_rep snapshot L rs \<longleftrightarrow> rs_raft rs \<and> (\<exists>k \<le> length L. records L k (rs_logs rs) \<and> (snapshot \<longrightarrow> rs_lastApplied rs = int k))"

definition rf_snapped :: "bool \<Rightarrow> 'c list \<Rightarrow> int \<Rightarrow> 'c rf_gob list \<Rightarrow> bool" where
  "rf_snapped snapshot L j d \<longleftrightarrow> snapshot \<and>
     (\<exists>k \<le> length L. j = int k \<and> d = [XIndex (int k), XLog (None # map Some (take k L))])"

lemma records_simps:
  assumes "records L k lg"
  shows "0 < j \<Longrightarrow> j \<le> int k \<Longrightarrow> lg j = Some (Some (L ! nat (j - 1)))" "int k < j \<Longrightarrow> lg j = None"
    "j < 0 \<Longrightarrow> lg j = None" "lg 0 = None \<or> lg 0 = Some None"
  using assms by (auto simp: records_def)

lemma records_pos:
  assumes "records L k (rs_logs rs)"
  shows "rf_pos rs = int k"
proof -
  have "{j. 0 < j \<and> rs_logs rs j \<noteq> None} = {1..int k}"
    using records_simps(1,2) [OF assms] by (force simp: not_less)
  then show ?thesis by (simp add: rf_pos_def)
qed

lemma records_more: "records L k lg \<Longrightarrow> k \<le> length L \<Longrightarrow> records (L @ L') k lg"
  unfolding records_def by (auto simp: nth_append)

lemma records_next:
  assumes "records L k lg"
  shows "records L (Suc k) (lg(int k + 1 \<mapsto> Some (L ! k)))"
  using records_simps [OF assms] unfolding records_def by (auto simp: not_less)

lemma checkLogs_ok:
  assumes "\<And>j. j < n \<Longrightarrow> \<exists>k \<le> length L. records L k (rs_logs (A j))" and "records L k (rs_logs (A i))" "k < length L"
    and "am_CommandIndex m = int k + 1" "am_Command m = Some (L ! k)"
  shows "checkLogs n i m A = (NoErr, rs_logs (A i) (int k) \<noteq> None, (A i)\<lparr>rs_logs := (rs_logs (A i))(int k + 1 \<mapsto> Some (L ! k))\<rparr>)"
    and "int k + 1 > 1 \<longrightarrow> rs_logs (A i) (int k) \<noteq> None"
proof -
  have "rs_logs (A j) (int k + 1) = None \<or> rs_logs (A j) (int k + 1) = Some (Some (L ! k))" if j: "j < n" for j
  proof -
    obtain l where l: "records L l (rs_logs (A j))" using assms(1) [OF j] by blast
    show ?thesis using records_simps(1,2) [OF l, of "int k + 1"] by (cases "int k + 1 \<le> int l") simp_all
  qed
  then have "\<not> list_ex (\<lambda>j. case rs_logs (A j) (int k + 1) of None \<Rightarrow> False | Some old \<Rightarrow> old \<noteq> Some (L ! k)) [0..<n]"
    by (fastforce simp: list_ex_iff split: option.splits)
  then show "checkLogs n i m A = (NoErr, rs_logs (A i) (int k) \<noteq> None, (A i)\<lparr>rs_logs := (rs_logs (A i))(int k + 1 \<mapsto> Some (L ! k))\<rparr>)"
    using assms(4,5) by (simp add: checkLogs_def Let_def)
  show "int k + 1 > 1 \<longrightarrow> rs_logs (A i) (int k) \<noteq> None" using records_simps(1) [OF assms(2), of "int k"] by simp
qed

text \<open>The snapshot is the record, and reading it gives the record back.\<close>

lemma records_xlog:
  assumes "records L k lg" "k \<le> length L"
  shows "map (\<lambda>j. case lg j of None \<Rightarrow> None | Some v \<Rightarrow> v) [0..int k] = None # map Some (take k L)"
proof (rule nth_equalityI)
  fix j assume "j < length (map (\<lambda>j. case lg j of None \<Rightarrow> None | Some v \<Rightarrow> v) [0..int k])"
  then have j: "j \<le> k" by simp
  show "map (\<lambda>j. case lg j of None \<Rightarrow> None | Some v \<Rightarrow> v) [0..int k] ! j = (None # map Some (take k L)) ! j"
    using j assms(2) records_simps(1) [OF assms(1), of "int j"] records_simps(4) [OF assms(1)] by (cases j) auto
qed (use assms(2) in simp)

lemma ingestSnap_taken:
  assumes "rf_snapped b L j d" and "index = -1 \<or> index = j"
  shows "\<exists>k rs'. j = int k \<and> k \<le> length L \<and> ingestSnap d index rs = Some (NoErr, rs') \<and> records L k (rs_logs rs')
    \<and> rs_lastApplied rs' = j \<and> rs_raft rs' = rs_raft rs"
proof -
  obtain k where k: "k \<le> length L" "j = int k" "d = [XIndex (int k), XLog (None # map Some (take k L))]"
    using assms(1) by (auto simp: rf_snapped_def)
  have "records L k (\<lambda>j. if 0 \<le> j \<and> j < int (length (None # map Some (take k L))) then Some ((None # map Some (take k L)) ! nat j) else None)"
    unfolding records_def using k(1) by (auto simp: nth_Cons' nat_diff_distrib)
  then show ?thesis using k assms(2) by (auto simp: ingestSnap_def)
qed

lemma applierSnap_next:
  assumes "am_CommandValid m" "\<not> am_SnapshotValid m" "am_CommandIndex m = rs_lastApplied (A i) + 1"
    and "checkLogs n i m A = (NoErr, p, rs)" "am_CommandIndex m > 1 \<longrightarrow> p" "rs_raft rs"
    and "x = am_CommandIndex m" "map (\<lambda>j. case rs_logs rs j of None \<Rightarrow> None | Some v \<Rightarrow> v) [0..x] = xs"
  shows "applierSnap n i m A = Some (rs\<lparr>rs_lastApplied := x\<rparr>,
    if (x + 1) mod SnapShotInterval = 0 then Some (x, [XIndex x, XLog xs]) else None)"
  using assms by (simp add: applierSnap_def Let_def)

lemma rf_recv_command:
  assumes i: "i < n" and A: "\<And>j. j < n \<Longrightarrow> rf_rep b L (A j)" and k: "rf_pos (A i) = int k" "k < length L"
    and m: "am_CommandValid m" "\<not> am_SnapshotValid m" "am_CommandIndex m = int k + 1" "am_Command m = Some (L ! k)"
  shows "receives rf_pos (rf_rep b) (rf_snapped b) L (int k + 1) (rf_recv n b i m rf A)"
proof -
  obtain l where l: "records L l (rs_logs (A i))" "rs_raft (A i)" "b \<longrightarrow> rs_lastApplied (A i) = int l"
    using A [OF i] by (auto simp: rf_rep_def)
  then have "l = k" using records_pos [OF l(1)] k(1) by simp
  note r = l [unfolded this]
  let ?lg = "(rs_logs (A i))(int k + 1 \<mapsto> Some (L ! k))"
  have a: "\<exists>k \<le> length L. records L k (rs_logs (A j))" if "j < n" for j using A [OF that] by (auto simp: rf_rep_def)
  have C: "checkLogs n i m A = (NoErr, rs_logs (A i) (int k) \<noteq> None, (A i)\<lparr>rs_logs := ?lg\<rparr>)"
    "int k + 1 > 1 \<longrightarrow> rs_logs (A i) (int k) \<noteq> None"
    by (rule checkLogs_ok [of n L A k i m]; use a r(1) k(2) m(3,4) in blast)+
  have R: "records L (Suc k) ?lg" by (rule records_next [OF r(1)])
  have x: "map (\<lambda>j. case ?lg j of None \<Rightarrow> None | Some v \<Rightarrow> v) [0..int k + 1] = None # map Some (take (Suc k) L)"
    using records_xlog [OF R] k(2) by (simp add: add.commute)
  have p: "rf_pos rs = int k + 1 \<and> rf_rep b L rs" if "rs_logs rs = ?lg" "rs_raft rs" "b \<longrightarrow> rs_lastApplied rs = int k + 1" for rs
    using R that k(2) records_pos [of L "Suc k" rs] by (auto simp: rf_rep_def intro!: exI [of _ "Suc k"])
  show ?thesis
  proof (cases b)
    case True
    then have "rf_recv n b i m rf A = Some (Some ((A i)\<lparr>rs_logs := ?lg, rs_lastApplied := int k + 1\<rparr>,
        if (int k + 1 + 1) mod SnapShotInterval = 0 then Some (int k + 1, [XIndex (int k + 1), XLog (None # map Some (take (Suc k) L))]) else None))"
      using applierSnap_next [OF m(1,2) _ C(1) _ _ m(3) [symmetric], of "None # map Some (take (Suc k) L)"] C(2) r m(3) x
      by (simp add: rf_recv_def)
    then show ?thesis using p r(2) k(2) True
      by (auto simp: receives_def rf_snapped_def intro!: exI [of _ "Suc k"])
  next
    case False
    then have "rf_recv n b i m rf A = Some (Some ((A i)\<lparr>rs_logs := ?lg\<rparr>, None))"
      using C m by (cases "k = 0") (simp_all add: rf_recv_def rfsrv_applier_def Let_def)
    then show ?thesis using p r(2) False by (simp add: receives_def)
  qed
qed

lemma rf_recv_snapshot:
  assumes "rf_rep b L (A i)" and "am_SnapshotValid m" "rf_snapped b L (am_SnapshotIndex m) (am_Snapshot m)"
  shows "receives rf_pos (rf_rep b) (rf_snapped b) L (am_SnapshotIndex m) (rf_recv n b i m rf A)"
proof -
  obtain k rs where "am_SnapshotIndex m = int k" "k \<le> length L" "records L k (rs_logs rs)"
    "ingestSnap (am_Snapshot m) (am_SnapshotIndex m) (A i) = Some (NoErr, rs)"
    "rs_lastApplied rs = am_SnapshotIndex m" "rs_raft rs = rs_raft (A i)"
    using ingestSnap_taken [OF assms(3), of "am_SnapshotIndex m" "A i"] by blast
  moreover have b using assms(3) by (simp add: rf_snapped_def)
  ultimately show ?thesis using assms(1,2) records_pos [of L k rs]
    by (auto simp: receives_def rf_recv_def applierSnap_def rf_rep_def)
qed

lemma newRfsrv_rep:
  assumes "Make n i (d :: ('c, 'c rf_gob) disk) = Some rf" and "ReadSnapshot d = [] \<and> j = 0 \<or> ReadSnapshot d \<noteq> [] \<and> rf_snapped b L j (ReadSnapshot d)"
  shows "\<exists>rs. newRfsrv n b i d = Some (rf, rs) \<and> rf_pos rs = j \<and> rf_rep b L rs"
proof -
  let ?s = "\<lparr>rs_me = i, rs_lastApplied = 0, rs_raft = True, rs_logs = Map.empty\<rparr> :: 'c rfsrv"
  show ?thesis using assms(2)
  proof (elim disjE conjE)
    assume "ReadSnapshot d = []" "j = 0"
    moreover have "records L 0 Map.empty" by (simp add: records_def)
    ultimately show ?thesis using assms(1) records_pos [of L 0 ?s] by (auto simp: newRfsrv_def rf_rep_def)
  next
    assume d: "ReadSnapshot d \<noteq> []" "rf_snapped b L j (ReadSnapshot d)"
    obtain k rs where "j = int k" "k \<le> length L" "records L k (rs_logs rs)" "ingestSnap (ReadSnapshot d) (-1) ?s = Some (NoErr, rs)"
      "rs_lastApplied rs = j" "rs_raft rs = rs_raft ?s"
      using ingestSnap_taken [OF d(2), of "-1" ?s] by blast
    moreover have b using d(2) by (simp add: rf_snapped_def)
    ultimately show ?thesis using assms(1) d(1) records_pos [of L k rs] by (auto simp: newRfsrv_def rf_rep_def)
  qed
qed

lemma rf_rep_laws:
  assumes "rf_rep b L rs"
  shows "0 \<le> rf_pos rs \<and> rf_pos rs \<le> int (length L)" and "rf_rep b (L @ L') rs"
proof -
  obtain k where k: "rs_raft rs" "k \<le> length L" "records L k (rs_logs rs)" "b \<longrightarrow> rs_lastApplied rs = int k"
    using assms by (auto simp: rf_rep_def)
  show "0 \<le> rf_pos rs \<and> rf_pos rs \<le> int (length L)" using records_pos [OF k(3)] k(2) by simp
  show "rf_rep b (L @ L') rs" using k records_more [OF k(3,2), of L'] by (auto simp: rf_rep_def intro!: exI [of _ k])
qed

interpretation rfs: consumer n "newRfsrv n b" "rf_recv n b" rf_acts rf_pos "rf_rep b" "rf_snapped b" for n b
proof unfold_locales
  fix L L' :: "'c list" and rs :: "'c rfsrv" and i d and rf :: "('c, 'c rf_gob) Raft"
  show "0 \<le> rf_pos rs \<and> rf_pos rs \<le> int (length L)" "rf_rep b (L @ L') rs" if "rf_rep b L rs"
    using rf_rep_laws [OF that] by blast+
  show "rf_snapped b (L @ L') j x" if "rf_snapped b L j x" for j x using that by (auto simp: rf_snapped_def)
  show "Make n i d = Some rf" if "newRfsrv n b i d = Some (rf, rs)"
    using that by (auto simp: newRfsrv_def Let_def split: Option.bind_splits if_splits)
  show "\<exists>a. newRfsrv n b i d = Some (rf, a) \<and> rf_pos a = 0 \<and> rf_rep b L a"
    if "Make n i d = Some rf" "ReadSnapshot d = []" using newRfsrv_rep that by blast
  show "\<exists>a. newRfsrv n b i d = Some (rf, a) \<and> rf_pos a = j \<and> rf_rep b L a"
    if "Make n i d = Some rf" "ReadSnapshot d \<noteq> []" "rf_snapped b L j (ReadSnapshot d)" for j
    using newRfsrv_rep that by blast
  show "rf_pos a' = rf_pos a \<and> (rf_rep b L a \<longrightarrow> rf_rep b L a')"
    "rf' = rf \<or> rf' = Kill rf \<or> (\<exists>c r. Start c rf = Some (r, rf'))" if "rf_acts rf a rf' a'" for rf rf' and a a' :: "'c rfsrv"
    using that by (auto elim: rf_acts.cases)
qed (use rf_recv_command rf_recv_snapshot in blast)+

section \<open>The checks of the tests\<close>

text \<open>What two servers have recorded at an index, now or later, is the same.\<close>

lemma rf_rep_agree:
  assumes "rf_rep b L rs" "rf_rep b L rs'" "rs_logs rs x = Some v" "rs_logs rs' x = Some w"
  shows "v = w"
proof -
  obtain k l where r: "records L k (rs_logs rs)" "records L l (rs_logs rs')" using assms(1,2) by (auto simp: rf_rep_def)
  consider "x < 0" | "x = 0" | "0 < x" by linarith
  then show ?thesis
  proof cases
    case 3
    have "x \<le> int k" "x \<le> int l" using records_simps(2) [OF r(1), of x] records_simps(2) [OF r(2), of x] assms(3,4) by force+
    then show ?thesis using records_simps(1) [OF r(1) 3] records_simps(1) [OF r(2) 3] assms(3,4) by simp
  qed (use records_simps(3,4) [OF r(1)] records_simps(3,4) [OF r(2)] assms(3,4) in auto)
qed


text \<open>
  But an application that has been killed forgets its peer while its reader goes on: a command at
  the end of a snapshot interval then calls a method of a nil pointer.
\<close>

lemma applierSnap_killed:
  assumes "am_CommandValid m" "\<not> am_SnapshotValid m" "(am_CommandIndex m + 1) mod SnapShotInterval = 0"
  shows "applierSnap n i m (A(i := fst (rfsrv_Kill rs d))) = None" and "snd (rfsrv_Kill rs d) = d"
proof -
  show "applierSnap n i m (A(i := fst (rfsrv_Kill rs d))) = None"
    using assms by (auto simp: applierSnap_def rfsrv_Kill_def checkLogs_def Let_def)
  show "snd (rfsrv_Kill rs d) = d" by (simp add: rfsrv_Kill_def Save_def ReadRaftState_def ReadSnapshot_def)
qed

section \<open>A run\<close>

text \<open>
  Three servers: server 0 is elected, the test gives it a command, and after it has been delivered
  on servers 0 and 1 the application of server 0 takes it.
\<close>

definition ex_rf0 :: "(nat, nat rf_gob, nat rfsrv) Service" where
  "ex_rf0 = \<lparr>sv_cluster = ex_boot, sv_app = (\<lambda>i. \<lparr>rs_me = i, rs_lastApplied = 0, rs_raft = True, rs_logs = Map.empty\<rparr>),
     sv_read = (\<lambda>_. 0), sv_due = (\<lambda>_. None)\<rparr>"

definition ex_rf1 :: "(nat, nat rf_gob, nat rfsrv) Service" where
  "ex_rf1 = ex_rf0\<lparr>sv_cluster := ex_state 7 7\<rparr>"

definition ex_rf2 :: "(nat, nat rf_gob, nat rfsrv) Service" where
  "ex_rf2 = sv_put 0 (sv_peer ex_rf1 0) \<lparr>rs_me = 0, rs_lastApplied = 1, rs_raft = True, rs_logs = [1 \<mapsto> Some 7]\<rparr> 1 None ex_rf1"

lemma ex_rf_init: "sinit 3 (newRfsrv 3 True) ex_rf0"
  by (simp add: sinit_def ex_rf0_def ex_boot_def newRfsrv_def Make_fresh)

lemma ex_rf_steps:
  "(sstep 3 (newRfsrv 3 True) (rf_recv 3 True) rf_acts)\<^sup>*\<^sup>* ex_rf0 ex_rf1"
  "sstep 3 (newRfsrv 3 True) (rf_recv 3 True) rf_acts ex_rf1 ex_rf2"
proof -
  let ?st = "sstep 3 (newRfsrv 3 True) (rf_recv 3 True) rf_acts" and ?S = "ex_rf0\<lparr>sv_cluster := ex_elected\<rparr>"
  have c: "sv_cluster (ex_rf0\<lparr>sv_cluster := x\<rparr>) = x" for x by simp
  have 1: "?st\<^sup>*\<^sup>* ex_rf0 ?S" by (rule sv_peers) (simp add: ex_rf0_def ex_peer_runs)
  have "rf_acts (sv_peer ?S 0) (sv_app ?S 0) (ex_run 7 0) (sv_app ?S 0)"
    by (rule rf_acts.start) (simp_all add: ex_rf0_def ex_start)
  then have "?st ?S (sv_put 0 (ex_run 7 0) (sv_app ?S 0) (sv_read ?S 0) (sv_due ?S 0) ?S)" by (intro sstep.act) simp_all
  moreover have "sv_put 0 (ex_run 7 0) (sv_app ?S 0) (sv_read ?S 0) (sv_due ?S 0) ?S = ex_rf0\<lparr>sv_cluster := ex_state 7 0\<rparr>"
    by (auto simp: sv_put_def ex_rf0_def put_def)
  ultimately have 2: "?st ?S (ex_rf0\<lparr>sv_cluster := ex_state 7 0\<rparr>)" by metis
  have "?st\<^sup>*\<^sup>* (ex_rf0\<lparr>sv_cluster := ex_state 7 0\<rparr>) (ex_rf0\<lparr>sv_cluster := ex_state 7 0\<rparr>\<lparr>sv_cluster := ex_state 7 7\<rparr>)"
    by (rule sv_peers) (simp only: c ex_peer_runs)
  moreover have "ex_rf0\<lparr>sv_cluster := ex_state 7 0\<rparr>\<lparr>sv_cluster := ex_state 7 7\<rparr> = ex_rf1" by (simp add: ex_rf1_def)
  ultimately have "?st\<^sup>*\<^sup>* (ex_rf0\<lparr>sv_cluster := ex_state 7 0\<rparr>) ex_rf1" by metis
  with 2 have "?st\<^sup>*\<^sup>* ?S ex_rf1" by (rule converse_rtranclp_into_rtranclp)
  with 1 show "?st\<^sup>*\<^sup>* ex_rf0 ex_rf1" by (rule rtranclp_trans)
  have p: "sv_peer ex_rf1 0 = ex_run 7 2" by (simp add: ex_rf1_def ex_state_nodes)
  have "rf_recv 3 True 0 (command_msg (ex_cmd 7)) (sv_peer ex_rf1 0) (sv_app ex_rf1)
      = Some (Some (\<lparr>rs_me = 0, rs_lastApplied = 1, rs_raft = True, rs_logs = [1 \<mapsto> Some 7]\<rparr>, None))"
    by (simp add: rf_recv_def applierSnap_def checkLogs_def command_msg_def ex_cmd_def ex_rf1_def ex_rf0_def SnapShotInterval_def list_ex_iff)
  then have "?st ex_rf1 (sv_put 0 (sv_peer ex_rf1 0) \<lparr>rs_me = 0, rs_lastApplied = 1, rs_raft = True, rs_logs = [1 \<mapsto> Some 7]\<rparr>
      (Suc (sv_read ex_rf1 0)) None ex_rf1)"
    by (intro sstep.recv) (simp_all add: p ex_delivered, simp_all add: ex_rf1_def ex_rf0_def)
  then show "?st ex_rf1 ex_rf2" by (simp add: ex_rf2_def ex_rf1_def ex_rf0_def)
qed


end
