(* ===== verification/Labrpc.thy ===== *)
theory Labrpc
  imports Prelude "HOL-Library.Word"
begin

text \<open>
  The RPC simulator (src/src/labrpc/labrpc.go): a network with named client ends and named servers
  that loses and delays requests and replies, disconnects ends and loses servers.  A call is
  handled by several goroutines; the code is cut where one of them waits, so that calls, handlers,
  timers and the reconfiguration of the network interleave freely.
\<close>

section \<open>Services\<close>

text \<open>
  What reflection sees of a method: its name, its package path (empty for an exported method), the
  types of its parameters, the receiver first, with their kinds, and the number of its results.
\<close>

datatype rkind = Ptr | NoPtr

record 'ty rmethod =
  mt_Name :: string
  mt_PkgPath :: string
  mt_In :: "('ty \<times> rkind) list"
  mt_NumOut :: nat

record ('rc, 'ty) rpc_Service =
  svc_name :: string
  svc_rcvr :: 'rc
  svc_methods :: "string \<rightharpoonup> 'ty rmethod"

record ('rc, 'ty) rpc_Server =
  rsv_services :: "string \<rightharpoonup> ('rc, 'ty) rpc_Service"
  rsv_count :: int

record ('e, 'ty, 'b) reqMsg =
  rm_endname :: 'e
  rm_svcMeth :: string
  rm_argsType :: 'ty
  rm_args :: "'b list"

record 'b replyMsg =
  rp_ok :: bool
  rp_reply :: "'b list"

text \<open>
  What the simulator calls: the encoder, which may refuse a value, the decoder at a given type, the
  zero value of a type, the assignability of types, the dynamic type of a value, and the methods of
  the registered receivers, which act on the state \<open>'w\<close> of the program around the network.
\<close>

record ('ty, 'v, 'b, 'rc, 'w) rpc_code =
  rc_enc :: "'v \<Rightarrow> 'b list option"
  rc_dec :: "'ty \<Rightarrow> 'b list \<Rightarrow> 'v option"
  rc_zero :: "'ty \<Rightarrow> 'v"
  rc_accepts :: "'ty \<Rightarrow> 'ty \<Rightarrow> bool"
  rc_typeof :: "'v \<Rightarrow> 'ty"
  rc_run :: "'rc \<Rightarrow> string \<Rightarrow> 'v \<Rightarrow> 'w \<Rightarrow> 'v \<times> 'w"

definition suitable :: "'ty rmethod \<Rightarrow> bool" where
  "suitable m \<longleftrightarrow> \<not> (mt_PkgPath m \<noteq> '''' \<or> length (mt_In m) \<noteq> 3 \<or> snd (mt_In m ! 2) \<noteq> Ptr \<or> mt_NumOut m \<noteq> 0)"

definition MakeService :: "string \<Rightarrow> 'rc \<Rightarrow> 'ty rmethod list \<Rightarrow> ('rc, 'ty) rpc_Service" where
  "MakeService name rcvr methods =
     \<lparr>svc_name = name, svc_rcvr = rcvr,
      svc_methods = foldl (\<lambda>M m. if suitable m then M(mt_Name m \<mapsto> m) else M) Map.empty methods\<rparr>"

text \<open>The value with the next state of the program; \<open>None\<close> is \<open>log.Fatalf\<close> or a panic of reflection.\<close>

definition decoded_args :: "('ty, 'v, 'b, 'rc, 'w) rpc_code \<Rightarrow> ('e, 'ty, 'b) reqMsg \<Rightarrow> 'v" where
  "decoded_args C req = (case rc_dec C (rm_argsType req) (rm_args req) of Some v \<Rightarrow> v | None \<Rightarrow> rc_zero C (rm_argsType req))"

definition encoded :: "('ty, 'v, 'b, 'rc, 'w) rpc_code \<Rightarrow> 'v \<Rightarrow> 'b list" where
  "encoded C v = (case rc_enc C v of Some b \<Rightarrow> b | None \<Rightarrow> [])"

definition Service_dispatch :: "('ty, 'v, 'b, 'rc, 'w) rpc_code \<Rightarrow> ('rc, 'ty) rpc_Service \<Rightarrow> string
    \<Rightarrow> ('e, 'ty, 'b) reqMsg \<Rightarrow> 'w \<Rightarrow> ('v \<times> 'b replyMsg \<times> 'w) option" where
  "Service_dispatch C svc methname req w = do {
     method \<leftarrow> svc_methods svc methname;
     let args = decoded_args C req;
     if \<not> rc_accepts C (rm_argsType req) (fst (mt_In method ! 1)) then None
     else do {
       let (reply, w) = rc_run C (svc_rcvr svc) methname args w;
       Some (reply, \<lparr>rp_ok = True, rp_reply = encoded C reply\<rparr>, w)
     }
   }"

definition MakeServer :: "('rc, 'ty) rpc_Server" where
  "MakeServer = \<lparr>rsv_services = Map.empty, rsv_count = 0\<rparr>"

definition AddService :: "('rc, 'ty) rpc_Service \<Rightarrow> ('rc, 'ty) rpc_Server \<Rightarrow> ('rc, 'ty) rpc_Server" where
  "AddService svc rs = rs\<lparr>rsv_services := (rsv_services rs)(svc_name svc \<mapsto> svc)\<rparr>"

text \<open>\<open>strings.LastIndex\<close> for one character.\<close>

definition LastIndex :: "string \<Rightarrow> char \<Rightarrow> int" where
  "LastIndex s c = (let k = length (takeWhile (\<lambda>x. x \<noteq> c) (rev s)) in if k = length s then -1 else int (length s) - int k - 1)"

definition split_meth :: "string \<Rightarrow> (string \<times> string) option" where
  "split_meth svcMeth = do {
     let dot = LastIndex svcMeth CHR ''.'';
     serviceName \<leftarrow> slice_to svcMeth dot;
     methodName \<leftarrow> slice_from svcMeth (dot + 1);
     Some (serviceName, methodName)
   }"

text \<open>An execution of a handler: receiver, method, argument and reply.\<close>

record ('v, 'rc) exec =
  ex_call :: nat
  ex_server :: nat
  ex_rcvr :: 'rc
  ex_method :: string
  ex_args :: 'v
  ex_reply :: 'v

definition Server_dispatch :: "('ty, 'v, 'b, 'rc, 'w) rpc_code \<Rightarrow> ('e, 'ty, 'b) reqMsg \<Rightarrow> ('rc, 'ty) rpc_Server \<Rightarrow> 'w
    \<Rightarrow> (('rc \<times> string \<times> 'v) \<times> 'b replyMsg \<times> ('rc, 'ty) rpc_Server \<times> 'w) option" where
  "Server_dispatch C req rs w = do {
     let rs = rs\<lparr>rsv_count := rsv_count rs + 1\<rparr>;
     (serviceName, methodName) \<leftarrow> split_meth (rm_svcMeth req);
     service \<leftarrow> rsv_services rs serviceName;
     (reply, r, w) \<leftarrow> Service_dispatch C service methodName req w;
     Some ((svc_rcvr service, methodName, reply), r, rs, w)
   }"

definition Server_GetCount :: "('rc, 'ty) rpc_Server \<Rightarrow> int" where
  "Server_GetCount rs = rsv_count rs"

section \<open>The network\<close>

text \<open>
  A server is known by its address, since the code compares pointers.  A missing entry of the maps
  \<open>enabled\<close>, \<open>servers\<close> and \<open>connections\<close> reads as \<open>false\<close> or \<open>nil\<close>, and is not told apart from it.
\<close>

record 'e ClientEnd =
  ce_endname :: 'e

record ('e, 's) Network =
  nw_reliable :: bool
  nw_longDelays :: bool
  nw_longReordering :: bool
  nw_ends :: "'e \<rightharpoonup> 'e ClientEnd"
  nw_enabled :: "'e \<Rightarrow> bool"
  nw_servers :: "'s \<rightharpoonup> nat"
  nw_connections :: "'e \<rightharpoonup> 's"
  nw_done :: bool
  nw_count :: "32 word"
  nw_bytes :: "64 word"

definition MakeNetwork :: "('e, 's) Network" where
  "MakeNetwork = \<lparr>nw_reliable = True, nw_longDelays = False, nw_longReordering = False, nw_ends = Map.empty,
     nw_enabled = (\<lambda>_. False), nw_servers = Map.empty, nw_connections = Map.empty, nw_done = False, nw_count = 0, nw_bytes = 0\<rparr>"

text \<open>Closing a closed channel panics.\<close>

definition net_Cleanup :: "('e, 's) Network \<Rightarrow> ('e, 's) Network option" where
  "net_Cleanup rn = (if nw_done rn then None else Some (rn\<lparr>nw_done := True\<rparr>))"

definition Reliable :: "bool \<Rightarrow> ('e, 's) Network \<Rightarrow> ('e, 's) Network" where
  "Reliable yes rn = rn\<lparr>nw_reliable := yes\<rparr>"

definition IsReliable :: "('e, 's) Network \<Rightarrow> bool" where
  "IsReliable rn = nw_reliable rn"

definition LongReordering :: "bool \<Rightarrow> ('e, 's) Network \<Rightarrow> ('e, 's) Network" where
  "LongReordering yes rn = rn\<lparr>nw_longReordering := yes\<rparr>"

definition LongDelays :: "bool \<Rightarrow> ('e, 's) Network \<Rightarrow> ('e, 's) Network" where
  "LongDelays yes rn = rn\<lparr>nw_longDelays := yes\<rparr>"

definition IsLongDelays :: "('e, 's) Network \<Rightarrow> bool" where
  "IsLongDelays rn = nw_longDelays rn"

definition readEndnameInfo :: "'e \<Rightarrow> ('e, 's) Network \<Rightarrow> bool \<times> 's option \<times> nat option \<times> bool \<times> bool" where
  "readEndnameInfo endname rn =
     (let servername = nw_connections rn endname
      in (nw_enabled rn endname, servername, Option.bind servername (nw_servers rn), nw_reliable rn, nw_longReordering rn))"

definition isServerDead :: "'e \<Rightarrow> 's \<Rightarrow> nat \<Rightarrow> ('e, 's) Network \<Rightarrow> bool" where
  "isServerDead endname servername server rn \<longleftrightarrow> \<not> nw_enabled rn endname \<or> nw_servers rn servername \<noteq> Some server"

definition MakeEnd :: "'e \<Rightarrow> ('e, 's) Network \<Rightarrow> ('e ClientEnd \<times> ('e, 's) Network) option" where
  "MakeEnd endname rn =
     (if nw_ends rn endname \<noteq> None then None
      else let e = \<lparr>ce_endname = endname\<rparr>
           in Some (e, rn\<lparr>nw_ends := (nw_ends rn)(endname \<mapsto> e), nw_enabled := (nw_enabled rn)(endname := False),
                          nw_connections := (nw_connections rn)(endname := None)\<rparr>))"

definition DeleteEnd :: "'e \<Rightarrow> ('e, 's) Network \<Rightarrow> ('e, 's) Network option" where
  "DeleteEnd endname rn =
     (if nw_ends rn endname = None then None
      else Some (rn\<lparr>nw_ends := (nw_ends rn)(endname := None), nw_enabled := (nw_enabled rn)(endname := False),
                    nw_connections := (nw_connections rn)(endname := None)\<rparr>))"

definition AddServer :: "'s \<Rightarrow> nat \<Rightarrow> ('e, 's) Network \<Rightarrow> ('e, 's) Network" where
  "AddServer servername rs rn = rn\<lparr>nw_servers := (nw_servers rn)(servername \<mapsto> rs)\<rparr>"

definition DeleteServer :: "'s \<Rightarrow> ('e, 's) Network \<Rightarrow> ('e, 's) Network" where
  "DeleteServer servername rn = rn\<lparr>nw_servers := (nw_servers rn)(servername := None)\<rparr>"

definition Connect :: "'e \<Rightarrow> 's \<Rightarrow> ('e, 's) Network \<Rightarrow> ('e, 's) Network" where
  "Connect endname servername rn = rn\<lparr>nw_connections := (nw_connections rn)(endname \<mapsto> servername)\<rparr>"

definition Enable :: "'e \<Rightarrow> bool \<Rightarrow> ('e, 's) Network \<Rightarrow> ('e, 's) Network" where
  "Enable endname enabled rn = rn\<lparr>nw_enabled := (nw_enabled rn)(endname := enabled)\<rparr>"

text \<open>\<open>None\<close> is the dereference of a deleted server.\<close>

definition net_GetCount :: "'s \<Rightarrow> ('rc, 'ty) rpc_Server list \<Rightarrow> ('e, 's) Network \<Rightarrow> int option" where
  "net_GetCount servername heap rn = do { svr \<leftarrow> nw_servers rn servername; rs \<leftarrow> go_nth heap (int svr); Some (Server_GetCount rs) }"

definition GetTotalCount :: "('e, 's) Network \<Rightarrow> int" where
  "GetTotalCount rn = sint (nw_count rn)"

definition GetTotalBytes :: "('e, 's) Network \<Rightarrow> int" where
  "GetTotalBytes rn = sint (nw_bytes rn)"

section \<open>Calls\<close>

text \<open>
  Where a call stands: the request has been taken from the channel; \<open>processReq\<close> waits for the
  handler; it has left that loop, with a reply or without; a timer will send a failure; a timer will
  send the reply; the reply is on the reply channel; the call has returned, \<open>None\<close> for false.
\<close>

datatype ('s, 'b, 'v) phase =
    Sent
  | Waiting 's nat bool bool
  | Closing 's nat bool bool "'b replyMsg option"
  | Timeout
  | Delayed "'b replyMsg"
  | Replying "'b replyMsg"
  | Returned "'v option"

text \<open>The goroutine of the handler, on the server with the given address.\<close>

datatype 'b handler = NotStarted | Running nat | Finished "'b replyMsg"

record ('e, 's, 'ty, 'v, 'b) rpc_call =
  cl_args :: 'v
  cl_req :: "('e, 'ty, 'b) reqMsg"
  cl_replyType :: 'ty
  cl_sent :: bool
  cl_phase :: "('s, 'b, 'v) phase"
  cl_handler :: "'b handler"

record ('e, 's, 'ty, 'v, 'b, 'rc, 'w) rpc_state =
  st_net :: "('e, 's) Network"
  st_heap :: "('rc, 'ty) rpc_Server list"
  st_world :: 'w
  st_calls :: "('e, 's, 'ty, 'v, 'b) rpc_call list"
  st_log :: "('v, 'rc) exec list"

definition failed :: "'b replyMsg" where
  "failed = \<lparr>rp_ok = False, rp_reply = []\<rparr>"

definition count_bytes :: "'b list \<Rightarrow> ('e, 's) Network \<Rightarrow> ('e, 's) Network" where
  "count_bytes b rn = rn\<lparr>nw_bytes := nw_bytes rn + of_nat (length b)\<rparr>"

definition set_phase :: "nat \<Rightarrow> ('s, 'b, 'v) phase \<Rightarrow> ('e, 's, 'ty, 'v, 'b, 'rc, 'w) rpc_state
    \<Rightarrow> ('e, 's, 'ty, 'v, 'b, 'rc, 'w) rpc_state" where
  "set_phase i p st = st\<lparr>st_calls := (st_calls st)[i := (st_calls st ! i)\<lparr>cl_phase := p\<rparr>]\<rparr>"

text \<open>
  \<open>Call\<close> up to the wait for the reply: the request is either taken by the network, which counts it,
  or the network is gone.
\<close>

definition Call_send :: "('ty, 'v, 'b, 'rc, 'w) rpc_code \<Rightarrow> 'e ClientEnd \<Rightarrow> string \<Rightarrow> 'v \<Rightarrow> 'ty \<Rightarrow> bool
    \<Rightarrow> ('e, 's, 'ty, 'v, 'b, 'rc, 'w) rpc_state \<Rightarrow> ('e, 's, 'ty, 'v, 'b, 'rc, 'w) rpc_state option" where
  "Call_send C e svcMeth args replyType taken st = do {
     b \<leftarrow> rc_enc C args;
     let req = \<lparr>rm_endname = ce_endname e, rm_svcMeth = svcMeth, rm_argsType = rc_typeof C args, rm_args = b\<rparr>;
     let c = \<lparr>cl_args = args, cl_req = req, cl_replyType = replyType, cl_sent = taken,
              cl_phase = (if taken then Sent else Returned None), cl_handler = NotStarted\<rparr>;
     let rn = st_net st;
     let rn = (if taken then count_bytes b (rn\<lparr>nw_count := nw_count rn + 1\<rparr>) else rn);
     Some (st\<lparr>st_net := rn, st_calls := st_calls st @ [c]\<rparr>)
   }"

text \<open>\<open>processReq\<close> up to its loop, with the coin for dropping the request.\<close>

definition processReq_begin :: "bool \<Rightarrow> nat \<Rightarrow> ('e, 's, 'ty, 'v, 'b, 'rc, 'w) rpc_state
    \<Rightarrow> ('e, 's, 'ty, 'v, 'b, 'rc, 'w) rpc_state" where
  "processReq_begin lose i st =
     (let c = st_calls st ! i in
      case readEndnameInfo (rm_endname (cl_req c)) (st_net st) of
        (True, Some servername, Some server, reliable, longreordering) \<Rightarrow>
          if \<not> reliable \<and> lose then set_phase i (Replying failed) st
          else st\<lparr>st_calls := (st_calls st)[i := c\<lparr>cl_phase := Waiting servername server reliable longreordering,
                                                    cl_handler := Running server\<rparr>]\<rparr>
      | _ \<Rightarrow> set_phase i Timeout st)"

text \<open>The goroutine that calls the handler.\<close>

definition processReq_handler :: "('ty, 'v, 'b, 'rc, 'w) rpc_code \<Rightarrow> nat \<Rightarrow> nat \<Rightarrow> ('e, 's, 'ty, 'v, 'b, 'rc, 'w) rpc_state
    \<Rightarrow> ('e, 's, 'ty, 'v, 'b, 'rc, 'w) rpc_state option" where
  "processReq_handler C server i st = do {
     let c = st_calls st ! i;
     rs \<leftarrow> go_nth (st_heap st) (int server);
     ((rcvr, meth, reply), r, rs, w) \<leftarrow> Server_dispatch C (cl_req c) rs (st_world st);
     Some (st\<lparr>st_heap := (st_heap st)[server := rs], st_world := w,
              st_calls := (st_calls st)[i := c\<lparr>cl_handler := Finished r\<rparr>],
              st_log := st_log st @ [\<lparr>ex_call = i, ex_server = server, ex_rcvr = rcvr, ex_method = meth,
                                      ex_args = decoded_args C (cl_req c), ex_reply = reply\<rparr>]\<rparr>)
   }"

text \<open>One turn of the loop: the reply of the handler, or 100 milliseconds have passed.\<close>

definition processReq_wait :: "bool \<Rightarrow> nat \<Rightarrow> ('e, 's, 'ty, 'v, 'b, 'rc, 'w) rpc_state
    \<Rightarrow> ('e, 's, 'ty, 'v, 'b, 'rc, 'w) rpc_state" where
  "processReq_wait timer i st =
     (let c = st_calls st ! i in
      case cl_phase c of
        Waiting servername server reliable longreordering \<Rightarrow>
          if timer then
            if isServerDead (rm_endname (cl_req c)) servername server (st_net st)
            then set_phase i (Closing servername server reliable longreordering None) st else st
          else (case cl_handler c of
                  Finished r \<Rightarrow> set_phase i (Closing servername server reliable longreordering (Some r)) st
                | _ \<Rightarrow> st)
      | _ \<Rightarrow> st)"

text \<open>After the loop, with the coins for dropping and for delaying the reply.\<close>

definition processReq_end :: "bool \<Rightarrow> bool \<Rightarrow> nat \<Rightarrow> ('e, 's, 'ty, 'v, 'b, 'rc, 'w) rpc_state
    \<Rightarrow> ('e, 's, 'ty, 'v, 'b, 'rc, 'w) rpc_state" where
  "processReq_end lose delay i st =
     (let c = st_calls st ! i in
      case cl_phase c of
        Closing servername server reliable longreordering reply \<Rightarrow>
          (let serverDead = isServerDead (rm_endname (cl_req c)) servername server (st_net st) in
           case reply of
             None \<Rightarrow> set_phase i (Replying failed) st
           | Some r \<Rightarrow>
               if serverDead then set_phase i (Replying failed) st
               else if \<not> reliable \<and> lose then set_phase i (Replying failed) st
               else if longreordering \<and> delay then set_phase i (Delayed r) st
               else (set_phase i (Replying r) st)\<lparr>st_net := count_bytes (rp_reply r) (st_net st)\<rparr>)
      | _ \<Rightarrow> st)"

text \<open>The timers that send a failure or the delayed reply.\<close>

definition processReq_timer :: "nat \<Rightarrow> ('e, 's, 'ty, 'v, 'b, 'rc, 'w) rpc_state
    \<Rightarrow> ('e, 's, 'ty, 'v, 'b, 'rc, 'w) rpc_state" where
  "processReq_timer i st =
     (case cl_phase (st_calls st ! i) of
        Timeout \<Rightarrow> set_phase i (Replying failed) st
      | Delayed r \<Rightarrow> (set_phase i (Replying r) st)\<lparr>st_net := count_bytes (rp_reply r) (st_net st)\<rparr>
      | _ \<Rightarrow> st)"

text \<open>\<open>Call\<close> when the reply arrives.\<close>

definition Call_return :: "('ty, 'v, 'b, 'rc, 'w) rpc_code \<Rightarrow> nat \<Rightarrow> ('e, 's, 'ty, 'v, 'b, 'rc, 'w) rpc_state
    \<Rightarrow> ('e, 's, 'ty, 'v, 'b, 'rc, 'w) rpc_state option" where
  "Call_return C i st =
     (let c = st_calls st ! i in
      case cl_phase c of
        Replying rep \<Rightarrow>
          if rp_ok rep then map_option (\<lambda>v. set_phase i (Returned (Some v)) st) (rc_dec C (cl_replyType c) (rp_reply rep))
          else Some (set_phase i (Returned None) st)
      | _ \<Rightarrow> Some st)"

section \<open>Steps\<close>

text \<open>Reconfiguration of the network, with \<open>n\<close> servers made so far.\<close>

inductive conf :: "nat \<Rightarrow> ('e, 's) Network \<Rightarrow> ('e, 's) Network \<Rightarrow> bool" for n where
  "MakeEnd e rn = Some (x, rn') \<Longrightarrow> conf n rn rn'"
| "DeleteEnd e rn = Some rn' \<Longrightarrow> conf n rn rn'"
| "a < n \<Longrightarrow> conf n rn (AddServer s a rn)"
| "conf n rn (DeleteServer s rn)"
| "conf n rn (Connect e s rn)"
| "conf n rn (Enable e yes rn)"
| "conf n rn (Reliable yes rn)"
| "conf n rn (LongReordering yes rn)"
| "conf n rn (LongDelays yes rn)"
| "net_Cleanup rn = Some rn' \<Longrightarrow> conf n rn rn'"

text \<open>The program around the network may change its state at any time.\<close>

inductive rpc_step :: "('ty, 'v, 'b, 'rc, 'w) rpc_code \<Rightarrow> ('e, 's, 'ty, 'v, 'b, 'rc, 'w) rpc_state
    \<Rightarrow> ('e, 's, 'ty, 'v, 'b, 'rc, 'w) rpc_state \<Rightarrow> bool" for C where
  conf: "conf (length (st_heap st)) (st_net st) rn \<Longrightarrow> rpc_step C st (st\<lparr>st_net := rn\<rparr>)"
| server: "rpc_step C st (st\<lparr>st_heap := st_heap st @ [MakeServer]\<rparr>)"
| service: "rpc_step C st (st\<lparr>st_heap := (st_heap st)[a := AddService svc (st_heap st ! a)]\<rparr>)"
| world: "rpc_step C st (st\<lparr>st_world := w\<rparr>)"
| send: "Call_send C e m args rt taken st = Some st' \<Longrightarrow> taken \<or> nw_done (st_net st) \<Longrightarrow> rpc_step C st st'"
| process: "i < length (st_calls st) \<Longrightarrow> cl_phase (st_calls st ! i) = Sent \<Longrightarrow> rpc_step C st (processReq_begin lose i st)"
| handle: "i < length (st_calls st) \<Longrightarrow> cl_handler (st_calls st ! i) = Running a \<Longrightarrow>
    processReq_handler C a i st = Some st' \<Longrightarrow> rpc_step C st st'"
| wait: "i < length (st_calls st) \<Longrightarrow> rpc_step C st (processReq_wait timer i st)"
| finish: "i < length (st_calls st) \<Longrightarrow> rpc_step C st (processReq_end lose delay i st)"
| timer: "i < length (st_calls st) \<Longrightarrow> rpc_step C st (processReq_timer i st)"
| return: "i < length (st_calls st) \<Longrightarrow> Call_return C i st = Some st' \<Longrightarrow> rpc_step C st st'"

definition rpc_init :: "('e, 's, 'ty, 'v, 'b, 'rc, 'w) rpc_state \<Rightarrow> bool" where
  "rpc_init st \<longleftrightarrow> st_net st = MakeNetwork \<and> st_calls st = [] \<and> st_log st = []"

section \<open>What a call can rely on\<close>

fun phase_ok :: "('ty, 'v, 'b, 'rc, 'w) rpc_code \<Rightarrow> 'ty \<Rightarrow> 'b handler \<Rightarrow> ('s, 'b, 'v) phase \<Rightarrow> bool" where
  "phase_ok C rt h Sent = (h = NotStarted)"
| "phase_ok C rt h Timeout = (h = NotStarted)"
| "phase_ok C rt h (Waiting s a x y) = (h \<noteq> NotStarted)"
| "phase_ok C rt h (Closing s a x y None) = (h \<noteq> NotStarted)"
| "phase_ok C rt h (Closing s a x y (Some r)) = (h = Finished r)"
| "phase_ok C rt h (Delayed r) = (h = Finished r)"
| "phase_ok C rt h (Replying r) = (r = failed \<or> h = Finished r)"
| "phase_ok C rt h (Returned None) = True"
| "phase_ok C rt h (Returned (Some v)) = (\<exists>r. h = Finished r \<and> rc_dec C rt (rp_reply r) = Some v)"

fun handler_ok :: "('ty, 'v, 'b, 'rc, 'w) rpc_code \<Rightarrow> ('e, 'ty, 'b) reqMsg \<Rightarrow> ('v, 'rc) exec list \<Rightarrow> 'b handler \<Rightarrow> bool" where
  "handler_ok C req es (Finished r) = (\<exists>e sv. es = [e] \<and> ex_args e = decoded_args C req
     \<and> split_meth (rm_svcMeth req) = Some (sv, ex_method e) \<and> r = \<lparr>rp_ok = True, rp_reply = encoded C (ex_reply e)\<rparr>)"
| "handler_ok C req es _ = (es = [])"

definition call_ok :: "('ty, 'v, 'b, 'rc, 'w) rpc_code \<Rightarrow> ('v, 'rc) exec list \<Rightarrow> nat \<Rightarrow> ('e, 's, 'ty, 'v, 'b) rpc_call \<Rightarrow> bool" where
  "call_ok C log i c \<longleftrightarrow> phase_ok C (cl_replyType c) (cl_handler c) (cl_phase c)
     \<and> handler_ok C (cl_req c) (filter (\<lambda>e. ex_call e = i) log) (cl_handler c)
     \<and> rc_enc C (cl_args c) = Some (rm_args (cl_req c)) \<and> rm_argsType (cl_req c) = rc_typeof C (cl_args c)"

definition rpc_inv :: "('ty, 'v, 'b, 'rc, 'w) rpc_code \<Rightarrow> ('e, 's, 'ty, 'v, 'b, 'rc, 'w) rpc_state \<Rightarrow> bool" where
  "rpc_inv C st \<longleftrightarrow> (\<forall>i < length (st_calls st). call_ok C (st_log st) i (st_calls st ! i))
     \<and> (\<forall>e \<in> set (st_log st). ex_call e < length (st_calls st))
     \<and> nw_count (st_net st) = of_nat (length (filter cl_sent (st_calls st)))
     \<and> (\<forall>s a. nw_servers (st_net st) s = Some a \<longrightarrow> a < length (st_heap st))
     \<and> (\<forall>i < length (st_calls st). \<forall>a. cl_handler (st_calls st ! i) = Running a \<longrightarrow> a < length (st_heap st))"

lemma rpc_invD:
  assumes "rpc_inv C st"
  shows "i < length (st_calls st) \<Longrightarrow> call_ok C (st_log st) i (st_calls st ! i)"
    and "e \<in> set (st_log st) \<Longrightarrow> ex_call e < length (st_calls st)"
    and "nw_count (st_net st) = of_nat (length (filter cl_sent (st_calls st)))"
    and "nw_servers (st_net st) s = Some a \<Longrightarrow> a < length (st_heap st)"
    and "i < length (st_calls st) \<Longrightarrow> cl_handler (st_calls st ! i) = Running a \<Longrightarrow> a < length (st_heap st)"
  using assms by (simp_all add: rpc_inv_def)

lemma sent_update:
  "i < length cs \<Longrightarrow> cl_sent c = cl_sent (cs ! i) \<Longrightarrow> length (filter cl_sent (cs[i := c])) = length (filter cl_sent cs)"
  by (induction cs arbitrary: i) (auto simp: nth_Cons split: nat.splits)

text \<open>A step that changes one call and no log.\<close>

lemma rpc_inv_call:
  assumes "rpc_inv C st" and "i < length (st_calls st)" and "call_ok C (st_log st) i c" and "cl_sent c = cl_sent (st_calls st ! i)"
    and "st_calls st' = (st_calls st)[i := c]" "st_log st' = st_log st" "nw_count (st_net st') = nw_count (st_net st)"
      "nw_servers (st_net st') = nw_servers (st_net st)" "st_heap st' = st_heap st"
    and "\<And>a. cl_handler c = Running a \<Longrightarrow> a < length (st_heap st)"
  shows "rpc_inv C st'"
  using assms by (auto simp: rpc_inv_def nth_list_update sent_update)

lemma count_bytes_simps [simp]:
  "nw_count (count_bytes b rn) = nw_count rn" "nw_enabled (count_bytes b rn) = nw_enabled rn"
  "nw_servers (count_bytes b rn) = nw_servers rn" "nw_connections (count_bytes b rn) = nw_connections rn"
  "nw_reliable (count_bytes b rn) = nw_reliable rn"
  by (simp_all add: count_bytes_def)

lemma rpc_inv_phase:
  assumes "rpc_inv C st" and "i < length (st_calls st)" and "phase_ok C (cl_replyType (st_calls st ! i)) (cl_handler (st_calls st ! i)) p"
  shows "rpc_inv C (set_phase i p st)" "rpc_inv C ((set_phase i p st)\<lparr>st_net := count_bytes b (st_net st)\<rparr>)"
  using rpc_invD(1,5) [OF assms(1,2)] assms(3)
  by (auto intro!: rpc_inv_call [OF assms(1,2), of "(st_calls st ! i)\<lparr>cl_phase := p\<rparr>"] simp: call_ok_def set_phase_def)

lemma conf_keeps:
  "conf n rn rn' \<Longrightarrow> nw_count rn' = nw_count rn \<and> (\<forall>s a. nw_servers rn' s = Some a \<longrightarrow> a < n \<or> nw_servers rn s = Some a)"
  by (induction rule: conf.induct)
    (auto simp: MakeEnd_def DeleteEnd_def AddServer_def DeleteServer_def Connect_def Enable_def Reliable_def LongReordering_def
      LongDelays_def net_Cleanup_def Let_def split: if_splits)

lemma rpc_inv_send:
  assumes inv: "rpc_inv C st" and "Call_send C e m args rt taken st = Some st'"
  shows "rpc_inv C st'"
proof -
  obtain b c where b: "rc_enc C args = Some b" and st': "st_calls st' = st_calls st @ [c]" "st_log st' = st_log st"
      "nw_count (st_net st') = (if taken then nw_count (st_net st) + 1 else nw_count (st_net st))"
      "nw_servers (st_net st') = nw_servers (st_net st)" "st_heap st' = st_heap st"
    and c: "cl_sent c = taken" "cl_handler c = NotStarted" "cl_phase c = (if taken then Sent else Returned None)" "cl_args c = args"
      "rm_args (cl_req c) = b" "rm_argsType (cl_req c) = rc_typeof C args"
    using assms(2) by (auto simp: Call_send_def Let_def split: Option.bind_splits)
  have "filter (\<lambda>e. ex_call e = length (st_calls st)) (st_log st) = []" using rpc_invD(2) [OF inv] by (fastforce simp: filter_empty_conv)
  then have "call_ok C (st_log st) (length (st_calls st)) c" using b c by (simp add: call_ok_def)
  then show ?thesis
    using inv st' c(1,2) by (auto simp: rpc_inv_def nth_append less_Suc_eq)
qed

lemma rpc_inv_begin:
  assumes inv: "rpc_inv C st" and i: "i < length (st_calls st)" "cl_phase (st_calls st ! i) = Sent"
  shows "rpc_inv C (processReq_begin lose i st)"
proof -
  let ?c = "st_calls st ! i"
  have n: "cl_handler ?c = NotStarted" using rpc_invD(1) [OF inv i(1)] i(2) by (simp add: call_ok_def)
  have "rpc_inv C (st\<lparr>st_calls := (st_calls st)[i := ?c\<lparr>cl_phase := Waiting s a x y, cl_handler := Running a\<rparr>]\<rparr>)"
    if "nw_servers (st_net st) s = Some a" for s a x y
    by (rule rpc_inv_call [OF inv i(1)]) (use rpc_invD(1) [OF inv i(1)] rpc_invD(4) [OF inv that] n in \<open>auto simp: call_ok_def\<close>)
  moreover have "rpc_inv C (set_phase i Timeout st)" "rpc_inv C (set_phase i (Replying failed) st)"
    using n by (auto intro: rpc_inv_phase [OF inv i(1)])
  ultimately show ?thesis
    by (auto simp: processReq_begin_def readEndnameInfo_def Let_def split: prod.split option.split bool.split Option.bind_splits)
qed

lemma rpc_inv_handler:
  assumes inv: "rpc_inv C st" and i: "i < length (st_calls st)" "cl_handler (st_calls st ! i) = Running a"
    and h: "processReq_handler C a i st = Some st'"
  shows "rpc_inv C st'"
proof -
  let ?c = "st_calls st ! i"
  obtain rs rcvr sv meth reply r rs' w where d: "Server_dispatch C (cl_req ?c) rs (st_world st) = Some ((rcvr, meth, reply), r, rs', w)"
    and st': "st_calls st' = (st_calls st)[i := ?c\<lparr>cl_handler := Finished r\<rparr>]" "st_net st' = st_net st"
      "length (st_heap st') = length (st_heap st)"
      "st_log st' = st_log st @ [\<lparr>ex_call = i, ex_server = a, ex_rcvr = rcvr, ex_method = meth,
         ex_args = decoded_args C (cl_req ?c), ex_reply = reply\<rparr>]"
    using h by (auto simp: processReq_handler_def Let_def split: Option.bind_splits prod.splits)
  have r: "r = \<lparr>rp_ok = True, rp_reply = encoded C reply\<rparr>" "\<exists>sv. split_meth (rm_svcMeth (cl_req ?c)) = Some (sv, meth)"
    using d by (auto simp: Server_dispatch_def Service_dispatch_def Let_def split: Option.bind_splits prod.splits if_splits)
  have c: "phase_ok C (cl_replyType ?c) (Running a) (cl_phase ?c)" "filter (\<lambda>e. ex_call e = i) (st_log st) = []"
    using rpc_invD(1) [OF inv i(1)] i(2) by (simp_all add: call_ok_def)
  have "phase_ok C (cl_replyType ?c) (Finished r) (cl_phase ?c)"
    using c(1) by (cases "(C, cl_replyType ?c, Running a :: 'c handler, cl_phase ?c)" rule: phase_ok.cases) auto
  then show ?thesis
    using inv st' c(2) r i(1) by (auto simp: rpc_inv_def call_ok_def nth_list_update sent_update)
qed

lemma rpc_inv_step:
  assumes st: "rpc_step C st st'" and inv: "rpc_inv C st"
  shows "rpc_inv C st'"
  using st
proof cases
  case (conf rn)
  have "a < length (st_heap st)" if "nw_servers rn s = Some a" for s a
    using conf_keeps [OF conf(2)] rpc_invD(4) [OF inv] that by blast
  then show ?thesis using conf_keeps [OF conf(2)] inv conf(1) by (simp add: rpc_inv_def)
next
  case server
  then show ?thesis using inv by (fastforce simp: rpc_inv_def)
next
  case (wait i timer)
  then show ?thesis
    using inv rpc_invD(1) [OF inv wait(2)]
    by (auto intro!: rpc_inv_phase(1) [OF inv wait(2)] simp: processReq_wait_def Let_def call_ok_def split: phase.splits handler.splits)
next
  case (finish i lose delay)
  then show ?thesis
    using inv rpc_invD(1) [OF inv finish(2)]
    by (auto intro!: rpc_inv_phase [OF inv finish(2)] simp: processReq_end_def Let_def call_ok_def split: phase.splits option.splits)
next
  case (timer i)
  then show ?thesis
    using inv rpc_invD(1) [OF inv timer(2)]
    by (auto intro!: rpc_inv_phase [OF inv timer(2)] simp: processReq_timer_def Let_def call_ok_def split: phase.splits)
next
  case (return i)
  then show ?thesis
    using inv rpc_invD(1) [OF inv return(1)]
    by (auto intro!: rpc_inv_phase(1) [OF inv return(1)] simp: Call_return_def Let_def call_ok_def failed_def split: phase.splits if_splits)
next
  case (send e m args rt taken)
  then show ?thesis using rpc_inv_send [OF inv] by blast
next
  case (process i lose)
  then show ?thesis using rpc_inv_begin [OF inv] by blast
next
  case (handle i a)
  then show ?thesis using rpc_inv_handler [OF inv] by blast
qed (use inv in \<open>auto simp: rpc_inv_def\<close>)

lemma rpc_reach_inv:
  assumes "rpc_init st0" and "(rpc_step C)\<^sup>*\<^sup>* st0 st"
  shows "rpc_inv C st"
  using assms(2)
proof (induction rule: rtranclp_induct)
  case base
  then show ?case using assms(1) by (simp add: rpc_inv_def rpc_init_def MakeNetwork_def)
next
  case (step st st')
  then show ?case using rpc_inv_step by blast
qed

text \<open>
  The codec gives back what it was given.  This is what encoding/gob documents for the values that
  the encoder of labgob accepts.
\<close>

definition codec_ok :: "('ty, 'v, 'b, 'rc, 'w) rpc_code \<Rightarrow> bool" where
  "codec_ok C \<longleftrightarrow> (\<forall>v. \<exists>b. rc_enc C v = Some b \<and> rc_dec C (rc_typeof C v) b = Some v)"

lemma codec_okD:
  assumes "codec_ok C"
  shows "rc_dec C (rc_typeof C v) (encoded C v) = Some v"
    and "rc_enc C v = Some b \<Longrightarrow> rc_dec C (rc_typeof C v) b = Some v"
proof -
  obtain b' where b': "rc_enc C v = Some b'" "rc_dec C (rc_typeof C v) b' = Some v" using assms by (auto simp: codec_ok_def)
  then show "rc_dec C (rc_typeof C v) (encoded C v) = Some v" by (simp add: encoded_def)
  show "rc_enc C v = Some b \<Longrightarrow> rc_dec C (rc_typeof C v) b = Some v" using b' by simp
qed

lemma call_ok_args: "codec_ok C \<Longrightarrow> call_ok C log i c \<Longrightarrow> decoded_args C (cl_req c) = cl_args c"
  by (simp add: call_ok_def decoded_args_def codec_okD(2))

text \<open>
  C16: what a call means.  Whatever the network loses, delays and disconnects and however servers
  come and go, the handler of a call is executed at most once.  When the call returns true it was
  executed exactly once, with the method named by the caller and the arguments of the caller, and a
  caller that reads the reply at the type of what the handler gave gets exactly that.
\<close>

theorem rpc_at_most_once:
  assumes "rpc_init st0" "(rpc_step C)\<^sup>*\<^sup>* st0 st" "codec_ok C" "i < length (st_calls st)"
  shows "length (filter (\<lambda>e. ex_call e = i) (st_log st)) \<le> 1
     \<and> (\<forall>v. cl_phase (st_calls st ! i) = Returned (Some v) \<longrightarrow>
          (\<exists>e sv. filter (\<lambda>e. ex_call e = i) (st_log st) = [e] \<and> ex_args e = cl_args (st_calls st ! i)
            \<and> split_meth (rm_svcMeth (cl_req (st_calls st ! i))) = Some (sv, ex_method e)
            \<and> (rc_typeof C (ex_reply e) = cl_replyType (st_calls st ! i) \<longrightarrow> ex_reply e = v)))"
proof -
  let ?c = "st_calls st ! i" and ?es = "filter (\<lambda>e. ex_call e = i) (st_log st)"
  have ok: "call_ok C (st_log st) i ?c" by (rule rpc_invD(1) [OF rpc_reach_inv [OF assms(1,2)] assms(4)])
  have h: "handler_ok C (cl_req ?c) ?es (cl_handler ?c)" using ok by (simp add: call_ok_def)
  have "\<exists>e sv. ?es = [e] \<and> ex_args e = cl_args ?c \<and> split_meth (rm_svcMeth (cl_req ?c)) = Some (sv, ex_method e)
      \<and> (rc_typeof C (ex_reply e) = cl_replyType ?c \<longrightarrow> ex_reply e = v)" if p: "cl_phase ?c = Returned (Some v)" for v
  proof -
    obtain r where r: "cl_handler ?c = Finished r" "rc_dec C (cl_replyType ?c) (rp_reply r) = Some v"
      using ok p by (auto simp: call_ok_def)
    then obtain e sv where e: "?es = [e]" "ex_args e = decoded_args C (cl_req ?c)"
      "split_meth (rm_svcMeth (cl_req ?c)) = Some (sv, ex_method e)" "rp_reply r = encoded C (ex_reply e)"
      using h by auto
    have "ex_reply e = v" if "rc_typeof C (ex_reply e) = cl_replyType ?c"
      using r(2) e(4) codec_okD(1) [OF assms(3), of "ex_reply e"] that by simp
    then show ?thesis using e(1-3) call_ok_args [OF assms(3) ok] by auto
  qed
  moreover have "length ?es \<le> 1" using h by (cases "cl_handler ?c") auto
  ultimately show ?thesis by blast
qed

section \<open>Types\<close>

text \<open>What a server needs to execute a request without a panic.\<close>

definition serves :: "('ty, 'v, 'b, 'rc, 'w) rpc_code \<Rightarrow> ('rc, 'ty) rpc_Server \<Rightarrow> string \<Rightarrow> 'ty \<Rightarrow> 'ty \<Rightarrow> bool" where
  "serves C rs svcMeth argsType replyType \<longleftrightarrow>
     (case split_meth svcMeth of
        None \<Rightarrow> False
      | Some (sv, meth) \<Rightarrow>
          (case rsv_services rs sv of
             None \<Rightarrow> False
           | Some svc \<Rightarrow>
               (case svc_methods svc meth of
                  None \<Rightarrow> False
                | Some m \<Rightarrow> rc_accepts C argsType (fst (mt_In m ! 1))
                    \<and> (\<forall>v w. rc_typeof C (fst (rc_run C (svc_rcvr svc) meth v w)) = replyType))))"

lemma serves_dispatch:
  assumes "serves C rs (rm_svcMeth req) (rm_argsType req) rt"
  shows "\<exists>rcvr meth reply r rs' w'. Server_dispatch C req rs w = Some ((rcvr, meth, reply), r, rs', w')
    \<and> rc_typeof C reply = rt \<and> rsv_count rs' = rsv_count rs + 1"
  using assms by (auto simp: serves_def Server_dispatch_def Service_dispatch_def Let_def split_beta split: option.splits prod.splits)

lemma LastIndex_last:
  assumes "c \<notin> set y"
  shows "LastIndex (x @ c # y) c = int (length x)"
proof -
  have "takeWhile (\<lambda>z. z \<noteq> c) (rev y @ c # rev x) = rev y" using assms by (subst takeWhile_append2) auto
  then show ?thesis by (simp add: LastIndex_def Let_def)
qed

lemma split_meth_name:
  assumes "CHR ''.'' \<notin> set meth"
  shows "split_meth (name @ CHR ''.'' # meth) = Some (name, meth)"
  using LastIndex_last [OF assms, of name] by (simp add: split_meth_def slice_to_def slice_from_def nat_add_distrib)

lemma foldl_methods:
  "foldl (\<lambda>M m. if suitable m then M(mt_Name m \<mapsto> m) else M) M0 ms x =
     (case filter (\<lambda>m. suitable m \<and> mt_Name m = x) (rev ms) of [] \<Rightarrow> M0 x | m # _ \<Rightarrow> Some m)"
  by (induction ms arbitrary: M0) (auto split: list.splits simp: filter_empty_conv Cons_eq_append_conv append_eq_Cons_conv)

text \<open>The methods of a service are the suitable methods of its receiver.\<close>

lemma MakeService_methods:
  assumes "distinct (map mt_Name ms)"
  shows "svc_methods (MakeService name rcvr ms) x = Some m \<longleftrightarrow> m \<in> set ms \<and> suitable m \<and> mt_Name m = x"
proof
  assume "svc_methods (MakeService name rcvr ms) x = Some m"
  then obtain l where "filter (\<lambda>m. suitable m \<and> mt_Name m = x) (rev ms) = m # l"
    by (auto simp: MakeService_def foldl_methods split: list.splits)
  then have "m \<in> set (filter (\<lambda>m. suitable m \<and> mt_Name m = x) (rev ms))" by simp
  then show "m \<in> set ms \<and> suitable m \<and> mt_Name m = x" by simp
next
  assume m: "m \<in> set ms \<and> suitable m \<and> mt_Name m = x"
  obtain m' l where l: "filter (\<lambda>m. suitable m \<and> mt_Name m = x) (rev ms) = m' # l"
    using m by (cases "filter (\<lambda>m. suitable m \<and> mt_Name m = x) (rev ms)") (auto simp: filter_empty_conv)
  then have "m' \<in> set (filter (\<lambda>m. suitable m \<and> mt_Name m = x) (rev ms))" by simp
  then have "m' \<in> set ms" "mt_Name m' = x" by simp_all
  then have "m' = m" using assms m by (auto simp: distinct_map inj_on_def)
  then show "svc_methods (MakeService name rcvr ms) x = Some m" using l by (simp add: MakeService_def foldl_methods)
qed

text \<open>
  C28: well-typed calls do not go wrong.  A receiver is registered with methods of distinct names; the
  caller names the service and an exported method with a pointer to the reply and no result, passes
  an argument assignable to its parameter, and reads the reply at the type the method gives.  Then
  dispatching the request does not panic, runs exactly that method of the receiver on the argument,
  counts the request, and its reply decodes to the value the method gave, which has the reply type.
\<close>

theorem dispatch_typed:
  fixes C :: "('ty, 'v, 'b, 'rc, 'w) rpc_code"
  assumes C: "codec_ok C" and m: "m \<in> set ms" "suitable m" "distinct (map mt_Name ms)" "CHR ''.'' \<notin> set (mt_Name m)"
    and args: "rc_accepts C (rc_typeof C v) (fst (mt_In m ! 1))" "rc_enc C v = Some b"
    and reply: "\<And>x w. rc_typeof C (fst (rc_run C rcvr (mt_Name m) x w)) = rt"
    and req: "req = \<lparr>rm_endname = e, rm_svcMeth = name @ CHR ''.'' # mt_Name m, rm_argsType = rc_typeof C v, rm_args = b\<rparr>"
  shows "\<exists>r rs' w'. Server_dispatch C req (AddService (MakeService name rcvr ms) rs) w
       = Some ((rcvr, mt_Name m, fst (rc_run C rcvr (mt_Name m) v w)), r, rs', w')
     \<and> w' = snd (rc_run C rcvr (mt_Name m) v w) \<and> rp_ok r \<and> rsv_count rs' = rsv_count rs + 1
     \<and> rc_dec C rt (rp_reply r) = Some (fst (rc_run C rcvr (mt_Name m) v w))"
proof -
  have "svc_methods (MakeService name rcvr ms) (mt_Name m) = Some m" using m(1,2) by (simp add: MakeService_methods [OF m(3)])
  moreover have "decoded_args C req = v" using codec_okD(2) [OF C args(2)] by (simp add: decoded_args_def req)
  moreover have "split_meth (rm_svcMeth req) = Some (name, mt_Name m)" using split_meth_name [OF m(4)] by (simp add: req)
  moreover have "svc_name (MakeService name rcvr ms) = name" "svc_rcvr (MakeService name rcvr ms) = rcvr"
    by (simp_all add: MakeService_def)
  moreover have "rc_dec C rt (encoded C (fst (rc_run C rcvr (mt_Name m) v w))) = Some (fst (rc_run C rcvr (mt_Name m) v w))"
    using codec_okD(1) [OF C, of "fst (rc_run C rcvr (mt_Name m) v w)"] reply by simp
  ultimately show ?thesis
    using args(1) by (simp add: Server_dispatch_def Service_dispatch_def AddService_def Let_def split_beta) (simp add: req)
qed

section \<open>Calls return\<close>

definition settles :: "('ty, 'v, 'b, 'rc, 'w) rpc_code \<Rightarrow> nat \<Rightarrow> ('e, 's, 'ty, 'v, 'b, 'rc, 'w) rpc_state \<Rightarrow> bool" where
  "settles C i st \<longleftrightarrow> (\<exists>st' r. (rpc_step C)\<^sup>*\<^sup>* st st' \<and> cl_phase (st_calls st' ! i) = Returned r)"

lemma settles_step: "rpc_step C st st' \<Longrightarrow> settles C i st' \<Longrightarrow> settles C i st"
  by (auto simp: settles_def intro: converse_rtranclp_into_rtranclp)

text \<open>A call in good hands: its request is served wherever it arrives, and so it was.\<close>

definition well_served :: "('ty, 'v, 'b, 'rc, 'w) rpc_code \<Rightarrow> nat \<Rightarrow> ('e, 's, 'ty, 'v, 'b, 'rc, 'w) rpc_state \<Rightarrow> bool" where
  "well_served C i st \<longleftrightarrow> (let c = st_calls st ! i in
     (\<forall>rs \<in> set (st_heap st). serves C rs (rm_svcMeth (cl_req c)) (rm_argsType (cl_req c)) (cl_replyType c))
     \<and> (\<forall>e \<in> set (st_log st). ex_call e = i \<longrightarrow> rc_typeof C (ex_reply e) = cl_replyType c))"

lemma well_served_phase [simp]:
  "i < length (st_calls st) \<Longrightarrow> well_served C i (set_phase i p st) = well_served C i st"
  "well_served C i (st\<lparr>st_net := rn\<rparr>) = well_served C i st"
  by (simp_all add: well_served_def set_phase_def Let_def)

lemma set_phase_simps [simp]:
  "i < length (st_calls st) \<Longrightarrow> st_calls (set_phase i p st) ! i = (st_calls st ! i)\<lparr>cl_phase := p\<rparr>"
  "length (st_calls (set_phase i p st)) = length (st_calls st)"
  "st_net (set_phase i p st) = st_net st" "st_heap (set_phase i p st) = st_heap st" "st_log (set_phase i p st) = st_log st"
  by (simp_all add: set_phase_def)

lemma settles_Replying:
  assumes inv: "rpc_inv C st" and C: "codec_ok C" and i: "i < length (st_calls st)" "well_served C i st"
    and p: "cl_phase (st_calls st ! i) = Replying r"
  shows "settles C i st"
proof -
  let ?c = "st_calls st ! i"
  note ok = rpc_invD(1) [OF inv i(1)]
  have "\<exists>x. Call_return C i st = Some (set_phase i (Returned x) st)"
  proof (cases "rp_ok r")
    case True
    then have "cl_handler ?c = Finished r" using ok p by (auto simp: call_ok_def failed_def)
    then obtain e where e: "filter (\<lambda>e. ex_call e = i) (st_log st) = [e]" "rp_reply r = encoded C (ex_reply e)"
      using ok by (auto simp: call_ok_def)
    have "e \<in> set (filter (\<lambda>e. ex_call e = i) (st_log st))" using e(1) by simp
    then have "rc_typeof C (ex_reply e) = cl_replyType ?c" using i(2) by (auto simp: well_served_def Let_def)
    then show ?thesis using codec_okD(1) [OF C, of "ex_reply e"] e(2) p True
      by (intro exI [of _ "Some (ex_reply e)"]) (simp add: Call_return_def)
  next
    case False
    then show ?thesis using p by (intro exI [of _ None]) (simp add: Call_return_def)
  qed
  then obtain x where "rpc_step C st (set_phase i (Returned x) st)" using rpc_step.return [OF i(1)] by blast
  moreover have "settles C i (set_phase i (Returned x) st)"
    unfolding settles_def by (intro exI [of _ "set_phase i (Returned x) st"] exI [of _ x]) (use i(1) in simp)
  ultimately show ?thesis by (rule settles_step)
qed

lemma settles_timer:
  assumes inv: "rpc_inv C st" and C: "codec_ok C" and i: "i < length (st_calls st)" "well_served C i st"
    and p: "cl_phase (st_calls st ! i) = Timeout \<or> cl_phase (st_calls st ! i) = Delayed r"
  shows "settles C i st"
proof -
  have st: "rpc_step C st (processReq_timer i st)" by (rule rpc_step.timer [OF i(1)])
  have "settles C i (processReq_timer i st)"
    using settles_Replying [OF rpc_inv_step [OF st inv] C] i p
    by (elim disjE) (simp_all add: processReq_timer_def)
  then show ?thesis by (rule settles_step [OF st])
qed

lemma settles_Closing:
  assumes inv: "rpc_inv C st" and C: "codec_ok C" and i: "i < length (st_calls st)" "well_served C i st"
    and p: "cl_phase (st_calls st ! i) = Closing s a x y r"
  shows "settles C i st"
proof -
  have st: "rpc_step C st (processReq_end False False i st)" by (rule rpc_step.finish [OF i(1)])
  have "\<exists>r. cl_phase (st_calls (processReq_end False False i st) ! i) = Replying r"
    "well_served C i (processReq_end False False i st)" "length (st_calls (processReq_end False False i st)) = length (st_calls st)"
    using i p by (simp_all add: processReq_end_def Let_def split: option.splits)
  then have "settles C i (processReq_end False False i st)"
    using settles_Replying [OF rpc_inv_step [OF st inv] C] i(1) by auto
  then show ?thesis by (rule settles_step [OF st])
qed

lemma settles_Finished:
  assumes inv: "rpc_inv C st" and C: "codec_ok C" and i: "i < length (st_calls st)" "well_served C i st"
    and p: "cl_phase (st_calls st ! i) = Waiting s a x y" "cl_handler (st_calls st ! i) = Finished r"
  shows "settles C i st"
proof -
  have st: "rpc_step C st (processReq_wait False i st)" by (rule rpc_step.wait [OF i(1)])
  have "settles C i (processReq_wait False i st)"
    using settles_Closing [OF rpc_inv_step [OF st inv] C] i p by (simp add: processReq_wait_def)
  then show ?thesis by (rule settles_step [OF st])
qed

lemma settles_Running:
  assumes inv: "rpc_inv C st" and C: "codec_ok C" and i: "i < length (st_calls st)" "well_served C i st"
    and p: "cl_phase (st_calls st ! i) = Waiting s a x y" "cl_handler (st_calls st ! i) = Running b"
  shows "settles C i st"
proof -
  let ?c = "st_calls st ! i"
  have b: "b < length (st_heap st)" by (rule rpc_invD(5) [OF inv i(1) p(2)])
  then have sb: "serves C (st_heap st ! b) (rm_svcMeth (cl_req ?c)) (rm_argsType (cl_req ?c)) (cl_replyType ?c)"
    using i(2) by (simp add: well_served_def Let_def)
  from serves_dispatch [OF sb, of "st_world st"] obtain rcvr meth reply r rs w
    where d: "Server_dispatch C (cl_req ?c) (st_heap st ! b) (st_world st) = Some ((rcvr, meth, reply), r, rs, w)"
      "rc_typeof C reply = cl_replyType ?c" by blast
  have rs: "rsv_services rs = rsv_services (st_heap st ! b)"
    using d(1) by (auto simp: Server_dispatch_def Let_def split: Option.bind_splits prod.splits)
  let ?st = "st\<lparr>st_heap := (st_heap st)[b := rs], st_world := w, st_calls := (st_calls st)[i := ?c\<lparr>cl_handler := Finished r\<rparr>],
      st_log := st_log st @ [\<lparr>ex_call = i, ex_server = b, ex_rcvr = rcvr, ex_method = meth,
        ex_args = decoded_args C (cl_req ?c), ex_reply = reply\<rparr>]\<rparr>"
  have "processReq_handler C b i st = Some ?st" using b d(1) by (simp add: processReq_handler_def go_nth_nat Let_def)
  then have st: "rpc_step C st ?st" by (rule rpc_step.handle [OF i(1) p(2)])
  have "serves C rs (rm_svcMeth (cl_req ?c)) (rm_argsType (cl_req ?c)) (cl_replyType ?c)"
    using sb unfolding serves_def rs .
  then have "well_served C i ?st" using i d(2) by (auto simp: well_served_def Let_def dest!: set_update_subset_insert [THEN subsetD])
  then have "settles C i ?st" using settles_Finished [OF rpc_inv_step [OF st inv] C] i(1) p(1) by simp
  then show ?thesis by (rule settles_step [OF st])
qed

lemma settles_Waiting:
  assumes inv: "rpc_inv C st" and "codec_ok C" and i: "i < length (st_calls st)" "well_served C i st"
    and p: "cl_phase (st_calls st ! i) = Waiting s a x y"
  shows "settles C i st"
  using settles_Running [OF assms] settles_Finished [OF assms] rpc_invD(1) [OF inv i(1)] p
  by (cases "cl_handler (st_calls st ! i)") (simp_all add: call_ok_def)

lemma settles_Sent:
  assumes inv: "rpc_inv C st" and C: "codec_ok C" and i: "i < length (st_calls st)" "well_served C i st"
    and p: "cl_phase (st_calls st ! i) = Sent"
  shows "settles C i st"
proof -
  let ?st = "processReq_begin False i st" and ?c = "st_calls st ! i"
  have st: "rpc_step C st ?st" by (rule rpc_step.process [OF i(1) p])
  have "?st = set_phase i Timeout st
      \<or> (\<exists>s a x y. ?st = st\<lparr>st_calls := (st_calls st)[i := ?c\<lparr>cl_phase := Waiting s a x y, cl_handler := Running a\<rparr>]\<rparr>)"
    by (auto simp: processReq_begin_def Let_def split: prod.split option.split bool.split)
  then have "length (st_calls ?st) = length (st_calls st) \<and> well_served C i ?st
      \<and> (cl_phase (st_calls ?st ! i) = Timeout \<or> (\<exists>s a x y. cl_phase (st_calls ?st ! i) = Waiting s a x y))"
    using i by (elim disjE exE) (simp_all add: well_served_def Let_def)
  then have "settles C i ?st"
    using settles_timer [OF rpc_inv_step [OF st inv] C] settles_Waiting [OF rpc_inv_step [OF st inv] C] i(1) by metis
  then show ?thesis by (rule settles_step [OF st])
qed

text \<open>
  C27: a call never hangs.  Whatever state the network has reached, a call that is served with the
  right types wherever it may arrive has a continuation in which it returns: it is not stuck on a
  lost message, a deleted server, a disabled end or a reply that cannot be decoded.
\<close>

theorem rpc_call_returns:
  assumes "rpc_init st0" "(rpc_step C)\<^sup>*\<^sup>* st0 st" "codec_ok C" "i < length (st_calls st)" "well_served C i st"
  shows "\<exists>st' r. (rpc_step C)\<^sup>*\<^sup>* st st' \<and> cl_phase (st_calls st' ! i) = Returned r"
proof -
  note inv = rpc_reach_inv [OF assms(1,2)]
  have "settles C i st"
    using settles_Sent [OF inv assms(3-5)] settles_Waiting [OF inv assms(3-5)] settles_Closing [OF inv assms(3-5)]
      settles_timer [OF inv assms(3-5)] settles_Replying [OF inv assms(3-5)]
    by (cases "cl_phase (st_calls st ! i)") (auto simp: settles_def)
  then show ?thesis by (simp add: settles_def)
qed

section \<open>A reliable network\<close>

text \<open>The end is enabled and connected to a server that is there, and the network is reliable.\<close>

definition stays :: "'e \<Rightarrow> 's \<Rightarrow> nat \<Rightarrow> ('e, 's) Network \<Rightarrow> bool" where
  "stays e s a rn \<longleftrightarrow> nw_reliable rn \<and> nw_enabled rn e \<and> nw_connections rn e = Some s \<and> nw_servers rn s = Some a"

fun on_track :: "'s \<Rightarrow> nat \<Rightarrow> ('s, 'b, 'v) phase \<Rightarrow> bool" where
  "on_track s a Sent = True"
| "on_track s a Timeout = False"
| "on_track s a (Waiting s' a' x y) = (s' = s \<and> a' = a \<and> x)"
| "on_track s a (Closing s' a' x y r) = (s' = s \<and> a' = a \<and> x \<and> r \<noteq> None)"
| "on_track s a (Delayed r) = rp_ok r"
| "on_track s a (Replying r) = rp_ok r"
| "on_track s a (Returned v) = (v \<noteq> None)"

lemma step_other:
  assumes "rpc_step C st st'" and "i < length (st_calls st)"
  shows "i < length (st_calls st') \<and> cl_req (st_calls st' ! i) = cl_req (st_calls st ! i)"
  using assms(1)
proof cases
  case (send e m args rt taken)
  then show ?thesis using assms(2) by (auto simp: Call_send_def Let_def nth_append split: Option.bind_splits)
next
  case (process j lose)
  then show ?thesis using assms(2)
    by (auto simp: processReq_begin_def set_phase_def Let_def nth_list_update split: prod.splits option.splits bool.splits)
next
  case (handle j a)
  then show ?thesis using assms(2)
    by (auto simp: processReq_handler_def Let_def nth_list_update split: Option.bind_splits prod.splits)
next
  case (return j)
  then show ?thesis using assms(2)
    by (auto simp: Call_return_def set_phase_def Let_def nth_list_update split: phase.splits if_splits)
qed (use assms(2) in \<open>auto simp: processReq_wait_def processReq_end_def processReq_timer_def set_phase_def Let_def nth_list_update
      split: phase.splits option.splits handler.splits\<close>)

lemma steps_other:
  assumes "(rpc_step C)\<^sup>*\<^sup>* st st'" and "i < length (st_calls st)"
  shows "i < length (st_calls st') \<and> cl_req (st_calls st' ! i) = cl_req (st_calls st ! i)"
  using assms(1)
proof (induction rule: rtranclp_induct)
  case (step x y)
  then show ?case using step_other [OF step.hyps(2), of i] by simp
qed (use assms(2) in simp)

text \<open>Handling a call does not change what decides about it.\<close>

lemma stays_call:
  "stays e s a (st_net (processReq_begin lose i st)) = stays e s a (st_net st)"
  "stays e s a (st_net (processReq_wait tm i st)) = stays e s a (st_net st)"
  "stays e s a (st_net (processReq_end lose delay i st)) = stays e s a (st_net st)"
  "processReq_handler C b i st = Some st' \<Longrightarrow> stays e s a (st_net st') = stays e s a (st_net st)"
  "Call_return C i st = Some st' \<Longrightarrow> stays e s a (st_net st') = stays e s a (st_net st)"
proof -
  show "stays e s a (st_net (processReq_begin lose i st)) = stays e s a (st_net st)"
    by (simp add: processReq_begin_def Let_def split: prod.split option.split bool.split)
  show "stays e s a (st_net (processReq_wait tm i st)) = stays e s a (st_net st)"
    by (simp add: processReq_wait_def Let_def split: phase.split handler.split)
  show "stays e s a (st_net (processReq_end lose delay i st)) = stays e s a (st_net st)"
    by (simp add: processReq_end_def Let_def stays_def split: phase.split option.split)
  show "processReq_handler C b i st = Some st' \<Longrightarrow> stays e s a (st_net st') = stays e s a (st_net st)"
    by (auto simp: processReq_handler_def Let_def split: Option.bind_splits prod.splits)
  show "Call_return C i st = Some st' \<Longrightarrow> stays e s a (st_net st') = stays e s a (st_net st)"
    by (auto simp: Call_return_def Let_def split: phase.splits if_splits)
qed

lemma on_track_step:
  assumes st: "rpc_step C st st'" and inv: "rpc_inv C st" and i: "i < length (st_calls st)"
    and ot: "on_track s a (cl_phase (st_calls st ! i))" and sy: "stays (rm_endname (cl_req (st_calls st ! i))) s a (st_net st)"
  shows "on_track s a (cl_phase (st_calls st' ! i))"
  using st
proof cases
  case (send e m args rt taken)
  then show ?thesis using i ot by (auto simp: Call_send_def Let_def nth_append split: Option.bind_splits)
next
  case (process j lose)
  then show ?thesis using i ot sy
    by (auto simp: processReq_begin_def readEndnameInfo_def stays_def set_phase_def Let_def nth_list_update
        split: prod.splits option.splits bool.splits)
next
  case (handle j b)
  then show ?thesis using i ot
    by (auto simp: processReq_handler_def Let_def nth_list_update split: Option.bind_splits prod.splits)
next
  case (wait j timer)
  then show ?thesis using i ot sy
    by (auto simp: processReq_wait_def isServerDead_def stays_def set_phase_def Let_def nth_list_update split: phase.splits handler.splits)
next
  case (finish j lose delay)
  then show ?thesis using i ot sy rpc_invD(1) [OF inv i]
    by (auto simp: processReq_end_def isServerDead_def stays_def set_phase_def Let_def nth_list_update call_ok_def
        split: phase.splits option.splits)
next
  case (timer j)
  then show ?thesis using i ot by (auto simp: processReq_timer_def set_phase_def Let_def nth_list_update split: phase.splits)
next
  case (return j)
  then show ?thesis using i ot
    by (auto simp: Call_return_def set_phase_def Let_def nth_list_update split: phase.splits if_splits)
qed (use i ot in auto)

text \<open>
  C29: a reliable network keeps its promise.  While the network stays reliable and the end enabled and
  connected to the same running server, a call on it never returns false.
\<close>

theorem reliable_call_succeeds:
  assumes "rpc_init st0" "(rpc_step C)\<^sup>*\<^sup>* st0 st" "i < length (st_calls st)" "cl_phase (st_calls st ! i) = Sent"
    and "stays (rm_endname (cl_req (st_calls st ! i))) s a (st_net st)"
    and "(\<lambda>x y. rpc_step C x y \<and> stays (rm_endname (cl_req (st_calls st ! i))) s a (st_net y))\<^sup>*\<^sup>* st st'"
  shows "cl_phase (st_calls st' ! i) \<noteq> Returned None"
proof -
  let ?e = "rm_endname (cl_req (st_calls st ! i))"
  have "rpc_inv C st' \<and> i < length (st_calls st') \<and> rm_endname (cl_req (st_calls st' ! i)) = ?e
      \<and> stays ?e s a (st_net st') \<and> on_track s a (cl_phase (st_calls st' ! i))"
    using assms(6)
  proof (induction rule: rtranclp_induct)
    case base
    then show ?case using assms(3-5) rpc_reach_inv [OF assms(1,2)] by simp
  next
    case (step x y)
    then show ?case using rpc_inv_step step_other [of C x y i] on_track_step [of C x y i s a] by force
  qed
  then show ?thesis by auto
qed

text \<open>The statistics are right as long as they fit: the counter of requests has 32 bits.\<close>

lemma GetTotalCount_calls:
  assumes "rpc_init st0" "(rpc_step C)\<^sup>*\<^sup>* st0 st" "length (filter cl_sent (st_calls st)) < 2 ^ 31"
  shows "GetTotalCount (st_net st) = int (length (filter cl_sent (st_calls st)))"
  using rpc_invD(3) [OF rpc_reach_inv [OF assms(1,2)]] assms(3)
  by (simp add: GetTotalCount_def signed_of_nat signed_take_bit_int_eq_self)

section \<open>A run\<close>

text \<open>A server with one method that adds its argument to a number; a client calls it with 5.\<close>

definition ex_code :: "(unit, nat, nat, unit, nat) rpc_code" where
  "ex_code = \<lparr>rc_enc = (\<lambda>v. Some [v]), rc_dec = (\<lambda>_ b. if b = [] then None else Some (hd b)), rc_zero = (\<lambda>_. 0),
     rc_accepts = (\<lambda>_ _. True), rc_typeof = (\<lambda>_. ()), rc_run = (\<lambda>_ _ v w. (w + v, w + v))\<rparr>"

definition ex_add :: "unit rmethod" where
  "ex_add = \<lparr>mt_Name = ''Add'', mt_PkgPath = '''', mt_In = [((), NoPtr), ((), NoPtr), ((), Ptr)], mt_NumOut = 0\<rparr>"

type_synonym ex_rpc_state = "(nat, nat, unit, nat, nat, unit, nat) rpc_state"

definition ex_rpc0 :: ex_rpc_state where
  "ex_rpc0 = \<lparr>st_net = MakeNetwork, st_heap = [], st_world = 37, st_calls = [], st_log = []\<rparr>"

definition ex_rpc1 :: ex_rpc_state where
  "ex_rpc1 = ex_rpc0\<lparr>st_heap := [AddService (MakeService ''S'' () [ex_add]) MakeServer],
     st_net := Enable 0 True (Connect 0 7 (snd (the (MakeEnd 0 (AddServer 7 0 MakeNetwork)))))\<rparr>"

definition ex_rpc2 :: ex_rpc_state where
  "ex_rpc2 = the (Call_send ex_code \<lparr>ce_endname = 0\<rparr> ''S.Add'' 5 () True ex_rpc1)"

definition ex_rpc3 :: ex_rpc_state where
  "ex_rpc3 = the (processReq_handler ex_code 0 0 (processReq_begin False 0 ex_rpc2))"

definition ex_rpc4 :: ex_rpc_state where
  "ex_rpc4 = the (Call_return ex_code 0 (processReq_end False False 0 (processReq_wait False 0 ex_rpc3)))"

lemma ex_codec: "codec_ok ex_code"
  by (simp add: codec_ok_def ex_code_def)

lemma ex_split: "split_meth ''S.Add'' = Some (''S'', ''Add'')"
  by (simp add: split_meth_def LastIndex_def slice_to_def slice_from_def Let_def)

lemma ex_rpc_conf:
  "MakeEnd 0 (AddServer 7 0 MakeNetwork) = Some (\<lparr>ce_endname = 0 :: nat\<rparr>, snd (the (MakeEnd 0 (AddServer 7 0 MakeNetwork))))"
  by (simp add: MakeEnd_def AddServer_def MakeNetwork_def Let_def)

lemma ex_rpc_setup: "(rpc_step ex_code)\<^sup>*\<^sup>* ex_rpc0 ex_rpc1"
proof -
  let ?s1 = "ex_rpc0\<lparr>st_heap := [MakeServer]\<rparr>"
  let ?s2 = "ex_rpc0\<lparr>st_heap := [AddService (MakeService ''S'' () [ex_add]) MakeServer]\<rparr>"
  let ?n1 = "AddServer 7 0 MakeNetwork" let ?n2 = "snd (the (MakeEnd 0 ?n1))"
  note r = converse_rtranclp_into_rtranclp [of "rpc_step ex_code"]
  have 1: "rpc_step ex_code ex_rpc0 ?s1" using rpc_step.server [of ex_code ex_rpc0] by (simp add: ex_rpc0_def)
  have 2: "rpc_step ex_code ?s1 ?s2"
    using rpc_step.service [of ex_code ?s1 0 "MakeService ''S'' () [ex_add]"] by simp
  have c: "rpc_step ex_code (?s2\<lparr>st_net := n\<rparr>) (?s2\<lparr>st_net := n'\<rparr>)" if "conf 1 n n'" for n n'
    using rpc_step.conf [of "?s2\<lparr>st_net := n\<rparr>" n' ex_code] that by simp
  have 3: "rpc_step ex_code (?s2\<lparr>st_net := MakeNetwork\<rparr>) (?s2\<lparr>st_net := ?n1\<rparr>)" by (rule c) (simp add: conf.intros)
  have 4: "rpc_step ex_code (?s2\<lparr>st_net := ?n1\<rparr>) (?s2\<lparr>st_net := ?n2\<rparr>)" by (rule c) (rule conf.intros(1) [OF ex_rpc_conf])
  have 5: "rpc_step ex_code (?s2\<lparr>st_net := ?n2\<rparr>) (?s2\<lparr>st_net := Connect 0 7 ?n2\<rparr>)" by (rule c) (simp add: conf.intros)
  have 6: "rpc_step ex_code (?s2\<lparr>st_net := Connect 0 7 ?n2\<rparr>) (?s2\<lparr>st_net := Enable 0 True (Connect 0 7 ?n2)\<rparr>)"
    by (rule c) (simp add: conf.intros)
  have "?s2\<lparr>st_net := MakeNetwork\<rparr> = ?s2" by (simp add: ex_rpc0_def)
  with 3 have 3: "rpc_step ex_code ?s2 (?s2\<lparr>st_net := ?n1\<rparr>)" by simp
  have "?s2\<lparr>st_net := Enable 0 True (Connect 0 7 ?n2)\<rparr> = ex_rpc1" by (simp add: ex_rpc1_def)
  with 6 have "rpc_step ex_code (?s2\<lparr>st_net := Connect 0 7 ?n2\<rparr>) ex_rpc1" by simp
  from r [OF 1 r [OF 2 r [OF 3 r [OF 4 r [OF 5 r_into_rtranclp [of "rpc_step ex_code", OF this]]]]]] show ?thesis .
qed

lemma ex_rpc_calls:
  "Call_send ex_code \<lparr>ce_endname = 0\<rparr> ''S.Add'' 5 () True ex_rpc1 = Some ex_rpc2"
  "processReq_handler ex_code 0 0 (processReq_begin False 0 ex_rpc2) = Some ex_rpc3"
  "Call_return ex_code 0 (processReq_end False False 0 (processReq_wait False 0 ex_rpc3)) = Some ex_rpc4"
  "length (st_calls ex_rpc2) = 1" "length (st_calls ex_rpc4) = 1" "cl_phase (st_calls ex_rpc2 ! 0) = Sent"
  "cl_phase (st_calls ex_rpc4 ! 0) = Returned (Some 42)" "cl_args (st_calls ex_rpc4 ! 0) = 5"
  "stays 0 7 0 (st_net ex_rpc2)" "rm_endname (cl_req (st_calls ex_rpc2 ! 0)) = 0" "well_served ex_code 0 ex_rpc2"
proof -
  note d = ex_code_def ex_add_def ex_rpc0_def ex_rpc1_def MakeNetwork_def AddServer_def MakeEnd_def Connect_def Enable_def
    Call_send_def Let_def
  show 1: "Call_send ex_code \<lparr>ce_endname = 0\<rparr> ''S.Add'' 5 () True ex_rpc1 = Some ex_rpc2"
    by (simp add: ex_rpc2_def) (simp add: d)
  show "length (st_calls ex_rpc2) = 1" "cl_phase (st_calls ex_rpc2 ! 0) = Sent" "stays 0 7 0 (st_net ex_rpc2)"
    "rm_endname (cl_req (st_calls ex_rpc2 ! 0)) = 0"
    by (simp_all add: ex_rpc2_def d stays_def)
  show "well_served ex_code 0 ex_rpc2"
    by (simp add: ex_rpc2_def d well_served_def serves_def ex_split AddService_def MakeService_def suitable_def MakeServer_def)
  show 2: "processReq_handler ex_code 0 0 (processReq_begin False 0 ex_rpc2) = Some ex_rpc3"
    by (simp add: ex_rpc3_def) (simp add: ex_rpc2_def d processReq_begin_def readEndnameInfo_def processReq_handler_def go_nth_def
        Server_dispatch_def ex_split AddService_def MakeService_def suitable_def Service_dispatch_def MakeServer_def)
  have 3: "\<exists>c. st_calls ex_rpc3 = [c] \<and> cl_phase c = Waiting 7 0 True False \<and> cl_args c = 5 \<and> rm_endname (cl_req c) = 0
      \<and> cl_handler c = Finished \<lparr>rp_ok = True, rp_reply = [42]\<rparr>" "stays 0 7 0 (st_net ex_rpc3)"
    by (simp_all add: ex_rpc3_def ex_rpc2_def d processReq_begin_def readEndnameInfo_def processReq_handler_def go_nth_def
        Server_dispatch_def ex_split AddService_def MakeService_def suitable_def Service_dispatch_def MakeServer_def
        decoded_args_def encoded_def stays_def count_bytes_def)
  then show "Call_return ex_code 0 (processReq_end False False 0 (processReq_wait False 0 ex_rpc3)) = Some ex_rpc4"
    "length (st_calls ex_rpc4) = 1" "cl_phase (st_calls ex_rpc4 ! 0) = Returned (Some 42)" "cl_args (st_calls ex_rpc4 ! 0) = 5"
    by (auto simp: ex_rpc4_def processReq_wait_def processReq_end_def isServerDead_def stays_def set_phase_def Call_return_def
        ex_code_def)
qed

lemma ex_rpc_sent: "(rpc_step ex_code)\<^sup>*\<^sup>* ex_rpc0 ex_rpc2"
proof -
  have "rpc_step ex_code ex_rpc1 ex_rpc2" by (rule rpc_step.send [OF ex_rpc_calls(1)]) simp
  with ex_rpc_setup show ?thesis by (rule rtranclp.rtrancl_into_rtrancl)
qed

lemma ex_rpc_steps: "(\<lambda>x y. rpc_step ex_code x y \<and> stays 0 7 0 (st_net y))\<^sup>*\<^sup>* ex_rpc2 ex_rpc4"
proof -
  let ?R = "\<lambda>x y. rpc_step ex_code x y \<and> stays 0 7 0 (st_net y)"
  let ?a = "processReq_begin False 0 ex_rpc2" let ?b = "processReq_wait False 0 ex_rpc3" let ?c = "processReq_end False False 0 ?b"
  note len = step_other(1) [THEN conjunct1]
  have 1: "rpc_step ex_code ex_rpc2 ?a" by (rule rpc_step.process) (simp_all add: ex_rpc_calls)
  have l1: "0 < length (st_calls ?a)" using len [OF 1, of 0] ex_rpc_calls(4) by simp
  have "cl_handler (st_calls ?a ! 0) = Running 0"
    using ex_rpc_calls(4,9,10) by (simp add: processReq_begin_def readEndnameInfo_def stays_def)
  then have 2: "rpc_step ex_code ?a ex_rpc3" by (rule rpc_step.handle [OF l1 _ ex_rpc_calls(2)])
  have l2: "0 < length (st_calls ex_rpc3)" using len [OF 2 l1] .
  have 3: "rpc_step ex_code ex_rpc3 ?b" by (rule rpc_step.wait [OF l2])
  have 4: "rpc_step ex_code ?b ?c" by (rule rpc_step.finish [OF len [OF 3 l2]])
  have 5: "rpc_step ex_code ?c ex_rpc4" by (rule rpc_step.return [OF len [OF 4 len [OF 3 l2]] ex_rpc_calls(3)])
  have s: "stays 0 7 0 (st_net ?a)" "stays 0 7 0 (st_net ex_rpc3)" "stays 0 7 0 (st_net ?b)" "stays 0 7 0 (st_net ?c)"
    "stays 0 7 0 (st_net ex_rpc4)"
    using ex_rpc_calls(9) by (simp_all add: stays_call(4) [OF ex_rpc_calls(2)] stays_call(5) [OF ex_rpc_calls(3)] stays_call(1-3))
  note r = converse_rtranclp_into_rtranclp [of ?R]
  from r [OF conjI [OF 1 s(1)] r [OF conjI [OF 2 s(2)] r [OF conjI [OF 3 s(3)] r [OF conjI [OF 4 s(4)]
      r_into_rtranclp [of ?R, OF conjI [OF 5 s(5)]]]]]]
  show ?thesis .
qed

lemma ex_rpc_run: "(rpc_step ex_code)\<^sup>*\<^sup>* ex_rpc2 ex_rpc4"
  using ex_rpc_steps by (rule rtranclp_mono [THEN predicate2D, rotated]) auto

lemma ex_rpc_init: "rpc_init ex_rpc0"
  by (simp add: rpc_init_def ex_rpc0_def)

theorem rpc_at_most_once_witness:
  "\<exists>e. filter (\<lambda>e. ex_call e = 0) (st_log ex_rpc4) = [e] \<and> ex_args e = 5 \<and> ex_method e = ''Add'' \<and> ex_reply e = 42"
proof -
  have "0 < length (st_calls ex_rpc4)" by (simp add: ex_rpc_calls)
  from rpc_at_most_once [OF ex_rpc_init rtranclp_trans [OF ex_rpc_sent ex_rpc_run] ex_codec this]
  obtain e sv where e: "filter (\<lambda>e. ex_call e = 0) (st_log ex_rpc4) = [e]" "ex_args e = 5"
    "split_meth (rm_svcMeth (cl_req (st_calls ex_rpc4 ! 0))) = Some (sv, ex_method e)" "ex_reply e = 42"
    using ex_rpc_calls(7,8) by (auto simp: ex_code_def)
  have "rm_svcMeth (cl_req (st_calls ex_rpc4 ! 0)) = ''S.Add''"
    using steps_other [OF ex_rpc_run, of 0] by (simp add: ex_rpc_calls) (simp add: ex_rpc2_def Call_send_def ex_code_def ex_rpc1_def ex_rpc0_def Let_def)
  then show ?thesis using e ex_split by auto
qed

theorem rpc_call_returns_witness:
  "\<exists>st' r. (rpc_step ex_code)\<^sup>*\<^sup>* ex_rpc2 st' \<and> cl_phase (st_calls st' ! 0) = Returned r"
  using rpc_call_returns [OF ex_rpc_init ex_rpc_sent ex_codec _ ex_rpc_calls(11)] ex_rpc_calls(4) by simp

theorem dispatch_typed_witness:
  "\<exists>r rs' w'. Server_dispatch ex_code \<lparr>rm_endname = (0 :: nat), rm_svcMeth = ''S.Add'', rm_argsType = (), rm_args = [5]\<rparr>
       (AddService (MakeService ''S'' () [ex_add]) MakeServer) 37 = Some (((), ''Add'', 42), r, rs', w')
     \<and> rc_dec ex_code () (rp_reply r) = Some 42"
proof -
  have m: "ex_add \<in> set [ex_add]" "suitable ex_add" "distinct (map mt_Name [ex_add])" "CHR ''.'' \<notin> set (mt_Name ex_add)"
    by (simp_all add: ex_add_def suitable_def)
  have n: "mt_Name ex_add = ''Add''" "''S'' @ ''.Add'' = ''S.Add''" by (simp_all add: ex_add_def)
  have c: "rc_accepts ex_code (rc_typeof ex_code 5) (fst (mt_In ex_add ! 1))" "rc_enc ex_code 5 = Some [5]"
    "rc_typeof ex_code (fst (rc_run ex_code () (mt_Name ex_add) x w)) = ()" "rc_typeof ex_code 5 = ()"
    "fst (rc_run ex_code () ''Add'' 5 37) = 42" for x w
    by (simp_all add: ex_code_def)
  from dispatch_typed [OF ex_codec m c(1,2,3) refl, of 0 "''S''" MakeServer 37] show ?thesis
    unfolding n c(4,5) by blast
qed

theorem reliable_call_succeeds_witness:
  "cl_phase (st_calls ex_rpc4 ! 0) \<noteq> Returned None \<and> cl_phase (st_calls ex_rpc4 ! 0) = Returned (Some 42)"
  using reliable_call_succeeds [OF ex_rpc_init ex_rpc_sent, of 0 7 0 ex_rpc4] ex_rpc_calls(4,6,7,9,10) ex_rpc_steps by simp

end
