(* ===== verification/GoStrings.thy ===== *)
theory GoStrings
  imports Prelude
begin

text \<open>
  The functions of the packages strconv and strings that the sources use to build names and to
  take them apart.
\<close>

definition digit :: "nat \<Rightarrow> char" where
  "digit d = char_of (48 + d)"

text \<open>\<open>strconv.Itoa\<close> on the numbers of tasks and servers, and \<open>strconv.Atoi\<close> with its error dropped.\<close>

fun Itoa :: "nat \<Rightarrow> string" where
  "Itoa n = (if n < 10 then [digit n] else Itoa (n div 10) @ [digit (n mod 10)])"

definition is_digit :: "char \<Rightarrow> bool" where
  "is_digit c \<longleftrightarrow> 48 \<le> (of_char c :: nat) \<and> (of_char c :: nat) \<le> 57"

definition Atoi_digits :: "string \<Rightarrow> nat" where
  "Atoi_digits s = (if s = [] \<or> \<not> list_all is_digit s then 0
     else min (foldl (\<lambda>n c. 10 * n + (of_char c - 48)) 0 s) (2 ^ 63 - 1))"

definition Atoi :: "string \<Rightarrow> nat" where
  "Atoi s = (if s \<noteq> [] \<and> hd s = CHR ''+'' then Atoi_digits (tl s) else Atoi_digits s)"

text \<open>\<open>strings.Split\<close> at a one-character separator.\<close>

fun Split :: "char \<Rightarrow> string \<Rightarrow> string list" where
  "Split sep [] = [[]]"
| "Split sep (c # cs) = (if c = sep then [] # Split sep cs
     else case Split sep cs of w # ws \<Rightarrow> (c # w) # ws | [] \<Rightarrow> [[c]])"

declare Itoa.simps [simp del]

lemma digit_value: "d < 10 \<Longrightarrow> (of_char (digit d) :: nat) = 48 + d"
  by (simp add: digit_def of_char_of)

lemma Itoa_digits: "list_all is_digit (Itoa n)"
proof (induction n rule: Itoa.induct)
  case (1 n)
  have "is_digit (digit d)" if "d < 10" for d using digit_value [OF that] that by (simp add: is_digit_def)
  then show ?case using 1 by (subst Itoa.simps) auto
qed

lemma Itoa_nonempty: "Itoa n \<noteq> []"
  by (subst Itoa.simps) simp

lemma Itoa_value: "foldl (\<lambda>n c. 10 * n + (of_char c - 48)) 0 (Itoa n) = (n :: nat)"
proof (induction n rule: Itoa.induct)
  case (1 n)
  then show ?case by (subst Itoa.simps) (auto simp: digit_value)
qed

lemma not_digit: "\<not> is_digit (CHR ''-'')" "\<not> is_digit (CHR ''+'')"
  by (simp_all add: is_digit_def)

lemma Itoa_no_sep: "CHR ''-'' \<notin> set (Itoa n)"
  using Itoa_digits [of n] not_digit(1) by (auto simp: list_all_iff)

lemma Atoi_Itoa: "n < 2 ^ 63 \<Longrightarrow> Atoi (Itoa n) = n"
proof -
  assume n: "n < 2 ^ 63"
  have "Atoi_digits (Itoa n) = n" using n Itoa_digits [of n] Itoa_nonempty [of n] by (simp add: Atoi_digits_def Itoa_value)
  moreover have "hd (Itoa n) \<noteq> CHR ''+''"
    using Itoa_digits [of n] Itoa_nonempty [of n] not_digit(2) by (cases "Itoa n") auto
  then have "Atoi (Itoa n) = Atoi_digits (Itoa n)" by (simp add: Atoi_def)
  ultimately show ?thesis by simp
qed

lemma Split_word: "sep \<notin> set w \<Longrightarrow> Split sep w = [w]"
  by (induction w) auto

lemma Split_append: "sep \<notin> set w \<Longrightarrow> Split sep (w @ sep # rest) = w # Split sep rest"
  by (induction w) auto

lemma Itoa_inj: "Itoa a = Itoa b \<longleftrightarrow> a = b"
  using Itoa_value [of a] Itoa_value [of b] by metis

end
