(* ===== verification/Tester.thy ===== *)
theory Tester
  imports Labrpc Persister GoStrings "HOL-Library.AList"
begin

text \<open>
  The part of the test framework that starts, stops, connects and partitions servers and clients
  (src/src/tester1: group.go, srv.go, clnts.go, config.go), on the network of \<open>Labrpc\<close>.
\<close>

section \<open>The test bed\<close>

text \<open>
  Persisters are known by their address: a stopped server may go on writing to the one it was given.
  \<open>tb_rand\<close> counts the random strings drawn so far.
\<close>

record ('rc, 'ty, 'r, 'b, 'w) testbed =
  tb_net :: "(string, string) Network"
  tb_heap :: "('rc, 'ty) rpc_Server list"
  tb_disks :: "('r, 'b) Persister list"
  tb_world :: 'w
  tb_rand :: nat

text \<open>
  What the framework calls: the random strings, the function of a test that starts the services of a
  server on its ends, group, number and persister, giving their receivers with the names and methods
  of their types, and the method \<open>Kill\<close> of a service.
\<close>

record ('rc, 'ty, 'w) tester_code =
  tc_rand :: "nat \<Rightarrow> string"
  tc_mks :: "string ClientEnd list \<Rightarrow> nat \<Rightarrow> nat \<Rightarrow> nat \<Rightarrow> 'w \<Rightarrow> ('rc \<times> string \<times> 'ty rmethod list) list \<times> 'w"
  tc_kill :: "'rc \<Rightarrow> 'w \<Rightarrow> 'w"

record 'rc tServer =
  sr_saved :: "nat option"
  sr_svcs :: "'rc list"
  sr_endNames :: "string list"
  sr_clntEnds :: "string ClientEnd list"

record 'rc ServerGrp =
  sg_srvs :: "'rc tServer list"
  sg_servernames :: "string list"
  sg_gid :: nat
  sg_connected :: "bool list"

text \<open>A loop over a list whose body may panic.\<close>

fun for_each :: "('i \<Rightarrow> 'x \<Rightarrow> 'x option) \<Rightarrow> 'i list \<Rightarrow> 'x \<Rightarrow> 'x option" where
  "for_each f [] x = Some x"
| "for_each f (i # is) x = Option.bind (f i x) (for_each f is)"

definition ServerName :: "nat \<Rightarrow> nat \<Rightarrow> string" where
  "ServerName gid i = ''server-'' @ Itoa gid @ ''-'' @ Itoa i"

definition Randstring :: "('rc, 'ty, 'w) tester_code \<Rightarrow> ('rc, 'ty, 'r, 'b, 'w) testbed
    \<Rightarrow> string \<times> ('rc, 'ty, 'r, 'b, 'w) testbed" where
  "Randstring E tb = (tc_rand E (tb_rand tb), tb\<lparr>tb_rand := Suc (tb_rand tb)\<rparr>)"

section \<open>One server\<close>

fun make_ends :: "('rc, 'ty, 'w) tester_code \<Rightarrow> nat \<Rightarrow> nat list \<Rightarrow> ('rc, 'ty, 'r, 'b, 'w) testbed
    \<Rightarrow> (string list \<times> string ClientEnd list \<times> ('rc, 'ty, 'r, 'b, 'w) testbed) option" where
  "make_ends E gid [] tb = Some ([], [], tb)"
| "make_ends E gid (j # js) tb = do {
     let (name, tb) = Randstring E tb;
     (e, rn) \<leftarrow> MakeEnd name (tb_net tb);
     (names, ends, tb) \<leftarrow> make_ends E gid js (tb\<lparr>tb_net := Connect name (ServerName gid j) rn\<rparr>);
     Some (name # names, e # ends, tb)
   }"

definition makeServer :: "('rc, 'ty, 'w) tester_code \<Rightarrow> nat \<Rightarrow> nat \<Rightarrow> ('rc, 'ty, 'r, 'b, 'w) testbed
    \<Rightarrow> ('rc tServer \<times> ('rc, 'ty, 'r, 'b, 'w) testbed) option" where
  "makeServer E gid nsrv tb = do {
     (names, ends, tb) \<leftarrow> make_ends E gid [0..<nsrv] tb;
     Some (\<lparr>sr_saved = None, sr_svcs = [], sr_endNames = names, sr_clntEnds = ends\<rparr>, tb)
   }"

definition startServer :: "('rc, 'ty, 'w) tester_code \<Rightarrow> nat \<Rightarrow> 'rc tServer \<Rightarrow> ('rc, 'ty, 'r, 'b, 'w) testbed
    \<Rightarrow> ('rc tServer \<times> ('rc, 'ty, 'r, 'b, 'w) testbed) option" where
  "startServer E gid s tb = do {
     (srv, tb) \<leftarrow> makeServer E gid (length (sr_endNames s)) tb;
     ps \<leftarrow> (case sr_saved s of Some a \<Rightarrow> map_option Copy (go_nth (tb_disks tb) (int a)) | None \<Rightarrow> Some MakePersister);
     Some (srv\<lparr>sr_saved := Some (length (tb_disks tb))\<rparr>, tb\<lparr>tb_disks := tb_disks tb @ [ps]\<rparr>)
   }"

definition Server_connect :: "bool list \<Rightarrow> 'rc tServer \<Rightarrow> nat list \<Rightarrow> (string, string) Network \<Rightarrow> (string, string) Network option" where
  "Server_connect connected s to = for_each (\<lambda>j rn. do {
     c \<leftarrow> go_nth connected (int j);
     if c then do { endname \<leftarrow> go_nth (sr_endNames s) (int j); Some (Enable endname True rn) } else Some rn
   }) to"

definition Server_disconnect :: "'rc tServer \<Rightarrow> nat list \<Rightarrow> (string, string) Network \<Rightarrow> (string, string) Network option" where
  "Server_disconnect s from = for_each (\<lambda>j rn. do {
     endname \<leftarrow> go_nth (sr_endNames s) (int j);
     Some (Enable endname False rn)
   }) from"

definition shutdownServer :: "('rc, 'ty, 'w) tester_code \<Rightarrow> 'rc tServer \<Rightarrow> ('rc, 'ty, 'r, 'b, 'w) testbed
    \<Rightarrow> ('rc tServer \<times> ('rc, 'ty, 'r, 'b, 'w) testbed) option" where
  "shutdownServer E s tb = do {
     (s, tb) \<leftarrow> (case sr_saved s of
         None \<Rightarrow> Some (s, tb)
       | Some a \<Rightarrow> do {
           ps \<leftarrow> go_nth (tb_disks tb) (int a);
           Some (s\<lparr>sr_saved := Some (length (tb_disks tb))\<rparr>, tb\<lparr>tb_disks := tb_disks tb @ [Copy ps]\<rparr>)
         });
     Some (s\<lparr>sr_svcs := []\<rparr>, tb\<lparr>tb_world := fold (tc_kill E) (sr_svcs s) (tb_world tb)\<rparr>)
   }"

section \<open>A group of servers\<close>

fun make_srvs :: "('rc, 'ty, 'w) tester_code \<Rightarrow> nat \<Rightarrow> nat \<Rightarrow> nat \<Rightarrow> ('rc, 'ty, 'r, 'b, 'w) testbed
    \<Rightarrow> ('rc tServer list \<times> ('rc, 'ty, 'r, 'b, 'w) testbed) option" where
  "make_srvs E gid n 0 tb = Some ([], tb)"
| "make_srvs E gid n (Suc k) tb = do {
     (s, tb) \<leftarrow> makeServer E gid n tb;
     (ss, tb) \<leftarrow> make_srvs E gid n k tb;
     Some (s # ss, tb)
   }"

definition makeSrvGrp :: "('rc, 'ty, 'w) tester_code \<Rightarrow> nat \<Rightarrow> nat \<Rightarrow> ('rc, 'ty, 'r, 'b, 'w) testbed
    \<Rightarrow> ('rc ServerGrp \<times> ('rc, 'ty, 'r, 'b, 'w) testbed) option" where
  "makeSrvGrp E gid n tb = do {
     (srvs, tb) \<leftarrow> make_srvs E gid n n tb;
     Some (\<lparr>sg_srvs = srvs, sg_servernames = map (ServerName gid) [0..<n], sg_gid = gid, sg_connected = replicate n False\<rparr>, tb)
   }"

definition sg_N :: "'rc ServerGrp \<Rightarrow> nat" where
  "sg_N sg = length (sg_srvs sg)"

definition SrvName :: "nat \<Rightarrow> 'rc ServerGrp \<Rightarrow> string option" where
  "SrvName i sg = go_nth (sg_servernames sg) (int i)"

definition Services :: "'rc ServerGrp \<Rightarrow> 'rc list list" where
  "Services sg = map sr_svcs (sg_srvs sg)"

definition SrvNamesTo :: "nat list \<Rightarrow> 'rc ServerGrp \<Rightarrow> string list option" where
  "SrvNamesTo to sg = for_each (\<lambda>i ns. map_option (\<lambda>n. ns @ [n]) (go_nth (sg_servernames sg) (int i))) to []"

definition sg_all :: "'rc ServerGrp \<Rightarrow> nat list" where
  "sg_all sg = [0..<length (sg_srvs sg)]"

definition IsConnected :: "nat \<Rightarrow> 'rc ServerGrp \<Rightarrow> bool option" where
  "IsConnected i sg = go_nth (sg_connected sg) (int i)"

definition GetConnected :: "'rc ServerGrp \<Rightarrow> bool list" where
  "GetConnected sg = sg_connected sg"

text \<open>Connecting and disconnecting change the group and the network.\<close>

type_synonym 'rc links = "'rc ServerGrp \<times> (string, string) Network"

definition sg_connect :: "nat \<Rightarrow> nat list \<Rightarrow> 'rc links \<Rightarrow> 'rc links option" where
  "sg_connect i to = (\<lambda>(sg, rn). do {
     connected \<leftarrow> go_upd (sg_connected sg) (int i) True;
     let sg = sg\<lparr>sg_connected := connected\<rparr>;
     s \<leftarrow> go_nth (sg_srvs sg) (int i);
     rn \<leftarrow> Server_connect connected s to rn;
     rn \<leftarrow> for_each (\<lambda>j rn. do {
       c \<leftarrow> IsConnected j sg;
       if c then do {
         s \<leftarrow> go_nth (sg_srvs sg) (int j);
         endname \<leftarrow> go_nth (sr_endNames s) (int i);
         Some (Enable endname True rn)
       } else Some rn
     }) to rn;
     Some (sg, rn)
   })"

definition sg_disconnect :: "nat \<Rightarrow> nat list \<Rightarrow> 'rc links \<Rightarrow> 'rc links option" where
  "sg_disconnect i from = (\<lambda>(sg, rn). do {
     connected \<leftarrow> go_upd (sg_connected sg) (int i) False;
     let sg = sg\<lparr>sg_connected := connected\<rparr>;
     s \<leftarrow> go_nth (sg_srvs sg) (int i);
     rn \<leftarrow> Server_disconnect s from rn;
     rn \<leftarrow> for_each (\<lambda>j rn. do {
       s \<leftarrow> go_nth (sg_srvs sg) (int j);
       endname \<leftarrow> go_nth (sr_endNames s) (int i);
       Some (Enable endname False rn)
     }) from rn;
     Some (sg, rn)
   })"

definition ConnectOne :: "nat \<Rightarrow> 'rc links \<Rightarrow> 'rc links option" where
  "ConnectOne i l = sg_connect i (sg_all (fst l)) l"

definition ConnectAll :: "'rc links \<Rightarrow> 'rc links option" where
  "ConnectAll l = for_each ConnectOne [0..<length (sg_srvs (fst l))] l"

definition DisconnectAll :: "nat \<Rightarrow> 'rc links \<Rightarrow> 'rc links option" where
  "DisconnectAll i l = sg_disconnect i (sg_all (fst l)) l"

definition Partition :: "nat list \<Rightarrow> nat list \<Rightarrow> 'rc links \<Rightarrow> 'rc links option" where
  "Partition p1 p2 l = do {
     l \<leftarrow> for_each (\<lambda>i l. do { l \<leftarrow> sg_disconnect i p2 l; sg_connect i p1 l }) p1 l;
     for_each (\<lambda>i l. do { l \<leftarrow> sg_disconnect i p1 l; sg_connect i p2 l }) p2 l
   }"

text \<open>\<open>MakePartition\<close> for \<open>n\<close> servers with leader \<open>l\<close>.\<close>

definition MakePartition :: "nat \<Rightarrow> nat \<Rightarrow> (nat list \<times> nat list) option" where
  "MakePartition n l = do {
     (p1, p2, j) \<leftarrow> for_each (\<lambda>i (p1, p2, j).
       if i \<noteq> l then
         if j < length p1 then Some (p1[j := i], p2, Suc j)
         else map_option (\<lambda>p2. (p1, p2, Suc j)) (go_upd p2 (int j - int (length p1)) i)
       else Some (p1, p2, j)) [0..<n] (replicate (n div 2 + 1) 0, replicate (n div 2) 0, 0);
     p2 \<leftarrow> go_upd p2 (int (length p2) - 1) l;
     Some (p1, p2)
   }"

definition sizes_max :: "(('r, 'b) Persister \<Rightarrow> nat) \<Rightarrow> ('rc, 'ty, 'r, 'b, 'w) testbed \<Rightarrow> 'rc ServerGrp \<Rightarrow> nat option" where
  "sizes_max sz tb sg = for_each (\<lambda>s m. do {
     a \<leftarrow> sr_saved s;
     ps \<leftarrow> go_nth (tb_disks tb) (int a);
     Some (if sz ps > m then sz ps else m)
   }) (sg_srvs sg) 0"

definition LogSize :: "('rc, 'ty, 'r, 'b, 'w) testbed \<Rightarrow> 'rc ServerGrp \<Rightarrow> nat option" where
  "LogSize = sizes_max RaftStateSize"

definition sg_SnapshotSize :: "('rc, 'ty, 'r, 'b, 'w) testbed \<Rightarrow> 'rc ServerGrp \<Rightarrow> nat option" where
  "sg_SnapshotSize = sizes_max SnapshotSize"

text \<open>Starting and stopping also change the rest of the test bed.\<close>

type_synonym ('rc, 'ty, 'r, 'b, 'w) site = "'rc ServerGrp \<times> ('rc, 'ty, 'r, 'b, 'w) testbed"

definition on_links :: "('rc links \<Rightarrow> 'rc links option) \<Rightarrow> ('rc, 'ty, 'r, 'b, 'w) site \<Rightarrow> ('rc, 'ty, 'r, 'b, 'w) site option" where
  "on_links f = (\<lambda>(sg, tb). map_option (\<lambda>(sg, rn). (sg, tb\<lparr>tb_net := rn\<rparr>)) (f (sg, tb_net tb)))"

definition StartServer :: "('rc, 'ty, 'w) tester_code \<Rightarrow> nat \<Rightarrow> ('rc, 'ty, 'r, 'b, 'w) site \<Rightarrow> ('rc, 'ty, 'r, 'b, 'w) site option" where
  "StartServer E i = (\<lambda>(sg, tb). do {
     s \<leftarrow> go_nth (sg_srvs sg) (int i);
     (srv, tb) \<leftarrow> startServer E (sg_gid sg) s tb;
     saved \<leftarrow> sr_saved srv;
     let (svcs, w) = tc_mks E (sr_clntEnds srv) (sg_gid sg) i saved (tb_world tb);
     let labsrv = foldl (\<lambda>rs (rcvr, name, ms). AddService (MakeService name rcvr ms) rs) MakeServer svcs;
     Some (sg\<lparr>sg_srvs := (sg_srvs sg)[i := srv\<lparr>sr_svcs := map fst svcs\<rparr>]\<rparr>,
           tb\<lparr>tb_world := w, tb_heap := tb_heap tb @ [labsrv],
              tb_net := AddServer (ServerName (sg_gid sg) i) (length (tb_heap tb)) (tb_net tb)\<rparr>)
   })"

definition sg_start :: "('rc, 'ty, 'w) tester_code \<Rightarrow> ('rc, 'ty, 'r, 'b, 'w) site \<Rightarrow> ('rc, 'ty, 'r, 'b, 'w) site option" where
  "sg_start E x = for_each (StartServer E) [0..<length (sg_srvs (fst x))] x"

definition StartServers :: "('rc, 'ty, 'w) tester_code \<Rightarrow> ('rc, 'ty, 'r, 'b, 'w) site \<Rightarrow> ('rc, 'ty, 'r, 'b, 'w) site option" where
  "StartServers E x = Option.bind (sg_start E x) (on_links ConnectAll)"

definition ShutdownServer :: "('rc, 'ty, 'w) tester_code \<Rightarrow> nat \<Rightarrow> ('rc, 'ty, 'r, 'b, 'w) site \<Rightarrow> ('rc, 'ty, 'r, 'b, 'w) site option" where
  "ShutdownServer E i x = do {
     (sg, tb) \<leftarrow> on_links (\<lambda>l. sg_disconnect i (sg_all (fst l)) l) x;
     let tb = tb\<lparr>tb_net := DeleteServer (ServerName (sg_gid sg) i) (tb_net tb)\<rparr>;
     s \<leftarrow> go_nth (sg_srvs sg) (int i);
     (s, tb) \<leftarrow> shutdownServer E s tb;
     Some (sg\<lparr>sg_srvs := (sg_srvs sg)[i := s]\<rparr>, tb)
   }"

definition Shutdown :: "('rc, 'ty, 'w) tester_code \<Rightarrow> ('rc, 'ty, 'r, 'b, 'w) site \<Rightarrow> ('rc, 'ty, 'r, 'b, 'w) site option" where
  "Shutdown E x = for_each (ShutdownServer E) [0..<length (sg_srvs (fst x))] x"

definition sg_cleanup :: "('rc, 'ty, 'w) tester_code \<Rightarrow> 'rc ServerGrp \<Rightarrow> 'w \<Rightarrow> 'w" where
  "sg_cleanup E sg w = fold (\<lambda>s. fold (tc_kill E) (sr_svcs s)) (sg_srvs sg) w"

definition RpcCount :: "nat \<Rightarrow> ('rc, 'ty, 'r, 'b, 'w) site \<Rightarrow> int option" where
  "RpcCount server = (\<lambda>(sg, tb). net_GetCount (ServerName (sg_gid sg) server) (tb_heap tb) (tb_net tb))"

section \<open>Groups\<close>

type_synonym 'rc groups = "(nat \<times> 'rc ServerGrp) list"

definition MakeGroup :: "('rc, 'ty, 'w) tester_code \<Rightarrow> nat \<Rightarrow> nat \<Rightarrow> 'rc groups \<times> ('rc, 'ty, 'r, 'b, 'w) testbed
    \<Rightarrow> ('rc groups \<times> ('rc, 'ty, 'r, 'b, 'w) testbed) option" where
  "MakeGroup E gid nsrv = (\<lambda>(gs, tb). map_option (\<lambda>(sg, tb). (AList.update gid sg gs, tb)) (makeSrvGrp E gid nsrv tb))"

definition lookupGroup :: "nat \<Rightarrow> 'rc groups \<Rightarrow> 'rc ServerGrp option" where
  "lookupGroup gid gs = map_of gs gid"

definition gs_delete :: "nat \<Rightarrow> 'rc groups \<Rightarrow> 'rc groups" where
  "gs_delete gid gs = AList.delete gid gs"

definition gs_cleanup :: "('rc, 'ty, 'w) tester_code \<Rightarrow> 'rc groups \<Rightarrow> 'w \<Rightarrow> 'w" where
  "gs_cleanup E gs w = fold (\<lambda>(gid, sg). sg_cleanup E sg) gs w"

section \<open>Clients\<close>

text \<open>
  The ends of a client are listed with the servers they lead to; \<open>cn_srvs\<close> is \<open>None\<close> when the client
  may connect to all servers.
\<close>

record Clnt =
  cn_ends :: "(string \<times> string) list"
  cn_srvs :: "string list option"

definition makeClntTo :: "string list option \<Rightarrow> Clnt" where
  "makeClntTo srvs = \<lparr>cn_ends = [], cn_srvs = srvs\<rparr>"

definition allowedL :: "string \<Rightarrow> Clnt \<Rightarrow> bool" where
  "allowedL server clnt = (case cn_srvs clnt of None \<Rightarrow> True | Some ns \<Rightarrow> list_ex (\<lambda>n. n = server) ns)"

definition Clnt_makeEnd :: "('rc, 'ty, 'w) tester_code \<Rightarrow> string \<Rightarrow> Clnt \<times> ('rc, 'ty, 'r, 'b, 'w) testbed
    \<Rightarrow> (string \<times> Clnt \<times> ('rc, 'ty, 'r, 'b, 'w) testbed) option" where
  "Clnt_makeEnd E server = (\<lambda>(clnt, tb).
     case map_of (cn_ends clnt) server of
       Some name \<Rightarrow> Some (name, clnt, tb)
     | None \<Rightarrow> do {
         let (name, tb) = Randstring E tb;
         (e, rn) \<leftarrow> MakeEnd name (tb_net tb);
         let rn = Enable name (allowedL server clnt) (Connect name server rn);
         Some (name, clnt\<lparr>cn_ends := AList.update server name (cn_ends clnt)\<rparr>, tb\<lparr>tb_net := rn\<rparr>)
       })"

definition enable_all :: "bool \<Rightarrow> string list \<Rightarrow> (string, string) Network \<Rightarrow> (string, string) Network" where
  "enable_all yes names rn = fold (\<lambda>name. Enable name yes) names rn"

definition Clnt_ConnectAll :: "Clnt \<times> (string, string) Network \<Rightarrow> Clnt \<times> (string, string) Network" where
  "Clnt_ConnectAll = (\<lambda>(clnt, rn). (clnt\<lparr>cn_srvs := None\<rparr>, enable_all True (map snd (cn_ends clnt)) rn))"

definition ConnectTo :: "string list option \<Rightarrow> Clnt \<times> (string, string) Network \<Rightarrow> Clnt \<times> (string, string) Network" where
  "ConnectTo srvs = (\<lambda>(clnt, rn).
     let clnt = clnt\<lparr>cn_srvs := srvs\<rparr>
     in (clnt, enable_all True (map snd (filter (\<lambda>(srv, e). allowedL srv clnt) (cn_ends clnt))) rn))"

definition Disconnect :: "string \<Rightarrow> Clnt \<times> (string, string) Network \<Rightarrow> Clnt \<times> (string, string) Network" where
  "Disconnect srv = (\<lambda>(clnt, rn). (clnt, enable_all False (map snd (filter (\<lambda>(s, e). s = srv) (cn_ends clnt))) rn))"

definition Clnt_DisconnectAll :: "Clnt \<times> (string, string) Network \<Rightarrow> Clnt \<times> (string, string) Network" where
  "Clnt_DisconnectAll = (\<lambda>(clnt, rn). (clnt\<lparr>cn_srvs := Some []\<rparr>, enable_all False (map snd (cn_ends clnt)) rn))"

definition Clnt_remove :: "Clnt \<Rightarrow> (string, string) Network \<Rightarrow> (string, string) Network option" where
  "Clnt_remove clnt rn = for_each DeleteEnd (map snd (cn_ends clnt)) rn"

text \<open>The clerks are a set of pointers to clients; \<open>None\<close> is the nil map that \<open>cleanup\<close> leaves.\<close>

record Clnts =
  cs_heap :: "Clnt list"
  cs_clerks :: "nat list option"

definition makeClnts :: Clnts where
  "makeClnts = \<lparr>cs_heap = [], cs_clerks = Some []\<rparr>"

definition Clnts_makeEnd :: "('rc, 'ty, 'w) tester_code \<Rightarrow> string \<Rightarrow> ('rc, 'ty, 'r, 'b, 'w) testbed
    \<Rightarrow> (string ClientEnd \<times> ('rc, 'ty, 'r, 'b, 'w) testbed) option" where
  "Clnts_makeEnd E servername tb = do {
     let (name, tb) = Randstring E tb;
     (e, rn) \<leftarrow> MakeEnd name (tb_net tb);
     Some (e, tb\<lparr>tb_net := Enable name True (Connect name servername rn)\<rparr>)
   }"

definition MakeClientTo :: "string list option \<Rightarrow> Clnts \<Rightarrow> (nat \<times> Clnts) option" where
  "MakeClientTo srvs clnts = do {
     clerks \<leftarrow> cs_clerks clnts;
     let a = length (cs_heap clnts);
     Some (a, clnts\<lparr>cs_heap := cs_heap clnts @ [makeClntTo srvs], cs_clerks := Some (a # clerks)\<rparr>)
   }"

definition MakeClient :: "Clnts \<Rightarrow> (nat \<times> Clnts) option" where
  "MakeClient = MakeClientTo None"

definition remove_at :: "Clnts \<Rightarrow> nat \<Rightarrow> (string, string) Network \<Rightarrow> (string, string) Network option" where
  "remove_at clnts a rn = do { clnt \<leftarrow> go_nth (cs_heap clnts) (int a); Clnt_remove clnt rn }"

definition Clnts_cleanup :: "Clnts \<times> (string, string) Network \<Rightarrow> (Clnts \<times> (string, string) Network) option" where
  "Clnts_cleanup = (\<lambda>(clnts, rn). map_option (\<lambda>rn. (clnts\<lparr>cs_clerks := None\<rparr>, rn))
     (for_each (remove_at clnts) (case cs_clerks clnts of None \<Rightarrow> [] | Some as \<Rightarrow> as) rn))"

definition DeleteClient :: "nat \<Rightarrow> Clnts \<times> (string, string) Network \<Rightarrow> (Clnts \<times> (string, string) Network) option" where
  "DeleteClient a = (\<lambda>(clnts, rn).
     case cs_clerks clnts of
       None \<Rightarrow> Some (clnts, rn)
     | Some as \<Rightarrow> if a \<in> set as then map_option (\<lambda>rn. (clnts\<lparr>cs_clerks := Some (removeAll a as)\<rparr>, rn)) (remove_at clnts a rn)
                 else Some (clnts, rn))"

section \<open>The configuration of a test\<close>

text \<open>Without the time limits, the printed statistics and the annotations.\<close>

record 'rc Config =
  cf_Clnts :: Clnts
  cf_Groups :: "'rc groups"
  cf_rpcs0 :: int
  cf_ops :: "32 word"

definition GRP0 :: nat where
  "GRP0 = 0"

definition MakeGroupStart :: "('rc, 'ty, 'w) tester_code \<Rightarrow> nat \<Rightarrow> nat \<Rightarrow> 'rc groups \<times> ('rc, 'ty, 'r, 'b, 'w) testbed
    \<Rightarrow> ('rc groups \<times> ('rc, 'ty, 'r, 'b, 'w) testbed) option" where
  "MakeGroupStart E gid nsrv x = do {
     (gs, tb) \<leftarrow> MakeGroup E gid nsrv x;
     sg \<leftarrow> lookupGroup gid gs;
     (sg, tb) \<leftarrow> StartServers E (sg, tb);
     Some (AList.update gid sg gs, tb)
   }"

definition MakeConfig :: "('rc, 'ty, 'w) tester_code \<Rightarrow> nat \<Rightarrow> bool \<Rightarrow> 'w
    \<Rightarrow> ('rc Config \<times> ('rc, 'ty, 'r, 'b, 'w) testbed) option" where
  "MakeConfig E n reliable w = do {
     let tb = \<lparr>tb_net = MakeNetwork, tb_heap = [], tb_disks = [], tb_world = w, tb_rand = 0\<rparr>;
     (gs, tb) \<leftarrow> MakeGroupStart E GRP0 n ([], tb);
     Some (\<lparr>cf_Clnts = makeClnts, cf_Groups = gs, cf_rpcs0 = 0, cf_ops = 0\<rparr>, tb\<lparr>tb_net := Reliable reliable (tb_net tb)\<rparr>)
   }"

definition cfg_Group :: "nat \<Rightarrow> 'rc Config \<Rightarrow> 'rc ServerGrp option" where
  "cfg_Group gid cfg = lookupGroup gid (cf_Groups cfg)"

definition ExitGroup :: "('rc, 'ty, 'w) tester_code \<Rightarrow> nat \<Rightarrow> 'rc Config \<times> ('rc, 'ty, 'r, 'b, 'w) testbed
    \<Rightarrow> ('rc Config \<times> ('rc, 'ty, 'r, 'b, 'w) testbed) option" where
  "ExitGroup E gid = (\<lambda>(cfg, tb). do {
     sg \<leftarrow> cfg_Group gid cfg;
     (sg, tb) \<leftarrow> Shutdown E (sg, tb);
     Some (cfg\<lparr>cf_Groups := gs_delete gid (cf_Groups cfg)\<rparr>, tb)
   })"

definition cfg_Cleanup :: "('rc, 'ty, 'w) tester_code \<Rightarrow> 'rc Config \<times> ('rc, 'ty, 'r, 'b, 'w) testbed
    \<Rightarrow> ('rc Config \<times> ('rc, 'ty, 'r, 'b, 'w) testbed) option" where
  "cfg_Cleanup E = (\<lambda>(cfg, tb). do {
     (clnts, rn) \<leftarrow> Clnts_cleanup (cf_Clnts cfg, tb_net tb);
     rn' \<leftarrow> net_Cleanup rn;
     Some (cfg\<lparr>cf_Clnts := clnts\<rparr>, tb\<lparr>tb_world := gs_cleanup E (cf_Groups cfg) (tb_world tb), tb_net := rn'\<rparr>)
   })"

definition RpcTotal :: "('rc, 'ty, 'r, 'b, 'w) testbed \<Rightarrow> int" where
  "RpcTotal tb = GetTotalCount (tb_net tb)"

definition cfg_Begin :: "('rc, 'ty, 'r, 'b, 'w) testbed \<Rightarrow> 'rc Config \<Rightarrow> 'rc Config" where
  "cfg_Begin tb cfg = cfg\<lparr>cf_rpcs0 := RpcTotal tb, cf_ops := 0\<rparr>"

definition cfg_Op :: "'rc Config \<Rightarrow> 'rc Config" where
  "cfg_Op cfg = cfg\<lparr>cf_ops := cf_ops cfg + 1\<rparr>"

text \<open>\<open>random_handles\<close> with the random numbers as an argument.\<close>

definition random_handles :: "(nat \<Rightarrow> nat) \<Rightarrow> 'e list \<Rightarrow> 'e list" where
  "random_handles rand kvh = fold (\<lambda>i sa. let j = rand i mod (i + 1) in sa[i := sa ! j, j := sa ! i]) [0..<length kvh] kvh"

section \<open>Loops\<close>

lemma for_each_inv:
  assumes "P D x" and "\<And>i D x. i \<in> set is \<Longrightarrow> P D x \<Longrightarrow> \<exists>x'. f i x = Some x' \<and> P (insert i D) x'"
  shows "\<exists>x'. for_each f is x = Some x' \<and> P (D \<union> set is) x'"
  using assms
proof (induction "is" arbitrary: D x)
  case (Cons i "is")
  obtain x1 where x1: "f i x = Some x1" "P (insert i D) x1" using Cons.prems by (meson list.set_intros(1))
  have "\<exists>x'. for_each f is x1 = Some x' \<and> P (insert i D \<union> set is) x'"
    by (rule Cons.IH [OF x1(2)]) (use Cons.prems(2) in auto)
  then show ?case using x1(1) by auto
qed simp

lemma for_each_Enable:
  assumes "\<And>j rn. j \<in> set js \<Longrightarrow> f j rn = Some (if c j then Enable (nm j) b rn else rn)"
  shows "for_each f js rn = Some (rn\<lparr>nw_enabled := (\<lambda>e. if \<exists>j \<in> set js. c j \<and> nm j = e then b else nw_enabled rn e)\<rparr>)"
  using assms
proof (induction js arbitrary: rn)
  case (Cons j js)
  have "for_each f js rn' = Some (rn'\<lparr>nw_enabled := (\<lambda>e. if \<exists>j \<in> set js. c j \<and> nm j = e then b else nw_enabled rn' e)\<rparr>)" for rn'
    by (rule Cons.IH) (use Cons.prems in auto)
  then show ?case using Cons.prems [of j rn]
    by (auto simp: Enable_def intro!: arg_cong [of _ _ "\<lambda>x. rn\<lparr>nw_enabled := x\<rparr>"])
qed simp

section \<open>Links\<close>

text \<open>\<open>endName sg i j\<close> is the end that leads from server \<open>i\<close> to server \<open>j\<close>.\<close>

abbreviation endName :: "'rc ServerGrp \<Rightarrow> nat \<Rightarrow> nat \<Rightarrow> string" where
  "endName sg i j \<equiv> sr_endNames (sg_srvs sg ! i) ! j"

definition grp_ok :: "'rc ServerGrp \<Rightarrow> bool" where
  "grp_ok sg \<longleftrightarrow> length (sg_connected sg) = sg_N sg \<and> (\<forall>i < sg_N sg. length (sr_endNames (sg_srvs sg ! i)) = sg_N sg)
     \<and> (\<forall>i < sg_N sg. \<forall>j < sg_N sg. \<forall>i' < sg_N sg. \<forall>j' < sg_N sg. endName sg i j = endName sg i' j' \<longrightarrow> i = i' \<and> j = j')"

lemma grp_okD:
  assumes "grp_ok sg"
  shows "length (sg_connected sg) = sg_N sg" "i < sg_N sg \<Longrightarrow> length (sr_endNames (sg_srvs sg ! i)) = sg_N sg"
    "i < sg_N sg \<Longrightarrow> j < sg_N sg \<Longrightarrow> i' < sg_N sg \<Longrightarrow> j' < sg_N sg \<Longrightarrow> endName sg i j = endName sg i' j' \<longleftrightarrow> i = i' \<and> j = j'"
  using assms by (auto simp: grp_ok_def)

lemma grp_ok_conn: "grp_ok sg \<Longrightarrow> length c = sg_N sg \<Longrightarrow> grp_ok (sg\<lparr>sg_connected := c\<rparr>)"
  by (simp add: grp_ok_def sg_N_def)

lemma sg_connect_links:
  assumes ok: "grp_ok sg" and i: "i < sg_N sg" and to: "set to \<subseteq> {..<sg_N sg}"
  defines "c \<equiv> (sg_connected sg)[i := True]"
  shows "sg_connect i to (sg, rn) = Some (sg\<lparr>sg_connected := c\<rparr>,
    rn\<lparr>nw_enabled := (\<lambda>e. nw_enabled rn e \<or> (\<exists>j \<in> set to. c ! j \<and> (e = endName sg i j \<or> e = endName sg j i)))\<rparr>)"
proof -
  have len: "length (sg_srvs sg) = sg_N sg" "length c = sg_N sg" using grp_okD(1) [OF ok] by (simp_all add: sg_N_def c_def)
  have 1: "Server_connect c (sg_srvs sg ! i) to rn
      = Some (rn\<lparr>nw_enabled := (\<lambda>e. if \<exists>j \<in> set to. c ! j \<and> endName sg i j = e then True else nw_enabled rn e)\<rparr>)"
    unfolding Server_connect_def by (rule for_each_Enable) (use to len grp_okD(2) [OF ok i] in \<open>auto simp: go_nth_nat\<close>)
  have 2: "for_each (\<lambda>j rn. do {
       b \<leftarrow> IsConnected j (sg\<lparr>sg_connected := c\<rparr>);
       if b then do {
         s \<leftarrow> go_nth (sg_srvs (sg\<lparr>sg_connected := c\<rparr>)) (int j);
         endname \<leftarrow> go_nth (sr_endNames s) (int i);
         Some (Enable endname True rn)
       } else Some rn
     }) to rn' = Some (rn'\<lparr>nw_enabled := (\<lambda>e. if \<exists>j \<in> set to. c ! j \<and> endName sg j i = e then True else nw_enabled rn' e)\<rparr>)" for rn' :: "(string, string) Network"
    by (rule for_each_Enable) (use to len grp_okD(2) [OF ok] i in \<open>auto simp: go_nth_nat IsConnected_def\<close>)
  have "go_upd (sg_connected sg) (int i) True = Some c" using i grp_okD(1) [OF ok] by (simp add: go_upd_nat c_def)
  then show ?thesis using 1 2 i len 
    by (auto simp: sg_connect_def go_nth_nat Let_def intro!: arg_cong [of _ _ "\<lambda>x. rn\<lparr>nw_enabled := x\<rparr>"])
qed

lemma sg_disconnect_links:
  assumes ok: "grp_ok sg" and i: "i < sg_N sg" and fr: "set from \<subseteq> {..<sg_N sg}"
  shows "sg_disconnect i from (sg, rn) = Some (sg\<lparr>sg_connected := (sg_connected sg)[i := False]\<rparr>,
    rn\<lparr>nw_enabled := (\<lambda>e. nw_enabled rn e \<and> \<not> (\<exists>j \<in> set from. e = endName sg i j \<or> e = endName sg j i))\<rparr>)"
proof -
  have len: "length (sg_srvs sg) = sg_N sg" by (simp add: sg_N_def)
  have 1: "Server_disconnect (sg_srvs sg ! i) from rn
      = Some (rn\<lparr>nw_enabled := (\<lambda>e. if \<exists>j \<in> set from. True \<and> endName sg i j = e then False else nw_enabled rn e)\<rparr>)"
    unfolding Server_disconnect_def by (rule for_each_Enable) (use fr len grp_okD(2) [OF ok i] in \<open>auto simp: go_nth_nat\<close>)
  have 2: "for_each (\<lambda>j rn. do {
       s \<leftarrow> go_nth (sg_srvs sg) (int j);
       endname \<leftarrow> go_nth (sr_endNames s) (int i);
       Some (Enable endname False rn)
     }) from rn' = Some (rn'\<lparr>nw_enabled := (\<lambda>e. if \<exists>j \<in> set from. True \<and> endName sg j i = e then False else nw_enabled rn' e)\<rparr>)" for rn' :: "(string, string) Network"
    by (rule for_each_Enable) (use fr len grp_okD(2) [OF ok] i in \<open>auto simp: go_nth_nat\<close>)
  have "go_upd (sg_connected sg) (int i) False = Some ((sg_connected sg)[i := False])"
    using i grp_okD(1) [OF ok] by (simp add: go_upd_nat)
  then show ?thesis using 1 2 i len 
    by (auto simp: sg_disconnect_def go_nth_nat Let_def intro!: arg_cong [of _ _ "\<lambda>x. rn\<lparr>nw_enabled := x\<rparr>"])
qed

section \<open>Partitions\<close>

text \<open>
  The links of a group when the servers in \<open>D\<close> have been moved: \<open>same i j\<close> says that two servers are
  to be on the same side.  Ends that are not of this group are as in \<open>rn0\<close>.
\<close>

definition sided :: "(nat \<Rightarrow> nat \<Rightarrow> bool) \<Rightarrow> 'rc ServerGrp \<Rightarrow> (string, string) Network \<Rightarrow> nat set \<Rightarrow> 'rc links \<Rightarrow> bool" where
  "sided same sg0 rn0 D = (\<lambda>(sg, rn). \<exists>c en. sg = sg0\<lparr>sg_connected := c\<rparr> \<and> rn = rn0\<lparr>nw_enabled := en\<rparr> \<and> length c = sg_N sg0
     \<and> (\<forall>i \<in> D. c ! i)
     \<and> (\<forall>i < sg_N sg0. \<forall>j < sg_N sg0. (i \<in> D \<and> j \<in> D \<and> same i j \<longrightarrow> en (endName sg0 i j))
          \<and> ((i \<in> D \<or> j \<in> D) \<and> \<not> same i j \<longrightarrow> \<not> en (endName sg0 i j)))
     \<and> (\<forall>e. (\<forall>i < sg_N sg0. \<forall>j < sg_N sg0. e \<noteq> endName sg0 i j) \<longrightarrow> en e = nw_enabled rn0 e))"

lemma sided_move:
  assumes ok: "grp_ok sg0" and s: "sided same sg0 rn0 D l" and i: "i < sg_N sg0" and D: "D \<subseteq> {..<sg_N sg0}"
    and same: "\<And>i j. same i j = same j i" "same i i"
    and p: "set p = {j. j < sg_N sg0 \<and> same i j}" and q: "set q = {j. j < sg_N sg0 \<and> \<not> same i j}"
  shows "\<exists>l'. (do { l \<leftarrow> sg_disconnect i q l; sg_connect i p l }) = Some l' \<and> sided same sg0 rn0 (insert i D) l'"
proof -
  obtain c en where l: "l = (sg0\<lparr>sg_connected := c\<rparr>, rn0\<lparr>nw_enabled := en\<rparr>)" "length c = sg_N sg0" "\<And>i. i \<in> D \<Longrightarrow> c ! i"
    and en: "\<And>i j. i < sg_N sg0 \<Longrightarrow> j < sg_N sg0 \<Longrightarrow> i \<in> D \<Longrightarrow> j \<in> D \<Longrightarrow> same i j \<Longrightarrow> en (endName sg0 i j)"
      "\<And>i j. i < sg_N sg0 \<Longrightarrow> j < sg_N sg0 \<Longrightarrow> i \<in> D \<or> j \<in> D \<Longrightarrow> \<not> same i j \<Longrightarrow> \<not> en (endName sg0 i j)"
      "\<And>e. (\<forall>i < sg_N sg0. \<forall>j < sg_N sg0. e \<noteq> endName sg0 i j) \<Longrightarrow> en e = nw_enabled rn0 e"
    using s by (auto simp: sided_def)
  let ?c1 = "c[i := False]" and ?c = "c[i := True]"
  let ?en1 = "\<lambda>e. en e \<and> \<not> (\<exists>j \<in> set q. e = endName sg0 i j \<or> e = endName sg0 j i)"
  let ?en = "\<lambda>e. ?en1 e \<or> (\<exists>j \<in> set p. ?c ! j \<and> (e = endName sg0 i j \<or> e = endName sg0 j i))"
  have N: "sg_N (sg0\<lparr>sg_connected := x\<rparr>) = sg_N sg0" for x by (simp add: sg_N_def)
  have sub: "set p \<subseteq> {..<sg_N sg0}" "set q \<subseteq> {..<sg_N sg0}" using p q by auto
  have 1: "sg_disconnect i q l = Some (sg0\<lparr>sg_connected := ?c1\<rparr>, rn0\<lparr>nw_enabled := ?en1\<rparr>)"
    using sg_disconnect_links [OF grp_ok_conn [OF ok l(2)], of i q "rn0\<lparr>nw_enabled := en\<rparr>"] i sub by (simp add: l(1) N)
  have 2: "sg_connect i p (sg0\<lparr>sg_connected := ?c1\<rparr>, rn0\<lparr>nw_enabled := ?en1\<rparr>) = Some (sg0\<lparr>sg_connected := ?c\<rparr>, rn0\<lparr>nw_enabled := ?en\<rparr>)"
    using sg_connect_links [OF grp_ok_conn [OF ok, of ?c1], of i p "rn0\<lparr>nw_enabled := ?en1\<rparr>"] i sub l(2) by (simp add: N)
  note nm = grp_okD(3) [OF ok]
  have cD: "?c ! j" if "j \<in> insert i D" for j using that l(2,3) i by (auto simp: nth_list_update)
  have "sided same sg0 rn0 (insert i D) (sg0\<lparr>sg_connected := ?c\<rparr>, rn0\<lparr>nw_enabled := ?en\<rparr>)"
    unfolding sided_def prod.case
  proof (intro exI [of _ ?c] exI [of _ ?en] conjI allI impI ballI refl)
    show "?c ! j" if "j \<in> insert i D" for j by (rule cD [OF that])
    show "?en (endName sg0 a b)" if "a < sg_N sg0" "b < sg_N sg0" "a \<in> insert i D \<and> b \<in> insert i D \<and> same a b" for a b
    proof (cases "a = i \<or> b = i")
      case True
      define j where "j = (if a = i then b else a)"
      have "j \<in> set p" "?c ! j" "endName sg0 a b = endName sg0 i j \<or> endName sg0 a b = endName sg0 j i"
        using True that cD [of j] same p by (auto simp: j_def)
      then show ?thesis by blast
    next
      case False
      then show ?thesis using that en(1) [of a b] nm [of a b i] nm [of a b _ i] i q by auto
    qed
    show "\<not> ?en (endName sg0 a b)" if "a < sg_N sg0" "b < sg_N sg0" "(a \<in> insert i D \<or> b \<in> insert i D) \<and> \<not> same a b" for a b
    proof -
      have "\<not> ?en1 (endName sg0 a b)" using that en(2) [of a b] same(1) q by auto
      moreover have "\<not> (\<exists>j \<in> set p. endName sg0 a b = endName sg0 i j \<or> endName sg0 a b = endName sg0 j i)"
        using that nm [of a b] i p same(1) by auto
      ultimately show ?thesis by blast
    qed
    show "?en e = nw_enabled rn0 e" if "\<forall>i < sg_N sg0. \<forall>j < sg_N sg0. e \<noteq> endName sg0 i j" for e
      using en(3) [OF that] that i p q by auto
  qed (use l(2) in simp)
  then show ?thesis using 1 2 by simp
qed

text \<open>
  C22: a partition partitions.  For two lists that name every server of a group exactly on one side,
  \<open>Partition\<close> does not panic whatever was connected before, and afterwards the end from one server to
  another is enabled exactly when both are on the same side, every server counts as connected, and
  the ends of clients and other groups are as they were.
\<close>

theorem Partition_splits:
  assumes ok: "grp_ok sg" and p: "set p1 \<union> set p2 = {..<sg_N sg}" "set p1 \<inter> set p2 = {}"
  shows "\<exists>sg' rn'. Partition p1 p2 (sg, rn) = Some (sg', rn') \<and> sg_srvs sg' = sg_srvs sg
     \<and> (\<forall>i < sg_N sg. \<forall>j < sg_N sg. nw_enabled rn' (endName sg i j) \<longleftrightarrow> (i \<in> set p1 \<longleftrightarrow> j \<in> set p1))
     \<and> (\<forall>i < sg_N sg. IsConnected i sg' = Some True)
     \<and> (\<forall>e. (\<forall>i < sg_N sg. \<forall>j < sg_N sg. e \<noteq> endName sg i j) \<longrightarrow> nw_enabled rn' e = nw_enabled rn e)"
proof -
  let ?same = "\<lambda>i j. i \<in> set p1 \<longleftrightarrow> j \<in> set p1"
  let ?P = "\<lambda>D l. D \<subseteq> {..<sg_N sg} \<and> sided ?same sg rn D l"
  have 0: "?P {} (sg, rn)"
    using grp_okD(1) [OF ok] by (auto simp: sided_def intro!: exI [of _ "sg_connected sg"] exI [of _ "nw_enabled rn"])
  have mv: "\<exists>l'. (do { l \<leftarrow> sg_disconnect i q l; sg_connect i p l }) = Some l' \<and> ?P (insert i D) l'"
    if "?P D l" "i < sg_N sg" "set p = {j. j < sg_N sg \<and> ?same i j}" "set q = {j. j < sg_N sg \<and> \<not> ?same i j}" for i D l p q
  proof -
    have "\<exists>l'. (do { l \<leftarrow> sg_disconnect i q l; sg_connect i p l }) = Some l' \<and> sided ?same sg rn (insert i D) l'"
      by (rule sided_move [OF ok, of ?same]) (use that in auto)
    then show ?thesis using that(1,2) by auto
  qed
  have "\<exists>l1. for_each (\<lambda>i l. do { l \<leftarrow> sg_disconnect i p2 l; sg_connect i p1 l }) p1 (sg, rn) = Some l1 \<and> ?P ({} \<union> set p1) l1"
    by (rule for_each_inv [of ?P, OF 0 mv]) (use p in auto)
  then obtain l1 where l1: "for_each (\<lambda>i l. do { l \<leftarrow> sg_disconnect i p2 l; sg_connect i p1 l }) p1 (sg, rn) = Some l1"
    "?P (set p1) l1" by auto
  have "\<exists>l2. for_each (\<lambda>i l. do { l \<leftarrow> sg_disconnect i p1 l; sg_connect i p2 l }) p2 l1 = Some l2 \<and> ?P (set p1 \<union> set p2) l2"
    by (rule for_each_inv [of ?P, OF l1(2) mv]) (use p in auto)
  then obtain l2 where l2: "Partition p1 p2 (sg, rn) = Some l2" "sided ?same sg rn {..<sg_N sg} l2"
    using l1(1) p(1) by (auto simp: Partition_def)
  then show ?thesis by (fastforce simp: sided_def IsConnected_def go_nth_nat)
qed

text \<open>The loop of \<open>MakePartition\<close> writes the servers other than the leader one after the other.\<close>

lemma MakePartition_loop:
  defines "f \<equiv> \<lambda>l i (p1, p2, j).
       if i \<noteq> l then
         if j < length p1 then Some (p1[j := i], p2, Suc j)
         else map_option (\<lambda>p2. (p1, p2, Suc j)) (go_upd p2 (int j - int (length p1)) i)
       else Some (p1, p2, j)"
  assumes "j + length (filter (\<lambda>i. i \<noteq> l) xs) \<le> length p1 + length p2"
  shows "for_each (f l) xs (p1, p2, j) =
    (let ys = filter (\<lambda>i. i \<noteq> l) xs; q = take j (p1 @ p2) @ ys @ drop (j + length ys) (p1 @ p2)
     in Some (take (length p1) q, drop (length p1) q, j + length ys))"
  using assms(2)
proof (induction xs arbitrary: p1 p2 j)
  case (Cons x xs)
  show ?case
  proof (cases "x = l")
    case True
    then show ?thesis using Cons.IH [of j p1 p2] Cons.prems by (simp add: f_def)
  next
    case False
    then have j: "j < length p1 + length p2" using Cons.prems by simp
    define w where "w = (p1 @ p2)[j := x]"
    let ?a = "length p1" and ?ys = "filter (\<lambda>i. i \<noteq> l) xs"
    have w: "length w = length p1 + length p2" "length (take ?a w) = ?a" "take (Suc j) w = take j (p1 @ p2) @ [x]"
      "drop (Suc j + k) w = drop (j + Suc k) (p1 @ p2)" for k
      using j by (simp_all add: w_def take_Suc_conv_app_nth)
    have "f l x (p1, p2, j) = Some (take ?a w, drop ?a w, Suc j)"
      using False j by (auto simp: f_def w_def go_upd_def list_update_append nat_diff_distrib)
    then have "for_each (f l) (x # xs) (p1, p2, j) = for_each (f l) xs (take ?a w, drop ?a w, Suc j)" by simp
    also have "\<dots> = (let q = take (Suc j) w @ ?ys @ drop (Suc j + length ?ys) w in Some (take ?a q, drop ?a q, Suc j + length ?ys))"
      using Cons.IH [of "Suc j" "take ?a w" "drop ?a w"] Cons.prems False w(1)
      by (simp only: Let_def w(2) append_take_drop_id) simp
    finally show ?thesis using False by (simp only: Let_def w(3,4)) simp
  qed
next
  case Nil
  have "take j (p1 @ p2) @ [] @ drop (j + 0) (p1 @ p2) = p1 @ p2" by (simp only: append_Nil add_0_right append_take_drop_id)
  then show ?case by (simp only: Let_def filter.simps list.size for_each.simps) simp
qed

lemma MakePartition_lists:
  assumes "l < n" and "3 \<le> n"
  defines "ys \<equiv> filter (\<lambda>i. i \<noteq> l) [0..<n]" and "k \<equiv> n div 2 + 1"
  shows "length ys = n - 1" and "k \<le> length ys"
    and "MakePartition n l = Some (take k ys, drop k ys @ (if odd n then [l] else [0, l]))"
proof -
  have "ys = [0..<l] @ [Suc l..<n]"
    using assms(1) upt_add_eq_append [of 0 l "n - l"] by (simp add: ys_def upt_conv_Cons filter_id_conv)
  then show len: "length ys = n - 1" using assms(1) by simp
  then show k: "k \<le> length ys" using assms(2) by (simp add: k_def)
  let ?z = "if odd n then [0] else [0, 0 :: nat]"
  have z: "drop (n - 1) (replicate k 0 @ replicate (n div 2) 0) = ?z"
  proof -
    have "k + n div 2 - (n - 1) = (if odd n then 1 else 2)" using assms(2) unfolding k_def by presburger
    then have "drop (n - 1) (replicate (k + n div 2) 0) = ?z" by (simp add: numeral_2_eq_2)
    then show ?thesis by (simp only: replicate_add)
  qed
  have "for_each (\<lambda>i (p1, p2, j).
       if i \<noteq> l then
         if j < length p1 then Some (p1[j := i], p2, Suc j)
         else map_option (\<lambda>p2. (p1, p2, Suc j)) (go_upd p2 (int j - int (length p1)) i)
       else Some (p1, p2, j)) [0..<n] (replicate k 0, replicate (n div 2) 0, 0) = Some (take k ys, drop k ys @ ?z, n - 1)"
    using MakePartition_loop [of 0 l "[0..<n]" "replicate k 0" "replicate (n div 2) 0"] len z k
    by (simp add: k_def flip: ys_def)
  moreover have "go_upd (drop k ys @ ?z) (int (length (drop k ys @ ?z)) - 1) l = Some (drop k ys @ (if odd n then [l] else [0, l]))"
  proof (cases "odd n")
    case False
    have "go_upd (d @ [0, 0]) (int (length (d @ [0, 0 :: nat])) - 1) l = Some (d @ [0, l])" for d
      using go_upd_nat [of "Suc (length d)" "d @ [0, 0]" l] by (simp add: list_update_append add.commute)
    from this [of "drop k ys"] show ?thesis using False by simp
  qed (simp add: go_upd_def list_update_append)
  ultimately show "MakePartition n l = Some (take k ys, drop k ys @ (if odd n then [l] else [0, l]))"
    by (simp add: MakePartition_def k_def)
qed

text \<open>
  C37: the partition of a test.  For an odd number of servers \<open>MakePartition\<close> splits them into a
  majority and a minority that contains the leader.  For an even number an unused place of the second
  part keeps its initial value 0, so that server 0 is on both sides unless it is the leader, and for
  one server the call panics.
\<close>

theorem MakePartition_exact:
  assumes "l < n"
  shows "(odd n \<and> n \<noteq> 1 \<longrightarrow> (\<exists>p1 p2. MakePartition n l = Some (p1, p2) \<and> set p1 \<union> set p2 = {..<n} \<and> set p1 \<inter> set p2 = {}
       \<and> distinct (p1 @ p2) \<and> l \<in> set p2 \<and> length p2 = n div 2 \<and> length p1 = n div 2 + 1))
     \<and> (even n \<and> 4 \<le> n \<and> l \<noteq> 0 \<longrightarrow> (\<exists>p1 p2. MakePartition n l = Some (p1, p2) \<and> 0 \<in> set p1 \<inter> set p2))
     \<and> (n = 1 \<longrightarrow> MakePartition n l = None)"
proof -
  let ?ys = "filter (\<lambda>i. i \<noteq> l) [0..<n]" and ?k = "n div 2 + 1"
  have "\<exists>p1 p2. MakePartition n l = Some (p1, p2) \<and> set p1 \<union> set p2 = {..<n} \<and> set p1 \<inter> set p2 = {}
       \<and> distinct (p1 @ p2) \<and> l \<in> set p2 \<and> length p2 = n div 2 \<and> length p1 = n div 2 + 1" if n: "odd n" "n \<noteq> 1"
  proof -
    have n3: "3 \<le> n" using n by presburger
    note m = MakePartition_lists [OF assms n3]
    define A B where "A = take ?k ?ys" and "B = drop ?k ?ys"
    have AB: "A @ B = ?ys" by (simp only: A_def B_def append_take_drop_id)
    have d: "distinct (A @ B)" "set A \<union> set B = {..<n} - {l}" unfolding set_append [symmetric] AB by auto
    have "length B = n - 1 - ?k" "length A = ?k" using m(1,2) by (simp_all only: A_def B_def length_drop length_take min_absorb2)
    moreover have "n - 1 - ?k + 1 = n div 2" using n(1) n3 by presburger
    ultimately have "length (B @ [l]) = n div 2" "length A = ?k" by simp_all
    moreover have "MakePartition n l = Some (A, B @ [l])" using m(3) n(1) by (simp only: A_def B_def if_True not_False_eq_True)
    moreover have "set A \<union> set (B @ [l]) = {..<n}" "set A \<inter> set (B @ [l]) = {}" "distinct (A @ B @ [l])"
      using d assms by auto
    ultimately show ?thesis by (intro exI [of _ A] exI [of _ "B @ [l]"]) simp
  qed
  moreover have "\<exists>p1 p2. MakePartition n l = Some (p1, p2) \<and> 0 \<in> set p1 \<inter> set p2" if n: "even n" "4 \<le> n" "l \<noteq> 0"
  proof -
    have "3 \<le> n" using n by simp
    moreover have "?ys = 0 # filter (\<lambda>i. i \<noteq> l) [1..<n]" using n(2,3) by (simp add: upt_conv_Cons)
    ultimately show ?thesis using MakePartition_lists(3) [OF assms] n(1) by simp
  qed
  moreover have "MakePartition n l = None" if "n = 1" using that assms by (simp add: MakePartition_def go_upd_def)
  ultimately show ?thesis by blast
qed

theorem MakePartition_exact_witness:
  "MakePartition 3 1 = Some ([0, 2], [1]) \<and> (\<exists>p1 p2. MakePartition 3 1 = Some (p1, p2) \<and> 1 \<in> set p2 \<and> length p2 = 1)
   \<and> (\<exists>p1 p2. MakePartition 4 1 = Some (p1, p2) \<and> 0 \<in> set p1 \<inter> set p2)"
proof (intro conjI)
  show "MakePartition 3 1 = Some ([0, 2], [1])" by code_simp
  have "\<exists>p1 p2. MakePartition 3 1 = Some (p1, p2) \<and> set p1 \<union> set p2 = {..<3} \<and> set p1 \<inter> set p2 = {}
      \<and> distinct (p1 @ p2) \<and> 1 \<in> set p2 \<and> length p2 = 3 div 2 \<and> length p1 = 3 div 2 + 1"
    by (rule MakePartition_exact [of 1 3, THEN conjunct1, THEN mp]) simp_all
  then show "\<exists>p1 p2. MakePartition 3 1 = Some (p1, p2) \<and> 1 \<in> set p2 \<and> length p2 = 1" by auto
  show "\<exists>p1 p2. MakePartition 4 1 = Some (p1, p2) \<and> 0 \<in> set p1 \<inter> set p2"
    by (rule MakePartition_exact [of 1 4, THEN conjunct2, THEN conjunct1, THEN mp]) simp_all
qed

section \<open>Starting servers\<close>

text \<open>
  The strings that \<open>Randstring\<close> still has to give are distinct and name no end.  They are 20 characters
  from 40 random bytes; the code relies on them being distinct, and \<open>MakeEnd\<close> stops the test if not.
\<close>

definition fresh_names :: "('rc, 'ty, 'w) tester_code \<Rightarrow> ('rc, 'ty, 'r, 'b, 'w) testbed \<Rightarrow> bool" where
  "fresh_names E tb \<longleftrightarrow> inj (tc_rand E) \<and> (\<forall>k \<ge> tb_rand tb. nw_ends (tb_net tb) (tc_rand E k) = None)"

text \<open>The ends \<open>names\<close> to the servers \<open>js\<close> have been made, not yet enabled, and nothing else has changed.\<close>

definition adds_ends :: "('rc, 'ty, 'w) tester_code \<Rightarrow> nat \<Rightarrow> nat list \<Rightarrow> ('rc, 'ty, 'r, 'b, 'w) testbed \<Rightarrow> string list
    \<Rightarrow> ('rc, 'ty, 'r, 'b, 'w) testbed \<Rightarrow> bool" where
  "adds_ends E gid js tb names tb' \<longleftrightarrow> names = map (tc_rand E) [tb_rand tb..<tb_rand tb + length js] \<and> fresh_names E tb'
     \<and> (\<exists>ends en con. tb' = tb\<lparr>tb_rand := tb_rand tb + length js,
            tb_net := (tb_net tb)\<lparr>nw_ends := ends, nw_enabled := en, nw_connections := con\<rparr>\<rparr>
          \<and> (\<forall>e. e \<notin> set names \<longrightarrow> en e = nw_enabled (tb_net tb) e \<and> con e = nw_connections (tb_net tb) e)
          \<and> (\<forall>k < length js. \<not> en (names ! k) \<and> con (names ! k) = Some (ServerName gid (js ! k))))"

lemma make_ends_adds:
  assumes "fresh_names E tb"
  shows "\<exists>names ends tb'. make_ends E gid js tb = Some (names, ends, tb') \<and> adds_ends E gid js tb names tb'"
  using assms
proof (induction js arbitrary: tb)
  case Nil
  then show ?case by (auto simp: adds_ends_def intro!: exI [of _ "nw_ends (tb_net tb)"] exI [of _ "nw_enabled (tb_net tb)"]
      exI [of _ "nw_connections (tb_net tb)"])
next
  case (Cons j js)
  let ?r = "tb_rand tb" and ?rn = "tb_net tb" let ?x = "tc_rand E ?r"
  have inj: "inj (tc_rand E)" using Cons.prems by (simp add: fresh_names_def)
  have none: "nw_ends ?rn (tc_rand E k) = None" if "?r \<le> k" for k using Cons.prems that by (simp add: fresh_names_def)
  let ?e = "\<lparr>ce_endname = ?x\<rparr>"
  let ?rn1 = "?rn\<lparr>nw_ends := (nw_ends ?rn)(?x \<mapsto> ?e), nw_enabled := (nw_enabled ?rn)(?x := False),
    nw_connections := (nw_connections ?rn)(?x := Some (ServerName gid j))\<rparr>"
  let ?tb1 = "tb\<lparr>tb_rand := Suc ?r, tb_net := ?rn1\<rparr>"
  have "fresh_names E ?tb1" using inj none by (auto simp: fresh_names_def dest: injD)
  from Cons.IH [OF this] obtain names ends tb' where IH: "make_ends E gid js ?tb1 = Some (names, ends, tb')"
    "adds_ends E gid js ?tb1 names tb'" by blast
  have x: "?x \<notin> set (map (tc_rand E) [Suc ?r..<Suc ?r + length js])" using inj by (auto dest: injD)
  have "make_ends E gid (j # js) tb = Some (?x # names, ?e # ends, tb')"
    using IH(1) none [of ?r] by (simp add: Randstring_def MakeEnd_def Connect_def Let_def)
  moreover have "adds_ends E gid (j # js) tb (?x # names) tb'"
  proof -
    obtain em en con where tb': "tb' = ?tb1\<lparr>tb_rand := tb_rand ?tb1 + length js,
          tb_net := (tb_net ?tb1)\<lparr>nw_ends := em, nw_enabled := en, nw_connections := con\<rparr>\<rparr>"
      and names: "names = map (tc_rand E) [Suc ?r..<Suc ?r + length js]" and fr: "fresh_names E tb'"
      and old: "\<And>e. e \<notin> set names \<Longrightarrow> en e = nw_enabled ?rn1 e \<and> con e = nw_connections ?rn1 e"
      and new: "\<And>k. k < length js \<Longrightarrow> \<not> en (names ! k) \<and> con (names ! k) = Some (ServerName gid (js ! k))"
      using IH(2) by (auto simp: adds_ends_def)
    have "\<not> en ((?x # names) ! k) \<and> con ((?x # names) ! k) = Some (ServerName gid ((j # js) ! k))" if "k < length (j # js)" for k
      using that old [of ?x] new x names by (cases k) simp_all
    moreover have "en e = nw_enabled ?rn e \<and> con e = nw_connections ?rn e" if "e \<notin> set (?x # names)" for e
      using that old [of e] by simp
    moreover have "?x # names = map (tc_rand E) [?r..<?r + length (j # js)]" by (simp add: names upt_conv_Cons del: upt_Suc)
    ultimately show ?thesis
      unfolding adds_ends_def using fr by (intro conjI exI [of _ em] exI [of _ en] exI [of _ con]) (simp_all add: tb')
  qed
  ultimately show ?case by blast
qed

text \<open>
  The ends of the first \<open>m\<close> servers, \<open>f i\<close> those of server \<open>i\<close>: they have different names that were
  drawn before, and each leads to its server.
\<close>

definition names_ok :: "('rc, 'ty, 'w) tester_code \<Rightarrow> nat \<Rightarrow> nat \<Rightarrow> ('rc, 'ty, 'r, 'b, 'w) testbed \<Rightarrow> nat \<Rightarrow> (nat \<Rightarrow> string list) \<Rightarrow> bool" where
  "names_ok E gid n tb m f \<longleftrightarrow> (\<forall>i < m. length (f i) = n \<and> (\<forall>j < n. (\<exists>q < tb_rand tb. f i ! j = tc_rand E q)
       \<and> nw_connections (tb_net tb) (f i ! j) = Some (ServerName gid j)))
     \<and> (\<forall>i < m. \<forall>j < n. \<forall>i' < m. \<forall>j' < n. f i ! j = f i' ! j' \<longrightarrow> i = i' \<and> j = j')"

lemma names_okD:
  assumes "names_ok E gid n tb m f" and "i < m"
  shows "length (f i) = n" "j < n \<Longrightarrow> \<exists>q < tb_rand tb. f i ! j = tc_rand E q"
    "j < n \<Longrightarrow> nw_connections (tb_net tb) (f i ! j) = Some (ServerName gid j)"
    "i' < m \<Longrightarrow> j < n \<Longrightarrow> j' < n \<Longrightarrow> f i ! j = f i' ! j' \<Longrightarrow> i = i' \<and> j = j'"
  using assms by (simp_all add: names_ok_def)

lemma names_ok_cong:
  "names_ok E gid n tb m f \<Longrightarrow> (\<And>i. i < m \<Longrightarrow> g i = f i) \<Longrightarrow> names_ok E gid n tb m g"
  unfolding names_ok_def by simp

lemma names_ok_net:
  "names_ok E gid n tb m f \<Longrightarrow> nw_connections (tb_net tb') = nw_connections (tb_net tb) \<Longrightarrow> tb_rand tb' = tb_rand tb
    \<Longrightarrow> names_ok E gid n tb' m f"
  by (simp add: names_ok_def)

lemma names_ok_add:
  assumes ok: "names_ok E gid n tb m f" and ad: "adds_ends E gid [0..<n] tb nm tb'" and m': "{..<m'} \<subseteq> insert i {..<m}"
  shows "names_ok E gid n tb' m' (f(i := nm))"
proof -
  have inj: "inj (tc_rand E)" and nm: "nm = map (tc_rand E) [tb_rand tb..<tb_rand tb + n]" and r: "tb_rand tb' = tb_rand tb + n"
    and old: "\<And>e. e \<notin> set nm \<Longrightarrow> nw_connections (tb_net tb') e = nw_connections (tb_net tb) e"
    and new: "\<And>k. k < n \<Longrightarrow> nw_connections (tb_net tb') (nm ! k) = Some (ServerName gid k)"
    using ad by (auto simp: adds_ends_def fresh_names_def)
  have k: "nm ! j = tc_rand E (tb_rand tb + j)" if "j < n" for j using that by (simp add: nm)
  have notin: "f a ! b \<notin> set nm" if "a < m" "b < n" for a b
    using names_okD(2) [OF ok that] by (auto simp: nm inj_eq [OF inj])
  have ne: "f a ! b \<noteq> nm ! j" if "a < m" "b < n" "j < n" for a b j
    using notin [OF that(1,2)] that(3) by (metis nm length_map length_upt diff_add_inverse nth_mem)
  have "a = i \<or> a < m" if "a < m'" for a using m' that by auto
  note dom = this
  show ?thesis
    unfolding names_ok_def
  proof (intro conjI allI impI)
    fix a b assume a: "a < m'"
    show "length ((f(i := nm)) a) = n" using dom [OF a] names_okD(1) [OF ok] by (auto simp: nm)
    assume b: "b < n"
    show "\<exists>q < tb_rand tb'. (f(i := nm)) a ! b = tc_rand E q"
    proof (cases "a = i")
      case True
      then show ?thesis using k [OF b] b by (intro exI [of _ "tb_rand tb + b"]) (simp add: r)
    next
      case False
      then show ?thesis using dom [OF a] names_okD(2) [OF ok _ b, of a] by (auto simp: r intro: trans_less_add1)
    qed
    show "nw_connections (tb_net tb') ((f(i := nm)) a ! b) = Some (ServerName gid b)"
      using dom [OF a] names_okD(3) [OF ok _ b, of a] old [OF notin [OF _ b], of a] new [OF b] by auto
  next
    fix a b a' b' assume h: "a < m'" "b < n" "a' < m'" "b' < n" "(f(i := nm)) a ! b = (f(i := nm)) a' ! b'"
    have kk: "b = b'" if "nm ! b = nm ! b'" using that k [OF h(2)] k [OF h(4)] by (simp add: inj_eq [OF inj])
    have "a = a' \<and> b = b'"
    proof (cases "a = i"; cases "a' = i")
      assume "a \<noteq> i" "a' \<noteq> i"
      then show ?thesis using h dom [OF h(1)] dom [OF h(3)] names_okD(4) [OF ok, of a a' b b'] by simp
    qed (use h dom [OF h(1)] dom [OF h(3)] ne [of a b b'] ne [of a' b' b] kk in simp_all)
    then show "a = a'" "b = b'" by simp_all
  qed
qed

lemma makeServer_adds:
  assumes "fresh_names E tb"
  shows "\<exists>s tb'. makeServer E gid n tb = Some (s, tb') \<and> sr_saved s = None \<and> adds_ends E gid [0..<n] tb (sr_endNames s) tb'"
  using make_ends_adds [OF assms, of gid "[0..<n]"] by (auto simp: makeServer_def)

text \<open>Making servers leaves the rest of the test bed alone.\<close>

definition keeps :: "('rc, 'ty, 'r, 'b, 'w) testbed \<Rightarrow> ('rc, 'ty, 'r, 'b, 'w) testbed \<Rightarrow> bool" where
  "keeps tb tb' \<longleftrightarrow> tb_heap tb' = tb_heap tb \<and> tb_disks tb' = tb_disks tb \<and> tb_world tb' = tb_world tb
     \<and> nw_servers (tb_net tb') = nw_servers (tb_net tb) \<and> nw_reliable (tb_net tb') = nw_reliable (tb_net tb)"

lemma adds_endsD:
  assumes "adds_ends E gid js tb nm tb'"
  shows "fresh_names E tb'" "keeps tb tb'" "length nm = length js"
  using assms by (auto simp: adds_ends_def keeps_def)

lemma make_srvs_ok:
  assumes "fresh_names E tb" "names_ok E gid n tb m f"
  shows "\<exists>ss tb'. make_srvs E gid n k tb = Some (ss, tb') \<and> length ss = k \<and> fresh_names E tb' \<and> keeps tb tb'
    \<and> (\<forall>s \<in> set ss. sr_saved s = None) \<and> names_ok E gid n tb' (m + k) (\<lambda>i. if i < m then f i else sr_endNames (ss ! (i - m)))"
  using assms
proof (induction k arbitrary: tb m f)
  case 0
  then show ?case by (auto simp: keeps_def intro: names_ok_cong)
next
  case (Suc k)
  obtain s tb1 where s: "makeServer E gid n tb = Some (s, tb1)" "sr_saved s = None" "adds_ends E gid [0..<n] tb (sr_endNames s) tb1"
    using makeServer_adds [OF Suc.prems(1)] by blast
  have "names_ok E gid n tb1 (Suc m) (f(m := sr_endNames s))" by (rule names_ok_add [OF Suc.prems(2) s(3)]) auto
  from Suc.IH [OF adds_endsD(1) [OF s(3)] this] obtain ss tb' where ss: "make_srvs E gid n k tb1 = Some (ss, tb')"
    "length ss = k" "fresh_names E tb'" "keeps tb1 tb'" "\<forall>s \<in> set ss. sr_saved s = None"
    "names_ok E gid n tb' (Suc m + k) (\<lambda>i. if i < Suc m then (f(m := sr_endNames s)) i else sr_endNames (ss ! (i - Suc m)))" by blast
  have "names_ok E gid n tb' (m + Suc k) (\<lambda>i. if i < m then f i else sr_endNames ((s # ss) ! (i - m)))"
    using ss(6) by (simp, elim names_ok_cong) (auto simp: nth_Cons' less_Suc_eq)
  then show ?case using s ss adds_endsD(2) [OF s(3)] by (auto simp: keeps_def)
qed

lemma ServerName_inj [simp]: "ServerName gid i = ServerName gid j \<longleftrightarrow> i = j"
  by (simp add: ServerName_def Itoa_inj)

text \<open>The invariant of a group on its test bed.\<close>

definition site_ok :: "('rc, 'ty, 'w) tester_code \<Rightarrow> ('rc, 'ty, 'r, 'b, 'w) site \<Rightarrow> bool" where
  "site_ok E = (\<lambda>(sg, tb). fresh_names E tb \<and> length (sg_connected sg) = sg_N sg
     \<and> names_ok E (sg_gid sg) (sg_N sg) tb (sg_N sg) (\<lambda>i. sr_endNames (sg_srvs sg ! i))
     \<and> (\<forall>i < sg_N sg. \<forall>a. sr_saved (sg_srvs sg ! i) = Some a \<longrightarrow> a < length (tb_disks tb))
     \<and> (\<forall>s a. nw_servers (tb_net tb) s = Some a \<longrightarrow> a < length (tb_heap tb)))"

lemma site_okD:
  assumes "site_ok E (sg, tb)"
  shows "fresh_names E tb" "length (sg_connected sg) = sg_N sg"
    "names_ok E (sg_gid sg) (sg_N sg) tb (sg_N sg) (\<lambda>i. sr_endNames (sg_srvs sg ! i))"
    "i < sg_N sg \<Longrightarrow> sr_saved (sg_srvs sg ! i) = Some a \<Longrightarrow> a < length (tb_disks tb)"
    "nw_servers (tb_net tb) s = Some a \<Longrightarrow> a < length (tb_heap tb)" "grp_ok sg"
  using assms by (simp_all add: site_ok_def grp_ok_def names_ok_def)

lemma makeSrvGrp_ok:
  assumes "fresh_names E tb" and "\<And>s a. nw_servers (tb_net tb) s = Some a \<Longrightarrow> a < length (tb_heap tb)"
  shows "\<exists>sg tb'. makeSrvGrp E gid n tb = Some (sg, tb') \<and> site_ok E (sg, tb') \<and> sg_N sg = n \<and> sg_gid sg = gid
    \<and> (\<forall>i < n. sr_saved (sg_srvs sg ! i) = None)"
proof -
  have "names_ok E gid n tb 0 (\<lambda>_. [])" by (simp add: names_ok_def)
  from make_srvs_ok [OF assms(1) this, of n] obtain ss tb' where ss: "make_srvs E gid n n tb = Some (ss, tb')" "length ss = n"
    "fresh_names E tb'" "keeps tb tb'" "\<forall>s \<in> set ss. sr_saved s = None" "names_ok E gid n tb' n (\<lambda>i. sr_endNames (ss ! i))" by auto
  then show ?thesis using assms(2) by (auto simp: makeSrvGrp_def site_ok_def sg_N_def keeps_def)
qed

text \<open>The disk a server is started on.\<close>

definition disk_of :: "('rc, 'ty, 'r, 'b, 'w) testbed \<Rightarrow> 'rc tServer \<Rightarrow> ('r, 'b) Persister" where
  "disk_of tb s = (case sr_saved s of None \<Rightarrow> MakePersister | Some a \<Rightarrow> tb_disks tb ! a)"

lemma StartServer_ok:
  assumes ok: "site_ok E (sg, tb)" and i: "i < sg_N sg"
  shows "\<exists>sg' tb'. StartServer E i (sg, tb) = Some (sg', tb') \<and> site_ok E (sg', tb') \<and> sg_N sg' = sg_N sg \<and> sg_gid sg' = sg_gid sg
    \<and> (\<forall>j. j \<noteq> i \<longrightarrow> sg_srvs sg' ! j = sg_srvs sg ! j) \<and> sg_connected sg' = sg_connected sg
    \<and> sr_saved (sg_srvs sg' ! i) = Some (length (tb_disks tb)) \<and> tb_disks tb' = tb_disks tb @ [disk_of tb (sg_srvs sg ! i)]
    \<and> nw_servers (tb_net tb') = (nw_servers (tb_net tb))(ServerName (sg_gid sg) i \<mapsto> length (tb_heap tb))
    \<and> nw_reliable (tb_net tb') = nw_reliable (tb_net tb)"
proof -
  let ?s = "sg_srvs sg ! i" and ?n = "sg_N sg" and ?gid = "sg_gid sg"
  obtain s tb1 where s: "makeServer E ?gid ?n tb = Some (s, tb1)" "adds_ends E ?gid [0..<?n] tb (sr_endNames s) tb1"
    using makeServer_adds [OF site_okD(1) [OF ok]] by blast
  note k = adds_endsD(2) [OF s(2), unfolded keeps_def]
  have ps: "(case sr_saved ?s of Some a \<Rightarrow> map_option Copy (go_nth (tb_disks tb1) (int a)) | None \<Rightarrow> Some MakePersister)
      = Some (disk_of tb ?s)"
    using site_okD(4) [OF ok i] k by (auto simp: disk_of_def go_nth_nat split: option.split)
  have n: "length (sr_endNames ?s) = ?n" using names_okD(1) [OF site_okD(3) [OF ok] i] .
  obtain svcs w where mk: "tc_mks E (sr_clntEnds s) ?gid i (length (tb_disks tb)) (tb_world tb) = (svcs, w)" by fastforce
  let ?rs = "foldl (\<lambda>rs (rcvr, name, ms). AddService (MakeService name rcvr ms) rs) MakeServer svcs"
  let ?sg = "sg\<lparr>sg_srvs := (sg_srvs sg)[i := s\<lparr>sr_saved := Some (length (tb_disks tb)), sr_svcs := map fst svcs\<rparr>]\<rparr>"
  let ?tb = "tb1\<lparr>tb_disks := tb_disks tb @ [disk_of tb ?s], tb_world := w, tb_heap := tb_heap tb @ [?rs],
      tb_net := AddServer (ServerName ?gid i) (length (tb_heap tb)) (tb_net tb1)\<rparr>"
  have "StartServer E i (sg, tb) = Some (?sg, ?tb)"
    using i s(1) ps n k mk by (simp add: StartServer_def startServer_def go_nth_nat sg_N_def Let_def)
  moreover have "names_ok E ?gid ?n tb1 ?n ((\<lambda>i. sr_endNames (sg_srvs sg ! i))(i := sr_endNames s))"
    by (rule names_ok_add [OF site_okD(3) [OF ok] s(2)]) (use i in auto)
  then have "names_ok E ?gid ?n tb1 ?n (\<lambda>j. sr_endNames (sg_srvs ?sg ! j))"
    by (rule names_ok_cong) (use i in \<open>simp add: sg_N_def nth_list_update\<close>)
  then have nm: "names_ok E ?gid ?n ?tb ?n (\<lambda>j. sr_endNames (sg_srvs ?sg ! j))"
    by (rule names_ok_net) (simp_all add: AddServer_def)
  have N: "sg_N ?sg = ?n" by (simp add: sg_N_def)
  have sv: "a < length (tb_disks ?tb)" if "j < ?n" "sr_saved (sg_srvs ?sg ! j) = Some a" for j a
    using that site_okD(4) [OF ok that(1), of a] i by (cases "j = i") (simp_all add: sg_N_def)
  have sr: "a < length (tb_heap ?tb)" if "nw_servers (tb_net ?tb) x = Some a" for x a
    using that site_okD(5) [OF ok, of x a] k by (cases "x = ServerName ?gid i") (simp_all add: AddServer_def)
  have fr: "fresh_names E ?tb" using adds_endsD(1) [OF s(2)] by (simp add: fresh_names_def AddServer_def)
  have "site_ok E (?sg, ?tb)"
    unfolding site_ok_def prod.case N using fr nm sv sr site_okD(2) [OF ok] by simp
  ultimately show ?thesis using i k N
    by (intro exI [of _ ?sg] exI [of _ ?tb]) (simp add: sg_N_def AddServer_def)
qed

text \<open>All servers of a new group are started on empty disks.\<close>

definition running :: "('rc, 'ty, 'w) tester_code \<Rightarrow> nat \<Rightarrow> nat \<Rightarrow> bool \<Rightarrow> nat set \<Rightarrow> ('rc, 'ty, 'r, 'b, 'w) site \<Rightarrow> bool" where
  "running E gid n rel D = (\<lambda>(sg, tb). site_ok E (sg, tb) \<and> sg_N sg = n \<and> sg_gid sg = gid \<and> nw_reliable (tb_net tb) = rel
     \<and> (\<forall>i < n. disk_of tb (sg_srvs sg ! i) = MakePersister)
     \<and> (\<forall>i \<in> D. sr_saved (sg_srvs sg ! i) \<noteq> None \<and> nw_servers (tb_net tb) (ServerName gid i) \<noteq> None))"

lemma running_step:
  assumes r: "running E gid n rel D (sg, tb)" and i: "i < n"
  shows "\<exists>x'. StartServer E i (sg, tb) = Some x' \<and> running E gid n rel (insert i D) x'"
proof -
  have ok: "site_ok E (sg, tb)" and N: "sg_N sg = n" "sg_gid sg = gid" "nw_reliable (tb_net tb) = rel"
    and d: "\<And>j. j < n \<Longrightarrow> disk_of tb (sg_srvs sg ! j) = MakePersister"
    and D: "\<And>j. j \<in> D \<Longrightarrow> sr_saved (sg_srvs sg ! j) \<noteq> None \<and> nw_servers (tb_net tb) (ServerName gid j) \<noteq> None"
    using r by (auto simp: running_def)
  obtain sg' tb' where st: "StartServer E i (sg, tb) = Some (sg', tb')" "site_ok E (sg', tb')" "sg_N sg' = n" "sg_gid sg' = gid"
    "\<And>j. j \<noteq> i \<Longrightarrow> sg_srvs sg' ! j = sg_srvs sg ! j"
    "sr_saved (sg_srvs sg' ! i) = Some (length (tb_disks tb))" "tb_disks tb' = tb_disks tb @ [MakePersister]"
    "nw_servers (tb_net tb') = (nw_servers (tb_net tb))(ServerName gid i \<mapsto> length (tb_heap tb))" "nw_reliable (tb_net tb') = rel"
    using StartServer_ok [OF ok, of i] i N d [OF i] by auto
  have "disk_of tb' (sg_srvs sg' ! j) = MakePersister" if "j < n" for j
    using st(5) [of j] st(6,7) d [OF that] site_okD(4) [OF ok, of j] that N(1)
    by (cases "j = i") (auto simp: disk_of_def nth_append split: option.splits)
  moreover have "sr_saved (sg_srvs sg' ! j) \<noteq> None \<and> nw_servers (tb_net tb') (ServerName gid j) \<noteq> None" if "j \<in> insert i D" for j
    using that D [of j] st(5) [of j] st(6,8) by (cases "j = i") auto
  ultimately show ?thesis using st(1-4,9) by (auto simp: running_def)
qed

lemma sg_start_running:
  assumes "running E gid n rel {} (sg, tb)"
  shows "\<exists>sg' tb'. sg_start E (sg, tb) = Some (sg', tb') \<and> running E gid n rel {..<n} (sg', tb')"
proof -
  have "\<exists>x'. for_each (StartServer E) [0..<n] (sg, tb) = Some x' \<and> running E gid n rel ({} \<union> set [0..<n]) x'"
    by (rule for_each_inv [of "running E gid n rel", OF assms]) (use running_step in fastforce)
  moreover have "length (sg_srvs sg) = n" using assms by (simp add: running_def sg_N_def)
  ultimately show ?thesis by (auto simp: sg_start_def atLeast_upt lessThan_def)
qed

text \<open>Connecting all servers enables every end between them.\<close>

definition linked :: "'rc ServerGrp \<Rightarrow> (string, string) Network \<Rightarrow> nat set \<Rightarrow> 'rc links \<Rightarrow> bool" where
  "linked sg0 rn0 D = (\<lambda>(sg, rn). \<exists>c en. sg = sg0\<lparr>sg_connected := c\<rparr> \<and> rn = rn0\<lparr>nw_enabled := en\<rparr> \<and> length c = sg_N sg0
     \<and> (\<forall>i \<in> D. c ! i) \<and> (\<forall>i \<in> D. \<forall>j \<in> D. en (endName sg0 i j)))"

lemma linked_step:
  assumes ok: "grp_ok sg0" and l: "linked sg0 rn0 D l" and i: "i < sg_N sg0" and D: "D \<subseteq> {..<sg_N sg0}"
  shows "\<exists>l'. ConnectOne i l = Some l' \<and> linked sg0 rn0 (insert i D) l'"
proof -
  obtain c en where c: "l = (sg0\<lparr>sg_connected := c\<rparr>, rn0\<lparr>nw_enabled := en\<rparr>)" "length c = sg_N sg0" "\<And>i. i \<in> D \<Longrightarrow> c ! i"
    "\<And>i j. i \<in> D \<Longrightarrow> j \<in> D \<Longrightarrow> en (endName sg0 i j)" using l by (auto simp: linked_def)
  let ?sg = "sg0\<lparr>sg_connected := c\<rparr>" and ?c = "c[i := True]"
  let ?en = "\<lambda>e. en e \<or> (\<exists>j \<in> set (sg_all ?sg). ?c ! j \<and> (e = endName sg0 i j \<or> e = endName sg0 j i))"
  have all: "set (sg_all ?sg) = {..<sg_N sg0}" by (auto simp: sg_all_def sg_N_def)
  have "sg_connect i (sg_all ?sg) (?sg, rn0\<lparr>nw_enabled := en\<rparr>) = Some (sg0\<lparr>sg_connected := ?c\<rparr>, rn0\<lparr>nw_enabled := ?en\<rparr>)"
    using sg_connect_links [OF grp_ok_conn [OF ok c(2)], of i "sg_all ?sg" "rn0\<lparr>nw_enabled := en\<rparr>"] i all by (simp add: sg_N_def)
  then have 1: "ConnectOne i l = Some (sg0\<lparr>sg_connected := ?c\<rparr>, rn0\<lparr>nw_enabled := ?en\<rparr>)" by (simp add: ConnectOne_def c(1))
  have cD: "?c ! j" if "j \<in> insert i D" for j using that c(2,3) i by (auto simp: nth_list_update)
  have "?en (endName sg0 a b)" if "a \<in> insert i D" "b \<in> insert i D" for a b
    using that cD [of a] cD [of b] c(4) [of a b] D i unfolding all by blast
  then have "linked sg0 rn0 (insert i D) (sg0\<lparr>sg_connected := ?c\<rparr>, rn0\<lparr>nw_enabled := ?en\<rparr>)"
    unfolding linked_def prod.case using cD c(2) by (intro exI [of _ ?c] exI [of _ ?en]) simp
  then show ?thesis using 1 by blast
qed

lemma ConnectAll_links:
  assumes ok: "grp_ok sg"
  shows "\<exists>l'. ConnectAll (sg, rn) = Some l' \<and> linked sg rn {..<sg_N sg} l'"
proof -
  let ?P = "\<lambda>D l. D \<subseteq> {..<sg_N sg} \<and> linked sg rn D l"
  have "?P {} (sg, rn)"
    using grp_okD(1) [OF ok] by (auto simp: linked_def intro!: exI [of _ "sg_connected sg"] exI [of _ "nw_enabled rn"])
  then have "\<exists>l'. for_each ConnectOne [0..<sg_N sg] (sg, rn) = Some l' \<and> ?P ({} \<union> set [0..<sg_N sg]) l'"
    by (rule for_each_inv [of ?P]) (use linked_step [OF ok] in fastforce)
  then show ?thesis by (auto simp: ConnectAll_def sg_N_def atLeast_upt lessThan_def)
qed


lemma ShutdownServer_ok:
  assumes ok: "site_ok E (sg, tb)" and i: "i < sg_N sg" and a: "sr_saved (sg_srvs sg ! i) = Some a"
  shows "\<exists>sg' tb'. ShutdownServer E i (sg, tb) = Some (sg', tb') \<and> site_ok E (sg', tb') \<and> sg_N sg' = sg_N sg \<and> sg_gid sg' = sg_gid sg
    \<and> sr_saved (sg_srvs sg' ! i) = Some (length (tb_disks tb)) \<and> tb_disks tb' = tb_disks tb @ [tb_disks tb ! a]
    \<and> nw_servers (tb_net tb') = (nw_servers (tb_net tb))(ServerName (sg_gid sg) i := None) \<and> tb_heap tb' = tb_heap tb
    \<and> (\<forall>j < sg_N sg. \<not> nw_enabled (tb_net tb') (endName sg i j) \<and> \<not> nw_enabled (tb_net tb') (endName sg j i))"
proof -
  let ?s = "sg_srvs sg ! i" and ?rn = "tb_net tb"
  let ?en = "\<lambda>e. nw_enabled ?rn e \<and> \<not> (\<exists>j \<in> set (sg_all sg). e = endName sg i j \<or> e = endName sg j i)"
  have all: "set (sg_all sg) = {..<sg_N sg}" by (auto simp: sg_all_def sg_N_def)
  let ?sg1 = "sg\<lparr>sg_connected := (sg_connected sg)[i := False]\<rparr>"
  have d: "sg_disconnect i (sg_all sg) (sg, ?rn) = Some (?sg1, ?rn\<lparr>nw_enabled := ?en\<rparr>)"
    by (rule sg_disconnect_links [OF site_okD(6) [OF ok] i]) (simp add: all)
  have al: "a < length (tb_disks tb)" by (rule site_okD(4) [OF ok i a])
  let ?sg = "?sg1\<lparr>sg_srvs := (sg_srvs sg)[i := ?s\<lparr>sr_saved := Some (length (tb_disks tb)), sr_svcs := []\<rparr>]\<rparr>"
  let ?tb = "tb\<lparr>tb_net := DeleteServer (ServerName (sg_gid sg) i) (?rn\<lparr>nw_enabled := ?en\<rparr>), tb_disks := tb_disks tb @ [tb_disks tb ! a],
      tb_world := fold (tc_kill E) (sr_svcs ?s) (tb_world tb)\<rparr>"
  have "ShutdownServer E i (sg, tb) = Some (?sg, ?tb)"
    using d i a al by (simp add: ShutdownServer_def on_links_def shutdownServer_def go_nth_nat sg_N_def Let_def)
  moreover have N: "sg_N ?sg = sg_N sg" by (simp add: sg_N_def)
  moreover have "names_ok E (sg_gid sg) (sg_N sg) tb (sg_N sg) (\<lambda>j. sr_endNames (sg_srvs ?sg ! j))"
    by (rule names_ok_cong [OF site_okD(3) [OF ok]]) (use i in \<open>simp add: sg_N_def nth_list_update\<close>)
  then have nm: "names_ok E (sg_gid sg) (sg_N sg) ?tb (sg_N sg) (\<lambda>j. sr_endNames (sg_srvs ?sg ! j))"
    by (rule names_ok_net) (simp_all add: DeleteServer_def)
  have sv: "x < length (tb_disks ?tb)" if "j < sg_N sg" "sr_saved (sg_srvs ?sg ! j) = Some x" for j x
    using that site_okD(4) [OF ok that(1), of x] i by (cases "j = i") (simp_all add: sg_N_def)
  have sr: "x < length (tb_heap ?tb)" if "nw_servers (tb_net ?tb) y = Some x" for x y
    using that site_okD(5) [OF ok, of y x] by (cases "y = ServerName (sg_gid sg) i") (simp_all add: DeleteServer_def)
  have "site_ok E (?sg, ?tb)"
    unfolding site_ok_def prod.case N using nm sv sr site_okD(1,2) [OF ok] by (simp add: fresh_names_def DeleteServer_def)
  ultimately show ?thesis using i
    by (intro exI [of _ ?sg] exI [of _ ?tb]) (auto simp: sg_N_def DeleteServer_def all)
qed

text \<open>
  C21: a restart is a crash.  Stopping a running server disables every end from and to it and removes
  it from the network.  Whatever the old instance then writes to its persister and does to the
  program, starting the server again gives the new instance a persister of its own that holds what
  the old one held when it was stopped; and for every call still in progress the old instance counts as
  dead, which is what makes the call fail.
\<close>

theorem restart_isolated:
  assumes ok: "site_ok E (sg, tb)" and i: "i < sg_N sg" and a: "sr_saved (sg_srvs sg ! i) = Some a"
    and b: "nw_servers (tb_net tb) (ServerName (sg_gid sg) i) = Some b"
  shows "\<exists>sg1 tb1. ShutdownServer E i (sg, tb) = Some (sg1, tb1)
     \<and> (\<forall>j < sg_N sg. \<not> nw_enabled (tb_net tb1) (endName sg i j) \<and> \<not> nw_enabled (tb_net tb1) (endName sg j i))
     \<and> (\<forall>e. isServerDead e (ServerName (sg_gid sg) i) b (tb_net tb1))
     \<and> (\<forall>ps w. \<exists>sg2 tb2 a2. StartServer E i (sg1, tb1\<lparr>tb_disks := (tb_disks tb1)[a := ps], tb_world := w\<rparr>) = Some (sg2, tb2)
          \<and> sr_saved (sg_srvs sg2 ! i) = Some a2 \<and> a2 \<noteq> a \<and> go_nth (tb_disks tb2) (int a2) = go_nth (tb_disks tb) (int a)
          \<and> (\<forall>e. isServerDead e (ServerName (sg_gid sg) i) b (tb_net tb2)))"
proof -
  obtain sg1 tb1 where 1: "ShutdownServer E i (sg, tb) = Some (sg1, tb1)" "site_ok E (sg1, tb1)" "sg_N sg1 = sg_N sg" "sg_gid sg1 = sg_gid sg"
    "sr_saved (sg_srvs sg1 ! i) = Some (length (tb_disks tb))" "tb_disks tb1 = tb_disks tb @ [tb_disks tb ! a]"
    "nw_servers (tb_net tb1) = (nw_servers (tb_net tb))(ServerName (sg_gid sg) i := None)" "tb_heap tb1 = tb_heap tb"
    "\<forall>j < sg_N sg. \<not> nw_enabled (tb_net tb1) (endName sg i j) \<and> \<not> nw_enabled (tb_net tb1) (endName sg j i)"
    using ShutdownServer_ok [OF ok i a] by blast
  have al: "a < length (tb_disks tb)" and bl: "b < length (tb_heap tb)" using site_okD(4) [OF ok i a] site_okD(5) [OF ok b] .
  have "\<exists>sg2 tb2 a2. StartServer E i (sg1, tb1\<lparr>tb_disks := (tb_disks tb1)[a := ps], tb_world := w\<rparr>) = Some (sg2, tb2)
          \<and> sr_saved (sg_srvs sg2 ! i) = Some a2 \<and> a2 \<noteq> a \<and> go_nth (tb_disks tb2) (int a2) = go_nth (tb_disks tb) (int a)
          \<and> (\<forall>e. isServerDead e (ServerName (sg_gid sg) i) b (tb_net tb2))" for ps w
  proof -
    let ?tb = "tb1\<lparr>tb_disks := (tb_disks tb1)[a := ps], tb_world := w\<rparr>"
    have "site_ok E (sg1, ?tb)" using 1(2) by (simp add: site_ok_def fresh_names_def names_ok_def)
    from StartServer_ok [OF this, of i] obtain sg2 tb2 where 2: "StartServer E i (sg1, ?tb) = Some (sg2, tb2)"
      "sr_saved (sg_srvs sg2 ! i) = Some (length (tb_disks ?tb))" "tb_disks tb2 = tb_disks ?tb @ [disk_of ?tb (sg_srvs sg1 ! i)]"
      "nw_servers (tb_net tb2) = (nw_servers (tb_net tb1))(ServerName (sg_gid sg) i \<mapsto> length (tb_heap tb))"
      using 1(3,4,8) i by auto
    have "disk_of ?tb (sg_srvs sg1 ! i) = tb_disks tb ! a" using 1(5,6) al by (simp add: disk_of_def)
    then have "go_nth (tb_disks tb2) (int (length (tb_disks ?tb))) = go_nth (tb_disks tb) (int a)"
      using 2(3) al go_nth_nat [of "length (tb_disks ?tb)" "tb_disks tb2"] by (simp add: go_nth_nat nth_append)
    moreover have "length (tb_disks ?tb) \<noteq> a" using 1(6) al by simp
    ultimately show ?thesis using 2(1,2,4) bl by (auto simp: isServerDead_def)
  qed
  then show ?thesis using 1(1,7,9) by (auto simp: isServerDead_def)
qed

section \<open>Examples\<close>

text \<open>A group of three servers with explicit names of ends.\<close>

definition ex_srv :: "nat option \<Rightarrow> string list \<Rightarrow> unit tServer" where
  "ex_srv saved names = \<lparr>sr_saved = saved, sr_svcs = [], sr_endNames = names, sr_clntEnds = map (\<lambda>e. \<lparr>ce_endname = e\<rparr>) names\<rparr>"

definition ex_grp :: "unit ServerGrp" where
  "ex_grp = \<lparr>sg_srvs = map (ex_srv None) [[''aa'', ''ab'', ''ac''], [''ba'', ''bb'', ''bc''], [''ca'', ''cb'', ''cc'']],
     sg_servernames = map (ServerName 0) [0..<3], sg_gid = 0, sg_connected = replicate 3 True\<rparr>"

lemma ex_grp_ok: "grp_ok ex_grp"
  by (auto simp: grp_ok_def ex_grp_def ex_srv_def sg_N_def less_Suc_eq numeral_3_eq_3)

theorem Partition_splits_witness:
  "\<exists>sg' rn'. Partition [0, 2] [1] (ex_grp, MakeNetwork) = Some (sg', rn')
     \<and> nw_enabled rn' ''ac'' \<and> nw_enabled rn' ''ca'' \<and> \<not> nw_enabled rn' ''ab'' \<and> \<not> nw_enabled rn' ''ba'' \<and> nw_enabled rn' ''bb''"
proof -
  have N: "sg_N ex_grp = 3" by (simp add: ex_grp_def sg_N_def)
  have nm: "endName ex_grp 0 2 = ''ac''" "endName ex_grp 2 0 = ''ca''" "endName ex_grp 0 1 = ''ab''" "endName ex_grp 1 0 = ''ba''"
    "endName ex_grp 1 1 = ''bb''" by (simp_all add: ex_grp_def ex_srv_def numeral_2_eq_2)
  have p: "set [0, 2] \<union> set [1] = {..<sg_N ex_grp}" "set [0, 2] \<inter> set [1 :: nat] = {}" unfolding N by auto
  from Partition_splits [OF ex_grp_ok p, of MakeNetwork] obtain sg' rn' where
    P: "Partition [0, 2] [1] (ex_grp, MakeNetwork) = Some (sg', rn')"
    "\<And>i j. i < 3 \<Longrightarrow> j < 3 \<Longrightarrow> nw_enabled rn' (endName ex_grp i j) \<longleftrightarrow> (i \<in> set [0, 2] \<longleftrightarrow> j \<in> set [0, 2])"
    unfolding N by blast
  show ?thesis using P(1) P(2) [of 0 2] P(2) [of 2 0] P(2) [of 0 1] P(2) [of 1 0] P(2) [of 1 1] unfolding nm by auto
qed

text \<open>Random strings that differ in their length, and tests whose servers have no services.\<close>

definition ex_tc :: "(unit, unit, unit) tester_code" where
  "ex_tc = \<lparr>tc_rand = (\<lambda>k. replicate k CHR ''a''), tc_mks = (\<lambda>_ _ _ _ w. ([], w)), tc_kill = (\<lambda>_ w. w)\<rparr>"

lemma ex_tc_inj: "inj (tc_rand ex_tc)"
  by (auto simp: ex_tc_def intro!: injI)


text \<open>One running server that has saved something.\<close>

definition ex_bed :: "(unit, unit, nat, unit, unit) testbed" where
  "ex_bed = \<lparr>tb_net = MakeNetwork\<lparr>nw_ends := [''a'' \<mapsto> \<lparr>ce_endname = ''a''\<rparr>], nw_enabled := (\<lambda>e. e = ''a''),
       nw_connections := [''a'' \<mapsto> ServerName 0 0], nw_servers := [ServerName 0 0 \<mapsto> 0]\<rparr>,
     tb_heap = [MakeServer], tb_disks = [\<lparr>ps_raftstate = [7], ps_snapshot = []\<rparr>], tb_world = (), tb_rand = 2\<rparr>"

definition ex_one :: "unit ServerGrp" where
  "ex_one = \<lparr>sg_srvs = [ex_srv (Some 0) [''a'']], sg_servernames = [ServerName 0 0], sg_gid = 0, sg_connected = [True]\<rparr>"

lemma ex_one_ok: "site_ok ex_tc (ex_one, ex_bed)"
proof -
  have "replicate k CHR ''a'' \<noteq> ''a''" if "2 \<le> k" for k using that by (auto dest: arg_cong [of _ _ length])
  then have "fresh_names ex_tc ex_bed" using ex_tc_inj by (simp add: fresh_names_def ex_bed_def ex_tc_def)
  moreover have "\<exists>q < 2. ''a'' = tc_rand ex_tc q" by (intro exI [of _ 1]) (simp add: ex_tc_def)
  ultimately show ?thesis
    by (simp add: site_ok_def ex_one_def sg_N_def names_ok_def ex_srv_def) (simp add: ex_bed_def)
qed

theorem restart_isolated_witness:
  "\<exists>sg1 tb1 sg2 tb2 a2. ShutdownServer ex_tc 0 (ex_one, ex_bed) = Some (sg1, tb1)
     \<and> StartServer ex_tc 0 (sg1, tb1\<lparr>tb_disks := (tb_disks tb1)[0 := MakePersister], tb_world := ()\<rparr>) = Some (sg2, tb2)
     \<and> sr_saved (sg_srvs sg2 ! 0) = Some a2 \<and> a2 \<noteq> 0
     \<and> go_nth (tb_disks tb2) (int a2) = Some \<lparr>ps_raftstate = [7], ps_snapshot = []\<rparr>"
proof -
  have h: "0 < sg_N ex_one" "sr_saved (sg_srvs ex_one ! 0) = Some 0" "nw_servers (tb_net ex_bed) (ServerName (sg_gid ex_one) 0) = Some 0"
    by (simp_all add: ex_one_def sg_N_def ex_srv_def ex_bed_def)
  have d: "go_nth (tb_disks ex_bed) (int 0) = Some \<lparr>ps_raftstate = [7], ps_snapshot = []\<rparr>" by (simp add: ex_bed_def go_nth_def)
  from restart_isolated [OF ex_one_ok h, unfolded d] show ?thesis by blast
qed

end
