(* ===== verification/Fnv.thy ===== *)
theory Fnv
  imports Prelude "HOL-Library.Word"
begin

text \<open>
  The 32-bit FNV-1a hash of \<open>hash/fnv\<close>, which the shard configuration and the map workers use
  to place a key: each byte is xored into the state, which is then multiplied by the FNV prime,
  modulo \<open>2 ^ 32\<close>.
\<close>

unbundle bit_operations_syntax

definition fnv_step :: "32 word \<Rightarrow> char \<Rightarrow> 32 word" where
  "fnv_step h c = (h XOR of_char c) * 16777619"

definition Sum32 :: "string \<Rightarrow> 32 word" where
  "Sum32 bs = foldl fnv_step 2166136261 bs"

end
