(* ===== verification/ShardCfg.thy ===== *)
theory ShardCfg
  imports Fnv "HOL-Library.AList" "HOL-Library.Monad_Syntax"
begin

text \<open>
  Shard configurations (src/src/shardkv1/shardcfg/shardcfg.go): the assignment of twelve shards to
  replica groups, and its rebalancing when groups join or leave.  The map of groups is an
  association list; where the code ranges over a map the list gives one of the possible orders.
  \<open>log.Fatalf\<close> is \<open>None\<close>.
\<close>

section \<open>Data\<close>

definition NShards :: nat where
  "NShards = 12"

definition Key2Shard :: "string \<Rightarrow> int" where
  "Key2Shard key = uint (Sum32 key) mod int NShards"

record ShardConfig =
  Num :: int
  Shards :: "int list"
  Groups :: "(int \<times> string list) list"

definition MakeShardConfig :: ShardConfig where
  "MakeShardConfig = \<lparr>Num = 0, Shards = replicate NShards 0, Groups = []\<rparr>"

definition cfg_Copy :: "ShardConfig \<Rightarrow> ShardConfig" where
  "cfg_Copy cfg = (let c = MakeShardConfig\<lparr>Num := Num cfg, Shards := Shards cfg\<rparr> in
     fold (\<lambda>(k, srvs) c. c\<lparr>Groups := AList.update k srvs (Groups c)\<rparr>) (Groups cfg) c)"

section \<open>Rebalancing\<close>

definition counts :: "ShardConfig \<Rightarrow> int \<Rightarrow> int" where
  "counts c g = int (count_list (Shards c) g)"

fun analyze_loop :: "(int \<Rightarrow> int) \<Rightarrow> int list \<Rightarrow> int \<times> int \<times> int \<times> int \<Rightarrow> int \<times> int \<times> int \<times> int" where
  "analyze_loop cnt [] r = r"
| "analyze_loop cnt (g # gs) (mg, mn, lg, ln) =
     (let (ln, lg) = (if cnt g < ln then (cnt g, g) else (ln, lg));
          (mn, mg) = (if cnt g > mn then (cnt g, g) else (mn, mg))
      in analyze_loop cnt gs (mg, mn, lg, ln))"

text \<open>The most and the least loaded group with their loads.\<close>

definition analyze :: "ShardConfig \<Rightarrow> int \<times> int \<times> int \<times> int" where
  "analyze c = analyze_loop (counts c) (sort (map fst (Groups c))) (-1, -1, -1, 257)"

definition least :: "ShardConfig \<Rightarrow> int" where
  "least c = (case analyze c of (_, _, lg, _) \<Rightarrow> lg)"

definition assign_shard :: "nat \<Rightarrow> ShardConfig \<Rightarrow> ShardConfig" where
  "assign_shard s c = (if map_of (Groups c) (Shards c ! s) = None
     then c\<lparr>Shards := (Shards c)[s := least c]\<rparr> else c)"

fun move_first :: "int \<Rightarrow> int \<Rightarrow> int list \<Rightarrow> int list" where
  "move_first mg lg [] = []"
| "move_first mg lg (g # gs) = (if g = mg then lg # gs else g # move_first mg lg gs)"

text \<open>The last loop; not ending is \<open>None\<close>.\<close>

partial_function (option) balance_loop :: "ShardConfig \<Rightarrow> ShardConfig option" where
  "balance_loop c = (let r = analyze c; mg = fst r; mn = fst (snd r); lg = fst (snd (snd r)); ln = snd (snd (snd r)) in
     if mn < ln + 2 then Some c
     else balance_loop (c\<lparr>Shards := move_first mg lg (Shards c)\<rparr>))"

definition Rebalance :: "ShardConfig \<Rightarrow> ShardConfig option" where
  "Rebalance c = (if length (Groups c) < 1 then Some (c\<lparr>Shards := map (\<lambda>_. 0) (Shards c)\<rparr>)
     else balance_loop (fold assign_shard [0..<length (Shards c)] c))"

section \<open>Joining and leaving\<close>

definition clashes :: "string list \<Rightarrow> (int \<times> string list) list \<Rightarrow> bool" where
  "clashes servers gs = list_ex (\<lambda>(xgid, xservers). list_ex (\<lambda>s1. s1 \<in> set servers) xservers) gs"

fun Join_loop :: "(int \<times> string list) list \<Rightarrow> bool \<Rightarrow> ShardConfig \<Rightarrow> (bool \<times> ShardConfig) option" where
  "Join_loop [] changed cfg =
     (if \<not> changed then None else Some (True, cfg\<lparr>Num := Num cfg + 1\<rparr>))"
| "Join_loop ((gid, srvs) # rest) changed cfg =
     (if map_of (Groups cfg) gid \<noteq> None then Some (False, cfg)
      else if clashes srvs (Groups cfg) then None
      else Join_loop rest True (cfg\<lparr>Groups := AList.update gid srvs (Groups cfg)\<rparr>))"

definition Join :: "(int \<times> string list) list \<Rightarrow> ShardConfig \<Rightarrow> (bool \<times> ShardConfig) option" where
  "Join servers cfg = Join_loop servers False cfg"

fun Leave_loop :: "int list \<Rightarrow> bool \<Rightarrow> ShardConfig \<Rightarrow> (bool \<times> ShardConfig) option" where
  "Leave_loop [] changed cfg =
     (if \<not> changed then None else Some (True, cfg\<lparr>Num := Num cfg + 1\<rparr>))"
| "Leave_loop (gid # rest) changed cfg =
     (if map_of (Groups cfg) gid = None then Some (False, cfg)
      else Leave_loop rest True (cfg\<lparr>Groups := AList.delete gid (Groups cfg)\<rparr>))"

definition Leave :: "int list \<Rightarrow> ShardConfig \<Rightarrow> (bool \<times> ShardConfig) option" where
  "Leave gids cfg = Leave_loop gids False cfg"

definition JoinBalance :: "(int \<times> string list) list \<Rightarrow> ShardConfig \<Rightarrow> (bool \<times> ShardConfig) option" where
  "JoinBalance servers cfg = do {
     (ok, cfg) \<leftarrow> Join servers cfg;
     if \<not> ok then Some (False, cfg)
     else do { cfg \<leftarrow> Rebalance cfg; Some (True, cfg) }
   }"

definition LeaveBalance :: "int list \<Rightarrow> ShardConfig \<Rightarrow> (bool \<times> ShardConfig) option" where
  "LeaveBalance gids cfg = do {
     (ok, cfg) \<leftarrow> Leave gids cfg;
     if \<not> ok then Some (False, cfg)
     else do { cfg \<leftarrow> Rebalance cfg; Some (True, cfg) }
   }"

section \<open>Queries\<close>

definition GidServers :: "nat \<Rightarrow> ShardConfig \<Rightarrow> (int \<times> string list option) option" where
  "GidServers sh cfg = (if sh < length (Shards cfg)
     then Some (Shards cfg ! sh, map_of (Groups cfg) (Shards cfg ! sh)) else None)"

definition IsMember :: "int \<Rightarrow> ShardConfig \<Rightarrow> bool" where
  "IsMember gid cfg = list_ex (\<lambda>g. g = gid) (Shards cfg)"

text \<open>\<open>CheckConfig\<close> succeeds, that is none of its checks calls \<open>fatalf\<close>.\<close>

definition CheckConfig :: "int list \<Rightarrow> ShardConfig \<Rightarrow> bool" where
  "CheckConfig gs cfg =
     (length (Groups cfg) = length gs
      \<and> list_all (\<lambda>g. map_of (Groups cfg) g \<noteq> None) gs
      \<and> (length gs > 0 \<longrightarrow> list_all (\<lambda>g. map_of (Groups cfg) g \<noteq> None) (Shards cfg))
      \<and> (let mx = fold (\<lambda>(g, _) m. if counts cfg g > m then counts cfg g else m) (Groups cfg) 0;
             mi = fold (\<lambda>(g, _) m. if counts cfg g < m then counts cfg g else m) (Groups cfg) 257
         in mx \<le> mi + 1))"

section \<open>Where keys go\<close>



section \<open>The most and the least loaded group\<close>

lemma analyze_loop_spec:
  assumes "analyze_loop cnt gs (mg, mn, lg, ln) = (mg', mn', lg', ln')"
  shows "mn \<le> mn' \<and> ln' \<le> ln \<and> (\<forall>g \<in> set gs. cnt g \<le> mn' \<and> ln' \<le> cnt g)
     \<and> (mg' = mg \<and> mn' = mn \<or> mg' \<in> set gs \<and> cnt mg' = mn')
     \<and> (lg' = lg \<and> ln' = ln \<or> lg' \<in> set gs \<and> cnt lg' = ln')"
  using assms
proof (induction gs arbitrary: mg mn lg ln)
  case (Cons g gs)
  let ?ln = "if cnt g < ln then cnt g else ln" and ?lg = "if cnt g < ln then g else lg"
  let ?mn = "if cnt g > mn then cnt g else mn" and ?mg = "if cnt g > mn then g else mg"
  have "analyze_loop cnt gs (?mg, ?mn, ?lg, ?ln) = (mg', mn', lg', ln')"
    using Cons.prems by (simp split: if_splits)
  from Cons.IH [OF this] show ?case by (auto split: if_splits)
qed simp

lemma counts_bounds: "0 \<le> counts c g" "counts c g \<le> int (length (Shards c))"
  using count_le_length [of "Shards c" g] by (simp_all add: counts_def)

lemma analyze_spec:
  assumes "Groups c \<noteq> []" "length (Shards c) = NShards" "analyze c = (mg, mn, lg, ln)"
  shows "mg \<in> fst ` set (Groups c)" "lg \<in> fst ` set (Groups c)" "counts c mg = mn" "counts c lg = ln"
    "\<And>g. g \<in> fst ` set (Groups c) \<Longrightarrow> ln \<le> counts c g \<and> counts c g \<le> mn"
proof -
  let ?gs = "sort (map fst (Groups c))"
  have sp: "(\<forall>g \<in> set ?gs. counts c g \<le> mn \<and> ln \<le> counts c g)
      \<and> (mg = -1 \<and> mn = -1 \<or> mg \<in> set ?gs \<and> counts c mg = mn)
      \<and> (lg = -1 \<and> ln = 257 \<or> lg \<in> set ?gs \<and> counts c lg = ln)"
    using analyze_loop_spec [OF assms(3) [unfolded analyze_def]] by simp
  obtain g where "g \<in> set ?gs" using assms(1) by (metis list.set_intros(1) list.simps(9) neq_Nil_conv set_sort)
  moreover have "0 \<le> counts c g" "counts c g \<le> 12"
    using counts_bounds [where g = g and c = c] assms(2) by (auto simp: NShards_def)
  ultimately have "mn \<noteq> -1" "ln \<noteq> 257" using sp by force+
  then show "mg \<in> fst ` set (Groups c)" "lg \<in> fst ` set (Groups c)" "counts c mg = mn" "counts c lg = ln"
    using sp by auto
  show "ln \<le> counts c g \<and> counts c g \<le> mn" if "g \<in> fst ` set (Groups c)" for g using sp that by auto
qed

section \<open>Moving a shard\<close>

lemma move_first_length [simp]: "length (move_first mg lg gs) = length gs"
  by (induction gs) auto

lemma set_move_first: "set (move_first mg lg gs) \<subseteq> insert lg (set gs)"
  by (induction gs) auto

lemma count_move_first:
  "mg \<in> set gs \<Longrightarrow> mg \<noteq> lg \<Longrightarrow> count_list (move_first mg lg gs) g
     = (if g = mg then count_list gs g - 1 else if g = lg then count_list gs g + 1 else count_list gs g)"
proof (induction gs)
  case (Cons x gs)
  then show ?case using count_notin [of x gs] by (cases "x = mg") (auto simp: count_list_0_iff Suc_diff_le Suc_le_eq neq0_conv)
qed simp

text \<open>The number of pairs of shards on one group: every move of the last loop decreases it.\<close>

definition crowd :: "int list \<Rightarrow> nat" where
  "crowd gs = (\<Sum>g \<in> set gs. count_list gs g * count_list gs g)"

lemma crowd_superset: "finite G \<Longrightarrow> set gs \<subseteq> G \<Longrightarrow> crowd gs = (\<Sum>g \<in> G. count_list gs g * count_list gs g)"
  unfolding crowd_def by (rule sum.mono_neutral_left) auto

lemma crowd_move_first:
  assumes "mg \<in> set gs" "count_list gs lg + 2 \<le> count_list gs mg"
  shows "crowd (move_first mg lg gs) < crowd gs"
proof -
  have ne: "mg \<noteq> lg" using assms(2) by auto
  let ?G = "insert lg (set gs)" and ?f = "\<lambda>g. count_list gs g * count_list gs g"
  let ?f' = "\<lambda>g. count_list (move_first mg lg gs) g * count_list (move_first mg lg gs) g"
  let ?R = "?G - {mg, lg}"
  have split: "(\<Sum>g \<in> ?G. h g) = h mg + h lg + (\<Sum>g \<in> ?R. h g)" for h :: "int \<Rightarrow> nat"
  proof -
    have "?G = insert mg (insert lg ?R)" using assms(1) by auto
    then have "(\<Sum>g \<in> ?G. h g) = (\<Sum>g \<in> insert mg (insert lg ?R). h g)" by simp
    then show ?thesis using ne by simp
  qed
  obtain k where k: "count_list gs mg = count_list gs lg + 2 + k" using assms(2) nat_le_iff_add by auto
  have "?f' mg + ?f' lg < ?f mg + ?f lg"
    using ne k by (simp add: count_move_first [OF assms(1)] algebra_simps)
  moreover have "(\<Sum>g \<in> ?R. ?f' g) = (\<Sum>g \<in> ?R. ?f g)"
    by (rule sum.cong) (auto simp: count_move_first [OF assms(1) ne])
  ultimately have "(\<Sum>g \<in> ?G. ?f' g) < (\<Sum>g \<in> ?G. ?f g)" by (simp only: split)
  moreover have "crowd gs = (\<Sum>g \<in> ?G. ?f g)" by (rule crowd_superset) auto
  moreover have "crowd (move_first mg lg gs) = (\<Sum>g \<in> ?G. ?f' g)" using set_move_first by (intro crowd_superset) auto
  ultimately show ?thesis by simp
qed

section \<open>Rebalance\<close>

lemma assign_shard_simps [simp]:
  "Groups (assign_shard s c) = Groups c" "Num (assign_shard s c) = Num c"
  "length (Shards (assign_shard s c)) = length (Shards c)"
  by (simp_all add: assign_shard_def)

lemma assign_all_simps [simp]:
  "Groups (fold assign_shard ss c) = Groups c" "Num (fold assign_shard ss c) = Num c"
  "length (Shards (fold assign_shard ss c)) = length (Shards c)"
  by (induction ss arbitrary: c) simp_all

lemma least_in: "Groups c \<noteq> [] \<Longrightarrow> length (Shards c) = NShards \<Longrightarrow> least c \<in> fst ` set (Groups c)"
  using analyze_spec(2) [of c] by (auto simp: least_def split: prod.splits)

lemma assign_all_assigned:
  assumes "Groups c \<noteq> []" "length (Shards c) = NShards" "k \<le> NShards" "s < k"
  shows "Shards (fold assign_shard [0..<k] c) ! s \<in> fst ` set (Groups c)"
  using assms(3,4)
proof (induction k)
  case (Suc k)
  let ?c = "fold assign_shard [0..<k] c"
  have "least ?c \<in> fst ` set (Groups c)" using least_in [of ?c] assms(1,2) by simp
  then have "Shards (assign_shard k ?c) ! k \<in> fst ` set (Groups c)"
    using Suc.prems(1) assms(2) by (auto simp: assign_shard_def map_of_eq_None_iff)
  moreover have "Shards (assign_shard k ?c) ! s = Shards ?c ! s" if "s \<noteq> k"
    using that by (simp add: assign_shard_def)
  ultimately show ?case using Suc by (cases "s = k") auto
qed simp

definition assigned :: "ShardConfig \<Rightarrow> bool" where
  "assigned c \<longleftrightarrow> Groups c \<noteq> [] \<and> length (Shards c) = NShards \<and> set (Shards c) \<subseteq> fst ` set (Groups c)"

definition balanced :: "ShardConfig \<Rightarrow> bool" where
  "balanced c \<longleftrightarrow> (\<forall>g \<in> fst ` set (Groups c). \<forall>h \<in> fst ` set (Groups c). counts c g \<le> counts c h + 1)"

lemma balance_loop_ok:
  assumes "assigned c"
  shows "\<exists>c'. balance_loop c = Some c' \<and> assigned c' \<and> balanced c' \<and> Groups c' = Groups c \<and> Num c' = Num c"
  using assms
proof (induction "crowd (Shards c)" arbitrary: c rule: less_induct)
  case less
  obtain mg mn lg ln where a: "analyze c = (mg, mn, lg, ln)" by (cases "analyze c")
  have sp: "mg \<in> fst ` set (Groups c)" "lg \<in> fst ` set (Groups c)" "counts c mg = mn" "counts c lg = ln"
    "\<And>g. g \<in> fst ` set (Groups c) \<Longrightarrow> ln \<le> counts c g \<and> counts c g \<le> mn"
    using analyze_spec [OF _ _ a] less.prems by (auto simp: assigned_def)
  show ?case
  proof (cases "mn < ln + 2")
    case True
    have "counts c g \<le> counts c h + 1" if "g \<in> fst ` set (Groups c)" "h \<in> fst ` set (Groups c)" for g h
      using sp(5) [OF that(1)] sp(5) [OF that(2)] True by linarith
    then have "balanced c" by (simp add: balanced_def)
    then show ?thesis using True a less.prems by (simp add: balance_loop.simps)
  next
    case False
    let ?c = "c\<lparr>Shards := move_first mg lg (Shards c)\<rparr>"
    have mv: "count_list (Shards c) lg + 2 \<le> count_list (Shards c) mg"
      using False sp(3,4) by (simp add: counts_def)
    then have "mg \<in> set (Shards c)" using count_notin [of mg "Shards c"] by fastforce
    then have "crowd (Shards ?c) < crowd (Shards c)" using crowd_move_first mv by simp
    moreover have "assigned ?c"
      using less.prems sp(2) set_move_first [of mg lg "Shards c"] by (auto simp: assigned_def)
    ultimately have "\<exists>c'. balance_loop ?c = Some c' \<and> assigned c' \<and> balanced c'
        \<and> Groups c' = Groups ?c \<and> Num c' = Num ?c" by (rule less.hyps)
    then show ?thesis using False a by (simp add: balance_loop.simps [of c])
  qed
qed

lemma Rebalance_result:
  assumes "length (Shards c) = NShards"
  shows "\<exists>c'. Rebalance c = Some c' \<and> length (Shards c') = NShards \<and> Groups c' = Groups c \<and> Num c' = Num c
     \<and> balanced c' \<and> (if Groups c = [] then set (Shards c') = {0} else set (Shards c') \<subseteq> fst ` set (Groups c))"
proof (cases "Groups c = []")
  case True
  have "set (map (\<lambda>_. 0) (Shards c)) = {0::int}" using assms by (cases "Shards c") (auto simp: NShards_def)
  then show ?thesis using True assms by (simp add: Rebalance_def balanced_def)
next
  case False
  let ?c = "fold assign_shard [0..<length (Shards c)] c"
  have "set (Shards ?c) \<subseteq> fst ` set (Groups c)"
    using assign_all_assigned [OF False assms order_refl] assms by (auto simp: set_conv_nth)
  then have "assigned ?c" using False assms by (simp add: assigned_def)
  from balance_loop_ok [OF this] show ?thesis using False by (auto simp: Rebalance_def assigned_def Suc_le_eq)
qed

lemma fold_pick_cases:
  "fold (\<lambda>(g, _) m. if P (f g) m then f g else m) gs a = a
    \<or> (\<exists>g \<in> fst ` set gs. fold (\<lambda>(g, _) m. if P (f g) m then f g else m) gs a = f g)"
proof (induction gs arbitrary: a)
  case (Cons x gs)
  then show ?case using Cons.IH [of "if P (f (fst x)) a then f (fst x) else a"] by (cases x) (auto split: if_splits)
qed simp

lemma CheckConfig_balanced:
  assumes "length (Shards c) = NShards" "balanced c" "Groups c \<noteq> [] \<Longrightarrow> set (Shards c) \<subseteq> fst ` set (Groups c)"
  shows "CheckConfig (map fst (Groups c)) c"
proof -
  have b: "0 \<le> counts c g \<and> counts c g \<le> 12" for g using counts_bounds [of c g] counts_bounds(2) [of c g] assms(1) by (simp add: NShards_def)
  have bal: "counts c g \<le> counts c h + 1" if "g \<in> fst ` set (Groups c)" "h \<in> fst ` set (Groups c)" for g h
    using assms(2) that unfolding balanced_def by blast
  have "fold (\<lambda>(g, _) m. if counts c g > m then counts c g else m) (Groups c) 0
      \<le> fold (\<lambda>(g, _) m. if counts c g < m then counts c g else m) (Groups c) 257 + 1" (is "?mx \<le> ?mi + 1")
    using fold_pick_cases [of "\<lambda>x m. x > m" "counts c" "Groups c" 0] fold_pick_cases [of "\<lambda>x m. x < m" "counts c" "Groups c" 257]
  proof (elim disjE bexE)
    fix g h assume "g \<in> fst ` set (Groups c)" "h \<in> fst ` set (Groups c)" "?mx = counts c g" "?mi = counts c h"
    then show ?thesis using bal by simp
  next
    fix g assume "?mx = counts c g" "?mi = 257"
    then show ?thesis using b [of g] by simp
  next
    fix h assume "?mx = 0" "?mi = counts c h"
    then show ?thesis using b [of h] by simp
  qed simp
  moreover have "list_all (\<lambda>g. map_of (Groups c) g \<noteq> None) (Shards c)" if "Groups c \<noteq> []"
    using assms(3) [OF that] by (auto simp: list_all_iff map_of_eq_None_iff)
  ultimately show ?thesis by (auto simp: CheckConfig_def Let_def list_all_iff map_of_eq_None_iff)
qed

text \<open>
  C24: rebalancing ends and balances.  From any assignment of the twelve shards \<open>Rebalance\<close>
  terminates, changes neither the groups nor the number, leaves every shard on one of the groups
  (on group 0 when there is none) and any two groups at most one shard apart, so that
  \<open>CheckConfig\<close> accepts the configuration.
\<close>

theorem Rebalance_balances:
  assumes "length (Shards c) = NShards"
  shows "\<exists>c'. Rebalance c = Some c' \<and> length (Shards c') = NShards \<and> Groups c' = Groups c \<and> Num c' = Num c
     \<and> (if Groups c = [] then set (Shards c') = {0}
        else set (Shards c') \<subseteq> fst ` set (Groups c)
          \<and> (\<forall>g \<in> fst ` set (Groups c). \<forall>h \<in> fst ` set (Groups c). counts c' g \<le> counts c' h + 1))
     \<and> CheckConfig (map fst (Groups c)) c'"
proof -
  obtain c' where c: "Rebalance c = Some c'" "length (Shards c') = NShards" "Groups c' = Groups c" "Num c' = Num c"
      "balanced c'" "if Groups c = [] then set (Shards c') = {0} else set (Shards c') \<subseteq> fst ` set (Groups c)"
    using Rebalance_result [OF assms] by blast
  have "CheckConfig (map fst (Groups c')) c'" by (rule CheckConfig_balanced) (use c in \<open>auto split: if_splits\<close>)
  then show ?thesis using c by (auto simp: balanced_def)
qed

definition ex_cfg :: ShardConfig where
  "ex_cfg = \<lparr>Num = 1, Shards = replicate 12 7, Groups = [(7, [''a'']), (3, [''b'']), (5, [''c''])]\<rparr>"

theorem Rebalance_balances_witness:
  "\<exists>c'. Rebalance ex_cfg = Some c' \<and> CheckConfig [7, 3, 5] c' \<and> set (Shards c') \<subseteq> {7, 3, 5}"
proof -
  have "length (Shards ex_cfg) = NShards" by (simp add: ex_cfg_def NShards_def)
  from Rebalance_balances [OF this] show ?thesis by (auto simp: ex_cfg_def split: if_splits)
qed

section \<open>Join and Leave\<close>

definition cfg_wf :: "ShardConfig \<Rightarrow> bool" where
  "cfg_wf c \<longleftrightarrow> length (Shards c) = NShards \<and> distinct (map fst (Groups c))"

lemma Join_loop_result:
  assumes "Join_loop servers changed c = Some (ok, c')" "cfg_wf c"
  shows "cfg_wf c' \<and> Shards c' = Shards c
    \<and> (ok \<longrightarrow> Num c' = Num c + 1 \<and> fst ` set (Groups c') = fst ` set (Groups c) \<union> fst ` set servers)"
  using assms
proof (induction servers arbitrary: changed c)
  case (Cons x rest)
  obtain gid srvs where x: "x = (gid, srvs)" by (cases x)
  let ?c = "c\<lparr>Groups := AList.update gid srvs (Groups c)\<rparr>"
  show ?case
  proof (cases "map_of (Groups c) gid = None")
    case True
    have "cfg_wf ?c" using Cons.prems(2) by (simp add: cfg_wf_def distinct_update)
    moreover have "Join_loop rest True ?c = Some (ok, c')" using Cons.prems(1) True x by (simp split: if_splits)
    ultimately show ?thesis using Cons.IH [of True ?c] x by (auto simp: dom_update)
  qed (use Cons.prems x in auto)
qed (auto simp: cfg_wf_def split: if_splits)

lemma Leave_loop_result:
  assumes "Leave_loop gids changed c = Some (ok, c')" "cfg_wf c"
  shows "cfg_wf c' \<and> Shards c' = Shards c
    \<and> (if ok then Num c' = Num c + 1 \<and> Groups c' = filter (\<lambda>x. fst x \<notin> set gids) (Groups c)
        \<and> set gids \<subseteq> fst ` set (Groups c)
       else Num c' = Num c \<and> (\<exists>gs g rest. gids = gs @ g # rest \<and> Groups c' = filter (\<lambda>x. fst x \<notin> set gs) (Groups c)
              \<and> g \<notin> fst ` set (Groups c')))"
  using assms
proof (induction gids arbitrary: changed c)
  case (Cons gid rest)
  let ?c = "c\<lparr>Groups := AList.delete gid (Groups c)\<rparr>"
  have del: "AList.delete gid (Groups c) = filter (\<lambda>x. fst x \<noteq> gid) (Groups c)"
    by (auto simp: AList.delete_eq intro!: filter_cong)
  show ?case
  proof (cases "map_of (Groups c) gid = None")
    case True
    then have "ok = False" "c' = c" "gid \<notin> fst ` set (Groups c)"
      using Cons.prems by (auto simp: map_of_eq_None_iff)
    moreover have "\<exists>gs g rs. gid # rest = gs @ g # rs \<and> Groups c = filter (\<lambda>x. fst x \<notin> set gs) (Groups c)
        \<and> g \<notin> fst ` set (Groups c)"
      using calculation(3) by (intro exI [of _ "[]"]) auto
    ultimately show ?thesis using Cons.prems(2) by simp
  next
    case False
    have wf: "cfg_wf ?c" using Cons.prems(2) by (simp add: cfg_wf_def distinct_delete)
    have L: "Leave_loop rest True ?c = Some (ok, c')" using Cons.prems(1) False by simp
    note IH = Cons.IH [OF L wf]
    have g: "gid \<in> fst ` set (Groups c)" using False by (simp add: map_of_eq_None_iff)
    show ?thesis
    proof (cases ok)
      case True
      then show ?thesis using IH g by (auto simp: del)
    next
      case False
      then obtain gs g rs where "rest = gs @ g # rs" "Groups c' = filter (\<lambda>x. fst x \<notin> set gs) (AList.delete gid (Groups c))"
          "g \<notin> fst ` set (Groups c')" using IH by auto
      then have "gid # rest = (gid # gs) @ g # rs \<and> Groups c' = filter (\<lambda>x. fst x \<notin> set (gid # gs)) (Groups c)
          \<and> g \<notin> fst ` set (Groups c')" by (simp add: del)
      then have "\<exists>gs g rs. gid # rest = gs @ g # rs \<and> Groups c' = filter (\<lambda>x. fst x \<notin> set gs) (Groups c)
          \<and> g \<notin> fst ` set (Groups c')" by blast
      then show ?thesis using IH False by simp
    qed
  qed
qed (auto simp: cfg_wf_def split: if_splits)

lemma Rebalance_check:
  assumes "Rebalance c = Some c'" "cfg_wf c"
  shows "cfg_wf c' \<and> Num c' = Num c \<and> Groups c' = Groups c \<and> CheckConfig (map fst (Groups c)) c'"
proof -
  have "length (Shards c) = NShards" using assms(2) by (simp add: cfg_wf_def)
  from Rebalance_result [OF this] assms(1)
  have c: "length (Shards c') = NShards" "Groups c' = Groups c" "Num c' = Num c" "balanced c'"
      "if Groups c = [] then set (Shards c') = {0} else set (Shards c') \<subseteq> fst ` set (Groups c)" by auto
  have "CheckConfig (map fst (Groups c')) c'" by (rule CheckConfig_balanced) (use c in \<open>auto split: if_splits\<close>)
  then show ?thesis using c assms(2) by (simp add: cfg_wf_def)
qed

text \<open>
  C38: joining and leaving.  When they succeed, the configuration has the next number, exactly the
  groups asked for, and passes \<open>CheckConfig\<close>.  A \<open>Leave\<close> that is refused because of an unknown
  group keeps number and shards but has already removed the groups named before it.
\<close>

theorem JoinLeave_balance:
  assumes "cfg_wf c"
  shows "(\<forall>c1. JoinBalance servers c = Some (True, c1) \<longrightarrow> cfg_wf c1 \<and> Num c1 = Num c + 1
       \<and> fst ` set (Groups c1) = fst ` set (Groups c) \<union> fst ` set servers \<and> CheckConfig (map fst (Groups c1)) c1)
   \<and> (\<forall>c2. LeaveBalance gids c = Some (True, c2) \<longrightarrow> cfg_wf c2 \<and> Num c2 = Num c + 1
       \<and> Groups c2 = filter (\<lambda>x. fst x \<notin> set gids) (Groups c) \<and> CheckConfig (map fst (Groups c2)) c2)
   \<and> (\<forall>c3. LeaveBalance gids c = Some (False, c3) \<longrightarrow> Num c3 = Num c \<and> Shards c3 = Shards c
       \<and> (\<exists>gs g rest. gids = gs @ g # rest \<and> g \<notin> fst ` set (Groups c3)
           \<and> Groups c3 = filter (\<lambda>x. fst x \<notin> set gs) (Groups c)))"
proof -
  have j: "cfg_wf c1 \<and> Num c1 = Num c + 1 \<and> fst ` set (Groups c1) = fst ` set (Groups c) \<union> fst ` set servers
      \<and> CheckConfig (map fst (Groups c1)) c1" if a: "JoinBalance servers c = Some (True, c1)" for c1
  proof -
    obtain d where d: "Join servers c = Some (True, d)" "Rebalance d = Some c1"
      using a by (auto simp: JoinBalance_def split: Option.bind_splits if_splits)
    then show ?thesis using Join_loop_result [OF d(1) [unfolded Join_def] assms] Rebalance_check [OF d(2)] by simp
  qed
  have l: "cfg_wf c2 \<and> Num c2 = Num c + 1 \<and> Groups c2 = filter (\<lambda>x. fst x \<notin> set gids) (Groups c)
      \<and> CheckConfig (map fst (Groups c2)) c2" if a: "LeaveBalance gids c = Some (True, c2)" for c2
  proof -
    obtain d where d: "Leave gids c = Some (True, d)" "Rebalance d = Some c2"
      using a by (auto simp: LeaveBalance_def split: Option.bind_splits if_splits)
    then show ?thesis using Leave_loop_result [OF d(1) [unfolded Leave_def] assms] Rebalance_check [OF d(2)] by simp
  qed
  have r: "Num c3 = Num c \<and> Shards c3 = Shards c \<and> (\<exists>gs g rest. gids = gs @ g # rest
      \<and> g \<notin> fst ` set (Groups c3) \<and> Groups c3 = filter (\<lambda>x. fst x \<notin> set gs) (Groups c))"
    if "LeaveBalance gids c = Some (False, c3)" for c3
  proof -
    have "Leave_loop gids False c = Some (False, c3)"
      using that by (auto simp: LeaveBalance_def Leave_def split: Option.bind_splits if_splits)
    from Leave_loop_result [OF this assms] show ?thesis by auto
  qed
  show ?thesis by (rule conjI [OF allI [OF impI [OF j]] conjI [OF allI [OF impI [OF l]] allI [OF impI [OF r]]]])
qed

theorem JoinLeave_balance_witness:
  "\<exists>c3. LeaveBalance [3, 9] ex_cfg = Some (False, c3) \<and> Num c3 = 1 \<and> map fst (Groups c3) = [7, 5]"
proof -
  have wf: "cfg_wf ex_cfg" by (simp add: cfg_wf_def ex_cfg_def NShards_def)
  let ?c = "ex_cfg\<lparr>Groups := [(7, [''a'']), (5, [''c''])]\<rparr>"
  have L: "LeaveBalance [3, 9] ex_cfg = Some (False, ?c)"
    by (simp add: LeaveBalance_def Leave_def ex_cfg_def)
  moreover from this have "Num ?c = Num ex_cfg" using JoinLeave_balance [OF wf, of _ "[3, 9]"] by blast
  ultimately show ?thesis by (simp add: ex_cfg_def)
qed

end
