(* ===== verification/MRCoordinator.thy ===== *)
theory MRCoordinator
  imports GoStrings "HOL-Library.Multiset" "HOL-Library.Monad_Syntax"
begin

text \<open>
  The MapReduce coordinator (src/src/mr/coordinator.go, common.go, rpc.go).  Tasks are objects of
  the two task lists, indexed by their ids; the channels carry pointers to them, here the ids.
  Handlers hold the lock.  A nil dereference and a send on a full channel, which would block for
  ever with the lock held, are \<open>None\<close>.  The timers started by \<open>GetTask\<close> are part of the system
  state, so that a timer may fire at any time after it was started.
\<close>

section \<open>File names\<close>

definition interFile :: "nat \<Rightarrow> nat \<Rightarrow> string" where
  "interFile m r = ''mr-'' @ Itoa m @ ''-'' @ Itoa r"

section \<open>Data\<close>

datatype WorkerStatus = Idle | InProcess | Completed | Error

datatype WorkerType = NoTask | MapTask | ReduceTask

record WorkerDetail =
  wd_Id :: nat
  wd_Status :: WorkerStatus
  wd_Type :: WorkerType
  wd_FileName :: string
  wd_FileNames :: "string list"
  wd_NReduce :: nat

definition IsCompleted :: "WorkerDetail \<Rightarrow> bool" where
  "IsCompleted wd = (wd_Status wd = Completed)"

definition IsInProcess :: "WorkerDetail \<Rightarrow> bool" where
  "IsInProcess wd = (wd_Status wd = InProcess)"

definition ChangeStatusToCompleted :: "WorkerDetail \<Rightarrow> WorkerDetail" where
  "ChangeStatusToCompleted wd = wd\<lparr>wd_Status := Completed\<rparr>"

definition ChangeStatusToIdle :: "WorkerDetail \<Rightarrow> WorkerDetail" where
  "ChangeStatusToIdle wd = wd\<lparr>wd_Status := Idle\<rparr>"

definition ChangeStatusToInProcess :: "WorkerDetail \<Rightarrow> WorkerDetail" where
  "ChangeStatusToInProcess wd = wd\<lparr>wd_Status := InProcess\<rparr>"

record Args =
  args_Task :: WorkerDetail
  args_IntermidiateFiles :: "string list"
  args_OutPutFileName :: string

record Reply =
  reply_Task :: WorkerDetail
  reply_IsFinished :: bool

definition noDetail :: WorkerDetail where
  "noDetail = \<lparr>wd_Id = 0, wd_Status = Idle, wd_Type = NoTask, wd_FileName = '''', wd_FileNames = [],
     wd_NReduce = 0\<rparr>"

definition noReply :: Reply where
  "noReply = \<lparr>reply_Task = noDetail, reply_IsFinished = False\<rparr>"

record Coordinator =
  mapsTaskList :: "WorkerDetail list"
  reduceTaskList :: "WorkerDetail list"
  reduceChan :: "nat list"
  mapChan :: "nat list"
  isAllMapWorkerFinished :: bool
  interFiles :: "nat \<Rightarrow> string list"

section \<open>Handlers\<close>

definition mapCap :: nat where
  "mapCap = 10000"

definition send :: "nat \<Rightarrow> 'a \<Rightarrow> 'a list \<Rightarrow> 'a list option" where
  "send cap x ch = (if length ch < cap then Some (ch @ [x]) else None)"

definition allTasksDone :: "Coordinator \<Rightarrow> bool" where
  "allTasksDone c = (list_all IsCompleted (mapsTaskList c) \<and> list_all IsCompleted (reduceTaskList c))"

text \<open>The reply, the new state, and the timer that is started.\<close>

definition GetTask :: "Coordinator \<Rightarrow> (Reply \<times> Coordinator \<times> (WorkerType \<times> nat) option) option" where
  "GetTask c =
     (if allTasksDone c then Some (noReply\<lparr>reply_IsFinished := True\<rparr>, c, None)
      else if \<not> isAllMapWorkerFinished c then
        (case mapChan c of
           [] \<Rightarrow> Some (noReply, c, None)
         | i # ch \<Rightarrow>
             if i < length (mapsTaskList c)
             then let task = ChangeStatusToInProcess (mapsTaskList c ! i) in
               Some (noReply\<lparr>reply_Task := task\<rparr>,
                     c\<lparr>mapChan := ch, mapsTaskList := (mapsTaskList c)[i := task]\<rparr>,
                     Some (wd_Type task, wd_Id task))
             else None)
      else
        (case reduceChan c of
           [] \<Rightarrow> Some (noReply, c, None)
         | i # ch \<Rightarrow>
             if i < length (reduceTaskList c)
             then let task = ChangeStatusToInProcess (reduceTaskList c ! i);
                      task = task\<lparr>wd_FileNames := interFiles c (wd_Id task)\<rparr> in
               Some (noReply\<lparr>reply_Task := task\<rparr>,
                     c\<lparr>reduceChan := ch, reduceTaskList := (reduceTaskList c)[i := task]\<rparr>,
                     Some (wd_Type task, wd_Id task))
             else None))"

fun add_files :: "string list \<Rightarrow> (nat \<Rightarrow> string list) \<Rightarrow> (nat \<Rightarrow> string list) option" where
  "add_files [] m = Some m"
| "add_files (filename # rest) m = do {
     let split = Split (CHR ''-'') filename;
     if length split < 3 then None
     else do {
       let reduceId = Atoi (split ! 2);
       add_files rest (m(reduceId := m reduceId @ [filename]))
     }
   }"

definition FinishedTask :: "Args \<Rightarrow> Coordinator \<Rightarrow> Coordinator option" where
  "FinishedTask args c =
     (let i = wd_Id (args_Task args); isMap = (wd_Type (args_Task args) = MapTask);
          tasks = (if isMap then mapsTaskList c else reduceTaskList c) in
      if \<not> i < length tasks then None
      else let task = tasks ! i in
        if IsInProcess task then do {
          let task = ChangeStatusToCompleted task;
          let c = (if isMap then c\<lparr>mapsTaskList := tasks[i := task]\<rparr> else c\<lparr>reduceTaskList := tasks[i := task]\<rparr>);
          if wd_Type task = MapTask then do {
            files \<leftarrow> add_files (args_IntermidiateFiles args) (interFiles c);
            Some (c\<lparr>interFiles := files\<rparr>)
          } else Some c
        } else Some c)"

text \<open>What a timer does when it fires; the capacity of the reduce channel is the number of reducers.\<close>

definition CheckFinished :: "nat \<Rightarrow> WorkerType \<Rightarrow> Coordinator \<Rightarrow> Coordinator option" where
  "CheckFinished taskId taskType c =
     (if taskType = MapTask then
        (if \<not> taskId < length (mapsTaskList c) then None
         else let t = mapsTaskList c ! taskId in
           if IsCompleted t then Some c
           else do {
             ch \<leftarrow> send mapCap taskId (mapChan c);
             Some (c\<lparr>mapsTaskList := (mapsTaskList c)[taskId := ChangeStatusToIdle t], mapChan := ch\<rparr>)
           })
      else
        (if \<not> taskId < length (reduceTaskList c) then None
         else let t = reduceTaskList c ! taskId in
           if IsCompleted t then Some c
           else do {
             ch \<leftarrow> send (length (reduceTaskList c)) taskId (reduceChan c);
             Some (c\<lparr>reduceTaskList := (reduceTaskList c)[taskId := ChangeStatusToIdle t], reduceChan := ch\<rparr>)
           }))"

definition Done :: "Coordinator \<Rightarrow> bool \<times> Coordinator" where
  "Done c = (let mapAllFinished = list_all IsCompleted (mapsTaskList c);
                 c = c\<lparr>isAllMapWorkerFinished := mapAllFinished\<rparr>
             in if \<not> mapAllFinished then (False, c) else (list_all IsCompleted (reduceTaskList c), c))"

definition mapTask :: "nat \<Rightarrow> nat \<Rightarrow> string \<Rightarrow> WorkerDetail" where
  "mapTask nReduce i file = \<lparr>wd_Id = i, wd_Status = Idle, wd_Type = MapTask, wd_FileName = file,
     wd_FileNames = [], wd_NReduce = nReduce\<rparr>"

definition reduceTask :: "nat \<Rightarrow> nat \<Rightarrow> WorkerDetail" where
  "reduceTask nReduce i = \<lparr>wd_Id = i, wd_Status = Idle, wd_Type = ReduceTask, wd_FileName = '''',
     wd_FileNames = [], wd_NReduce = nReduce\<rparr>"

text \<open>With more input files than the channel holds, the first loop blocks.\<close>

definition MakeCoordinator :: "string list \<Rightarrow> nat \<Rightarrow> Coordinator option" where
  "MakeCoordinator files nReduce =
     (if length files > mapCap then None
      else Some \<lparr>mapsTaskList = map2 (mapTask nReduce) [0..<length files] files,
                 reduceTaskList = map (reduceTask nReduce) [0..<nReduce],
                 reduceChan = [0..<nReduce], mapChan = [0..<length files],
                 isAllMapWorkerFinished = False, interFiles = (\<lambda>_. [])\<rparr>)"

section \<open>Reading a file name back\<close>

lemma Split_interFile: "Split (CHR ''-'') (interFile m r) = [''mr'', Itoa m, Itoa r]"
proof -
  have "interFile m r = ''mr'' @ CHR ''-'' # Itoa m @ CHR ''-'' # Itoa r" by (simp add: interFile_def)
  moreover have "Split (CHR ''-'') (Itoa m @ CHR ''-'' # Itoa r) = [Itoa m, Itoa r]"
    by (simp only: Split_append [OF Itoa_no_sep] Split_word [OF Itoa_no_sep])
  ultimately show ?thesis by (simp add: Split_append [of "CHR ''-''" "''mr''"])
qed

lemma interFile_inj: "interFile m r = interFile m' r' \<longleftrightarrow> m = m' \<and> r = r'"
proof
  assume "interFile m r = interFile m' r'"
  then have "[''mr'', Itoa m, Itoa r] = [''mr'', Itoa m', Itoa r']" by (metis Split_interFile)
  then show "m = m' \<and> r = r'" by (simp add: Itoa_inj)
qed simp

text \<open>
  The coordinator recovers the reducer from the name of an intermediate file: the name that
  \<open>MapWork\<close> builds for map task \<open>m\<close> and reducer \<open>r\<close> splits into three parts, of which the last is
  \<open>r\<close> again, so \<open>FinishedTask\<close> files it under \<open>r\<close>; distinct tasks have distinct files.
\<close>

theorem interFile_roundtrip:
  assumes "r < 2 ^ 63"
  shows "length (Split (CHR ''-'') (interFile m r)) = 3 \<and> Atoi (Split (CHR ''-'') (interFile m r) ! 2) = r
     \<and> add_files [interFile m r] fm = Some (fm(r := fm r @ [interFile m r]))
     \<and> (interFile m r = interFile m' r' \<longrightarrow> m = m' \<and> r = r')"
  using assms by (simp add: Split_interFile Atoi_Itoa interFile_inj)

theorem interFile_roundtrip_witness:
  "interFile 12 3 = ''mr-12-3'' \<and> Atoi (Split (CHR ''-'') (interFile 12 3) ! 2) = 3"
proof
  show "interFile 12 3 = ''mr-12-3''" by code_simp
  show "Atoi (Split (CHR ''-'') (interFile 12 3) ! 2) = 3" using interFile_roundtrip [of 3 12] by simp
qed

section \<open>Coordinator, workers and timers\<close>

record MRSys =
  coord :: Coordinator
  timers :: "(WorkerType \<times> nat) multiset"
  handed :: "(WorkerType \<times> nat) set"

definition mr_init :: "string list \<Rightarrow> nat \<Rightarrow> MRSys option" where
  "mr_init files nReduce = map_option (\<lambda>c. \<lparr>coord = c, timers = {#}, handed = {}\<rparr>) (MakeCoordinator files nReduce)"

text \<open>
  A worker may report a task it was handed at any later time and any number of times, also after
  the task was handed to another worker, and reports of map tasks name the files \<open>MapWork\<close> writes.
\<close>

inductive mr_step :: "nat \<Rightarrow> MRSys \<Rightarrow> MRSys \<Rightarrow> bool" for nReduce where
  get: "GetTask (coord s) = Some (reply, c, t)
    \<Longrightarrow> mr_step nReduce s (s\<lparr>coord := c, timers := timers s + (case t of None \<Rightarrow> {#} | Some x \<Rightarrow> {#x#}),
          handed := handed s \<union> set_option t\<rparr>)"
| finish: "(wd_Type (args_Task args), wd_Id (args_Task args)) \<in> handed s
    \<Longrightarrow> (wd_Type (args_Task args) = MapTask
         \<Longrightarrow> args_IntermidiateFiles args = map (interFile (wd_Id (args_Task args))) [0..<nReduce])
    \<Longrightarrow> FinishedTask args (coord s) = Some c \<Longrightarrow> mr_step nReduce s (s\<lparr>coord := c\<rparr>)"
| check: "(ty, i) \<in># timers s \<Longrightarrow> CheckFinished i ty (coord s) = Some c
    \<Longrightarrow> mr_step nReduce s (s\<lparr>coord := c, timers := timers s - {#(ty, i)#}\<rparr>)"
| poll: "mr_step nReduce s (s\<lparr>coord := snd (Done (coord s))\<rparr>)"

inductive mr_reach :: "string list \<Rightarrow> nat \<Rightarrow> MRSys \<Rightarrow> bool" for files nReduce where
  init: "mr_init files nReduce = Some s \<Longrightarrow> mr_reach files nReduce s"
| step: "mr_reach files nReduce s \<Longrightarrow> mr_step nReduce s s' \<Longrightarrow> mr_reach files nReduce s'"

section \<open>The accounts of tasks\<close>

text \<open>
  An idle task is in its channel once and has no timer, one in process is not in the channel and
  has one timer, a completed one is not in the channel.
\<close>

fun status_ok :: "WorkerStatus \<Rightarrow> nat \<Rightarrow> nat \<Rightarrow> bool" where
  "status_ok Idle inChan timing \<longleftrightarrow> inChan = 1 \<and> timing = 0"
| "status_ok InProcess inChan timing \<longleftrightarrow> inChan = 0 \<and> timing = 1"
| "status_ok Completed inChan timing \<longleftrightarrow> inChan = 0"
| "status_ok Error inChan timing \<longleftrightarrow> False"

definition tasks_ok :: "WorkerType \<Rightarrow> WorkerDetail list \<Rightarrow> nat list \<Rightarrow> (WorkerType \<times> nat) multiset \<Rightarrow> bool" where
  "tasks_ok ty ts ch tm \<longleftrightarrow> set ch \<subseteq> {..<length ts} \<and> (\<forall>i. (ty, i) \<in># tm \<longrightarrow> i < length ts)
     \<and> (\<forall>i < length ts. wd_Id (ts ! i) = i \<and> wd_Type (ts ! i) = ty
          \<and> status_ok (wd_Status (ts ! i)) (count_list ch i) (count tm (ty, i)))"

lemma tasks_okD:
  assumes "tasks_ok ty ts ch tm" "i < length ts"
  shows "wd_Id (ts ! i) = i" "wd_Type (ts ! i) = ty" "status_ok (wd_Status (ts ! i)) (count_list ch i) (count tm (ty, i))"
  using assms by (simp_all add: tasks_ok_def)

lemma tasks_ok_other: "tasks_ok ty ts ch tm \<Longrightarrow> ty' \<noteq> ty \<Longrightarrow> tasks_ok ty ts ch (add_mset (ty', i) tm)"
  by (auto simp: tasks_ok_def)

lemma tasks_ok_minus: "tasks_ok ty ts ch tm \<Longrightarrow> ty' \<noteq> ty \<Longrightarrow> tasks_ok ty ts ch (tm - {#(ty', i)#})"
  by (auto simp: tasks_ok_def dest: in_diffD)

lemma count_list_append_single: "count_list (xs @ [y]) x = count_list xs x + (if x = y then 1 else 0)"
  by (induction xs) auto

lemma status_ok_le: "status_ok st n t \<Longrightarrow> n \<le> 1"
  by (cases st) auto

lemma tasks_ok_distinct:
  assumes "tasks_ok ty ts ch tm"
  shows "distinct ch"
proof -
  have le: "count_list ch i \<le> 1" for i
  proof (cases "i < length ts")
    case True
    then have "status_ok (wd_Status (ts ! i)) (count_list ch i) (count tm (ty, i))" using assms by (simp add: tasks_ok_def)
    then show ?thesis by (rule status_ok_le)
  next
    case False
    then have "i \<notin> set ch" using assms by (auto simp: tasks_ok_def)
    then show ?thesis by simp
  qed
  then have "count (mset ch) i = (if i \<in> set ch then 1 else 0)" for i
    using count_list_0_iff [of ch i] le [of i] by (auto simp: count_mset le_Suc_eq)
  then show ?thesis by (simp add: distinct_count_atmost_1)
qed

lemma tasks_ok_hand:
  assumes "tasks_ok ty ts (i # ch) tm" "wd_Status t = InProcess" "wd_Id t = i" "wd_Type t = ty"
  shows "i < length ts" "wd_Status (ts ! i) = Idle" "tasks_ok ty (ts[i := t]) ch (add_mset (ty, i) tm)"
proof -
  show i: "i < length ts" using assms(1) by (simp add: tasks_ok_def)
  have ok: "status_ok (wd_Status (ts ! i)) (Suc (count_list ch i)) (count tm (ty, i))"
    using tasks_okD(3) [OF assms(1) i] by simp
  then show idle: "wd_Status (ts ! i) = Idle" by (cases "wd_Status (ts ! i)") auto
  then have "count_list ch i = 0" "count tm (ty, i) = 0" using ok by auto
  then show "tasks_ok ty (ts[i := t]) ch (add_mset (ty, i) tm)"
    using assms i by (auto simp: tasks_ok_def nth_list_update)
qed

lemma tasks_ok_complete:
  assumes "tasks_ok ty ts ch tm" "i < length ts" "wd_Status (ts ! i) = InProcess"
  shows "tasks_ok ty (ts[i := ChangeStatusToCompleted (ts ! i)]) ch tm"
proof -
  have "status_ok InProcess (count_list ch i) (count tm (ty, i))"
    using tasks_okD(3) [OF assms(1,2)] assms(3) by simp
  then show ?thesis using assms
    by (simp add: tasks_ok_def nth_list_update ChangeStatusToCompleted_def)
qed

lemma tasks_ok_recheck:
  assumes "tasks_ok ty ts ch tm" "(ty, i) \<in># tm"
  shows "i < length ts"
    and "wd_Status (ts ! i) = Completed \<Longrightarrow> tasks_ok ty ts ch (tm - {#(ty, i)#})"
    and "wd_Status (ts ! i) \<noteq> Completed \<Longrightarrow> length ch < length ts
      \<and> tasks_ok ty (ts[i := ChangeStatusToIdle (ts ! i)]) (ch @ [i]) (tm - {#(ty, i)#})"
proof -
  show i: "i < length ts" using assms by (simp add: tasks_ok_def)
  have sub: "(ty, j) \<in># tm - {#(ty, i)#} \<Longrightarrow> j < length ts" for j
    using assms(1) by (auto simp: tasks_ok_def dest: in_diffD)
  have st: "status_ok (wd_Status (ts ! j)) (count_list ch j) (count tm (ty, j))" if "j < length ts" for j
    using tasks_okD(3) [OF assms(1) that] .
  show "tasks_ok ty ts ch (tm - {#(ty, i)#})" if "wd_Status (ts ! i) = Completed"
    unfolding tasks_ok_def
  proof (intro conjI allI impI)
    fix j assume "j < length ts"
    then show "status_ok (wd_Status (ts ! j)) (count_list ch j) (count (tm - {#(ty, i)#}) (ty, j))"
      using st [of j] that by (cases "j = i") auto
  qed (use assms(1) sub in \<open>auto simp: tasks_ok_def\<close>)
  assume nc: "wd_Status (ts ! i) \<noteq> Completed"
  have "count tm (ty, i) > 0" using assms(2) by simp
  then have ip: "count_list ch i = 0" "count tm (ty, i) = 1" using st [OF i] nc by (cases "wd_Status (ts ! i)"; simp)+
  have "distinct (i # ch)" using tasks_ok_distinct [OF assms(1)] ip(1) by (simp add: count_list_0_iff)
  moreover have "set (i # ch) \<subseteq> {..<length ts}" using assms(1) i by (simp add: tasks_ok_def)
  ultimately have "length (i # ch) \<le> length ts"
    by (metis card_lessThan card_mono distinct_card finite_lessThan)
  moreover have "tasks_ok ty (ts[i := ChangeStatusToIdle (ts ! i)]) (ch @ [i]) (tm - {#(ty, i)#})"
    unfolding tasks_ok_def
  proof (intro conjI allI impI)
    fix j assume "j < length (ts[i := ChangeStatusToIdle (ts ! i)])"
    then have j: "j < length ts" by simp
    show "status_ok (wd_Status (ts[i := ChangeStatusToIdle (ts ! i)] ! j)) (count_list (ch @ [i]) j)
        (count (tm - {#(ty, i)#}) (ty, j))"
      using st [OF j] ip j by (cases "j = i") (simp_all add: ChangeStatusToIdle_def)
    show "wd_Id (ts[i := ChangeStatusToIdle (ts ! i)] ! j) = j" "wd_Type (ts[i := ChangeStatusToIdle (ts ! i)] ! j) = ty"
      using tasks_okD(1,2) [OF assms(1) j] j by (cases "j = i"; simp add: ChangeStatusToIdle_def)+
  qed (use assms(1) sub i in \<open>auto simp: tasks_ok_def\<close>)
  ultimately show "length ch < length ts
      \<and> tasks_ok ty (ts[i := ChangeStatusToIdle (ts ! i)]) (ch @ [i]) (tm - {#(ty, i)#})" by simp
qed

section \<open>The intermediate files\<close>

lemma add_files_append: "add_files (xs @ ys) fm = add_files xs fm \<bind> add_files ys"
  by (induction xs arbitrary: fm) (auto simp: Let_def)

lemma add_files_map:
  "nReduce \<le> 2 ^ 63 \<Longrightarrow> add_files (map (interFile m) [0..<nReduce]) fm
     = Some (\<lambda>r. if r < nReduce then fm r @ [interFile m r] else fm r)"
proof (induction nReduce)
  case (Suc n)
  then have "add_files (map (interFile m) [0..<n]) fm = Some (\<lambda>r. if r < n then fm r @ [interFile m r] else fm r)"
    by simp
  moreover have "n < 2 ^ 63" using Suc.prems by simp
  ultimately show ?case by (simp add: add_files_append Split_interFile Atoi_Itoa fun_eq_iff less_Suc_eq)
qed simp

definition finishedMaps :: "WorkerDetail list \<Rightarrow> nat list" where
  "finishedMaps ts = filter (\<lambda>m. IsCompleted (ts ! m)) [0..<length ts]"

definition files_ok :: "WorkerDetail list \<Rightarrow> nat \<Rightarrow> (nat \<Rightarrow> string list) \<Rightarrow> bool" where
  "files_ok ts nReduce fm \<longleftrightarrow>
     (\<forall>r < nReduce. mset (fm r) = image_mset (\<lambda>m. interFile m r) (mset (finishedMaps ts)))"

lemma finishedMaps_same:
  "IsCompleted t = IsCompleted (ts ! i) \<Longrightarrow> finishedMaps (ts[i := t]) = finishedMaps ts"
  unfolding finishedMaps_def
  by (cases "i < length ts") (auto simp: nth_list_update list_update_beyond intro: filter_cong)

lemma mset_filter_insert:
  "distinct xs \<Longrightarrow> m \<in> set xs \<Longrightarrow> \<not> P m \<Longrightarrow> (\<And>x. P' x \<longleftrightarrow> P x \<or> x = m)
     \<Longrightarrow> mset (filter P' xs) = add_mset m (mset (filter P xs))"
proof (induction xs)
  case (Cons x xs)
  show ?case
  proof (cases "x = m")
    case True
    then have "filter_mset P' (mset xs) = filter_mset P (mset xs)" using Cons.prems by (intro filter_mset_cong) auto
    moreover have "P' m" "\<not> P m" using Cons.prems(3,4) by auto
    ultimately show ?thesis using True by simp
  qed (use Cons in auto)
qed simp

lemma finishedMaps_complete:
  assumes "i < length ts" "\<not> IsCompleted (ts ! i)" "IsCompleted t"
  shows "mset (finishedMaps (ts[i := t])) = add_mset i (mset (finishedMaps ts))"
proof -
  have eq: "finishedMaps (ts[i := t]) = filter (\<lambda>m. IsCompleted (ts ! m) \<or> m = i) [0..<length ts]"
    unfolding finishedMaps_def using assms by (auto simp: nth_list_update intro: filter_cong)
  show ?thesis unfolding eq unfolding finishedMaps_def
    by (rule mset_filter_insert) (use assms in auto)
qed

lemma finishedMaps_all: "list_all IsCompleted ts \<Longrightarrow> finishedMaps ts = [0..<length ts]"
  by (simp add: finishedMaps_def list_all_length)

section \<open>The invariant\<close>

definition mr_inv :: "string list \<Rightarrow> nat \<Rightarrow> MRSys \<Rightarrow> bool" where
  "mr_inv files nReduce s \<longleftrightarrow> length (mapsTaskList (coord s)) = length files \<and> length files \<le> mapCap
     \<and> length (reduceTaskList (coord s)) = nReduce \<and> nReduce \<le> 2 ^ 63
     \<and> tasks_ok MapTask (mapsTaskList (coord s)) (mapChan (coord s)) (timers s)
     \<and> tasks_ok ReduceTask (reduceTaskList (coord s)) (reduceChan (coord s)) (timers s)
     \<and> (\<forall>x \<in># timers s. fst x \<noteq> NoTask)
     \<and> handed s \<subseteq> {MapTask} \<times> {..<length files} \<union> {ReduceTask} \<times> {..<nReduce}
     \<and> (isAllMapWorkerFinished (coord s) \<longrightarrow> list_all IsCompleted (mapsTaskList (coord s)))
     \<and> files_ok (mapsTaskList (coord s)) nReduce (interFiles (coord s))"

lemma mr_inv_init:
  assumes "mr_init files nReduce = Some s" "nReduce \<le> 2 ^ 63"
  shows "mr_inv files nReduce s"
proof -
  have one: "count_list [0..<n] i = 1" if "i < n" for i n :: nat using that by (induction n) (auto simp: less_Suc_eq)
  have "finishedMaps (map2 (mapTask nReduce) [0..<length files] files) = []"
    by (simp add: finishedMaps_def filter_empty_conv IsCompleted_def mapTask_def)
  moreover have "tasks_ok MapTask (map2 (mapTask nReduce) [0..<length files] files) [0..<length files] {#}"
      "tasks_ok ReduceTask (map (reduceTask nReduce) [0..<nReduce]) [0..<nReduce] {#}"
    using one by (auto simp: tasks_ok_def mapTask_def reduceTask_def)
  ultimately show ?thesis using assms
    by (auto simp: mr_inv_def mr_init_def MakeCoordinator_def files_ok_def split: if_splits)
qed

definition got :: "Coordinator \<Rightarrow> (WorkerType \<times> nat) option \<Rightarrow> MRSys \<Rightarrow> MRSys" where
  "got c t s = s\<lparr>coord := c, timers := timers s + (case t of None \<Rightarrow> {#} | Some x \<Rightarrow> {#x#}),
     handed := handed s \<union> set_option t\<rparr>"

lemma GetTask_map:
  assumes inv: "mr_inv files nReduce s" and nd: "\<not> allTasksDone (coord s)" "\<not> isAllMapWorkerFinished (coord s)"
    and ch: "mapChan (coord s) = i # ch"
  defines "t \<equiv> ChangeStatusToInProcess (mapsTaskList (coord s) ! i)"
  shows "GetTask (coord s) = Some (noReply\<lparr>reply_Task := t\<rparr>,
      (coord s)\<lparr>mapChan := ch, mapsTaskList := (mapsTaskList (coord s))[i := t]\<rparr>, Some (MapTask, i))"
    and "mr_inv files nReduce (got ((coord s)\<lparr>mapChan := ch, mapsTaskList := (mapsTaskList (coord s))[i := t]\<rparr>)
      (Some (MapTask, i)) s)"
    and "i < length files" "wd_Type t = MapTask" "wd_Id t = i" "wd_Status (mapsTaskList (coord s) ! i) = Idle"
proof -
  let ?ts = "mapsTaskList (coord s)"
  have ok: "tasks_ok MapTask ?ts (i # ch) (timers s)" and len: "length ?ts = length files"
    using inv ch by (simp_all add: mr_inv_def)
  have i: "i < length ?ts" using ok by (simp add: tasks_ok_def)
  have t: "wd_Type t = MapTask" "wd_Id t = i" "wd_Status t = InProcess"
    using tasks_okD [OF ok i] by (simp_all add: t_def ChangeStatusToInProcess_def)
  note hand = tasks_ok_hand [OF ok t(3,2,1)]
  have "\<not> IsCompleted t" "\<not> IsCompleted (?ts ! i)" using t(3) hand(2) by (simp_all add: IsCompleted_def)
  then have "finishedMaps (?ts[i := t]) = finishedMaps ?ts" by (simp add: finishedMaps_same)
  then show "mr_inv files nReduce (got ((coord s)\<lparr>mapChan := ch, mapsTaskList := ?ts[i := t]\<rparr>) (Some (MapTask, i)) s)"
    using inv hand(3) nd(2) i len by (simp add: mr_inv_def got_def tasks_ok_other files_ok_def)
  show "GetTask (coord s) = Some (noReply\<lparr>reply_Task := t\<rparr>,
      (coord s)\<lparr>mapChan := ch, mapsTaskList := ?ts[i := t]\<rparr>, Some (MapTask, i))"
    using nd ch i t(1,2) by (simp add: GetTask_def t_def Let_def)
  show "i < length files" "wd_Type t = MapTask" "wd_Id t = i" "wd_Status (?ts ! i) = Idle"
    using i len t hand(2) by simp_all
qed

lemma GetTask_reduce:
  assumes inv: "mr_inv files nReduce s" and nd: "\<not> allTasksDone (coord s)" "isAllMapWorkerFinished (coord s)"
    and ch: "reduceChan (coord s) = i # ch"
  defines "t \<equiv> (ChangeStatusToInProcess (reduceTaskList (coord s) ! i))\<lparr>wd_FileNames := interFiles (coord s) i\<rparr>"
  shows "GetTask (coord s) = Some (noReply\<lparr>reply_Task := t\<rparr>,
      (coord s)\<lparr>reduceChan := ch, reduceTaskList := (reduceTaskList (coord s))[i := t]\<rparr>, Some (ReduceTask, i))"
    and "mr_inv files nReduce (got ((coord s)\<lparr>reduceChan := ch, reduceTaskList := (reduceTaskList (coord s))[i := t]\<rparr>)
      (Some (ReduceTask, i)) s)"
    and "i < nReduce" "wd_Type t = ReduceTask" "wd_Id t = i" "wd_FileNames t = interFiles (coord s) i"
proof -
  let ?ts = "reduceTaskList (coord s)"
  have ok: "tasks_ok ReduceTask ?ts (i # ch) (timers s)" and len: "length ?ts = nReduce"
    using inv ch by (simp_all add: mr_inv_def)
  have i: "i < length ?ts" using ok by (simp add: tasks_ok_def)
  have t: "wd_Type t = ReduceTask" "wd_Id t = i" "wd_Status t = InProcess"
    using tasks_okD [OF ok i] by (simp_all add: t_def ChangeStatusToInProcess_def)
  note hand = tasks_ok_hand [OF ok t(3,2,1)]
  show "mr_inv files nReduce (got ((coord s)\<lparr>reduceChan := ch, reduceTaskList := ?ts[i := t]\<rparr>) (Some (ReduceTask, i)) s)"
    using inv hand(3) i len by (simp add: mr_inv_def got_def tasks_ok_other files_ok_def)
  show "GetTask (coord s) = Some (noReply\<lparr>reply_Task := t\<rparr>,
      (coord s)\<lparr>reduceChan := ch, reduceTaskList := ?ts[i := t]\<rparr>, Some (ReduceTask, i))"
    using nd ch i t(1,2) tasks_okD(1) [OF ok i] by (simp add: GetTask_def t_def Let_def ChangeStatusToInProcess_def)
  show "i < nReduce" "wd_Type t = ReduceTask" "wd_Id t = i" "wd_FileNames t = interFiles (coord s) i"
    using i len t by (simp_all add: t_def)
qed

definition no_task :: "Coordinator \<Rightarrow> bool" where
  "no_task c \<longleftrightarrow> allTasksDone c \<or> (if isAllMapWorkerFinished c then reduceChan c = [] else mapChan c = [])"

lemma GetTask_none:
  assumes "no_task c"
  shows "GetTask c = Some (noReply\<lparr>reply_IsFinished := allTasksDone c\<rparr>, c, None)"
  using assms by (auto simp: GetTask_def no_task_def noReply_def split: if_splits)

lemma got_none [simp]: "got (coord s) None s = s"
  by (simp add: got_def)

lemma GetTask_cases:
  assumes "mr_inv files nReduce s"
  obtains (nothing) "no_task (coord s)"
  | (mapping) i ch where "\<not> allTasksDone (coord s)" "\<not> isAllMapWorkerFinished (coord s)" "mapChan (coord s) = i # ch"
  | (reducing) i ch where "\<not> allTasksDone (coord s)" "isAllMapWorkerFinished (coord s)" "reduceChan (coord s) = i # ch"
  unfolding no_task_def by (metis neq_Nil_conv)

lemma GetTask_inv:
  assumes "mr_inv files nReduce s"
  shows "\<exists>reply c t. GetTask (coord s) = Some (reply, c, t) \<and> mr_inv files nReduce (got c t s)"
  using assms
proof (cases rule: GetTask_cases)
  case nothing
  then show ?thesis using assms by (simp add: GetTask_none)
next
  case (mapping i ch)
  then show ?thesis using GetTask_map(1,2) [OF assms mapping] by auto
next
  case (reducing i ch)
  then show ?thesis using GetTask_reduce(1,2) [OF assms reducing] by auto
qed

lemma FinishedTask_map:
  assumes inv: "mr_inv files nReduce s" and ty: "wd_Type (args_Task args) = MapTask"
    and i: "wd_Id (args_Task args) = i" "i < length files"
    and fs: "args_IntermidiateFiles args = map (interFile i) [0..<nReduce]"
  shows "\<exists>c. FinishedTask args (coord s) = Some c \<and> mr_inv files nReduce (s\<lparr>coord := c\<rparr>)"
proof (cases "IsInProcess (mapsTaskList (coord s) ! i)")
  case False
  then have "FinishedTask args (coord s) = Some (coord s)"
    using inv ty i by (simp add: FinishedTask_def mr_inv_def Let_def)
  then show ?thesis using inv by simp
next
  case True
  let ?ts = "mapsTaskList (coord s)"
  let ?t = "ChangeStatusToCompleted (?ts ! i)"
  let ?fm = "\<lambda>r. if r < nReduce then interFiles (coord s) r @ [interFile i r] else interFiles (coord s) r"
  have ok: "tasks_ok MapTask ?ts (mapChan (coord s)) (timers s)" and len: "i < length ?ts"
    and R: "nReduce \<le> 2 ^ 63" using inv i by (simp_all add: mr_inv_def)
  have c: "IsCompleted ?t" "\<not> IsCompleted (?ts ! i)" "wd_Type ?t = MapTask"
    using True tasks_okD(2) [OF ok len] by (simp_all add: IsCompleted_def IsInProcess_def ChangeStatusToCompleted_def)
  have F: "FinishedTask args (coord s) = Some ((coord s)\<lparr>mapsTaskList := ?ts[i := ?t], interFiles := ?fm\<rparr>)"
    using True ty i len fs c(3) add_files_map [OF R, of i "interFiles (coord s)"] by (simp add: FinishedTask_def Let_def)
  have "tasks_ok MapTask (?ts[i := ?t]) (mapChan (coord s)) (timers s)"
    using tasks_ok_complete [OF ok len] True by (simp add: IsInProcess_def)
  moreover have "files_ok (?ts[i := ?t]) nReduce ?fm"
    using inv finishedMaps_complete [OF len c(2,1)] by (simp add: mr_inv_def files_ok_def)
  moreover have "list_all IsCompleted (?ts[i := ?t])" if "list_all IsCompleted ?ts"
    using that c(1) len by (simp add: list_all_length nth_list_update)
  ultimately have "mr_inv files nReduce (s\<lparr>coord := (coord s)\<lparr>mapsTaskList := ?ts[i := ?t], interFiles := ?fm\<rparr>\<rparr>)"
    using inv by (simp add: mr_inv_def)
  then show ?thesis using F by blast
qed

lemma FinishedTask_reduce:
  assumes inv: "mr_inv files nReduce s" and ty: "wd_Type (args_Task args) = ReduceTask"
    and i: "wd_Id (args_Task args) = i" "i < nReduce"
  shows "\<exists>c. FinishedTask args (coord s) = Some c \<and> mr_inv files nReduce (s\<lparr>coord := c\<rparr>)"
proof (cases "IsInProcess (reduceTaskList (coord s) ! i)")
  case False
  then have "FinishedTask args (coord s) = Some (coord s)"
    using inv ty i by (simp add: FinishedTask_def mr_inv_def Let_def)
  then show ?thesis using inv by simp
next
  case True
  let ?ts = "reduceTaskList (coord s)"
  let ?t = "ChangeStatusToCompleted (?ts ! i)"
  have ok: "tasks_ok ReduceTask ?ts (reduceChan (coord s)) (timers s)" and len: "i < length ?ts"
    using inv i by (simp_all add: mr_inv_def)
  have "wd_Type ?t = ReduceTask" using tasks_okD(2) [OF ok len] by (simp add: ChangeStatusToCompleted_def)
  then have F: "FinishedTask args (coord s) = Some ((coord s)\<lparr>reduceTaskList := ?ts[i := ?t]\<rparr>)"
    using True ty i len by (simp add: FinishedTask_def Let_def)
  have "tasks_ok ReduceTask (?ts[i := ?t]) (reduceChan (coord s)) (timers s)"
    using tasks_ok_complete [OF ok len] True by (simp add: IsInProcess_def)
  then have "mr_inv files nReduce (s\<lparr>coord := (coord s)\<lparr>reduceTaskList := ?ts[i := ?t]\<rparr>\<rparr>)"
    using inv by (simp add: mr_inv_def)
  then show ?thesis using F by blast
qed

definition fired :: "WorkerType \<times> nat \<Rightarrow> Coordinator \<Rightarrow> MRSys \<Rightarrow> MRSys" where
  "fired x c s = s\<lparr>coord := c, timers := timers s - {#x#}\<rparr>"

lemma CheckFinished_inv:
  assumes inv: "mr_inv files nReduce s" and tm: "(ty, i) \<in># timers s"
  shows "\<exists>c. CheckFinished i ty (coord s) = Some c \<and> mr_inv files nReduce (fired (ty, i) c s)"
proof -
  let ?ms = "mapsTaskList (coord s)" and ?rs = "reduceTaskList (coord s)"
  have M: "tasks_ok MapTask ?ms (mapChan (coord s)) (timers s)" and R: "tasks_ok ReduceTask ?rs (reduceChan (coord s)) (timers s)"
    and cap: "length ?ms \<le> mapCap" and ne: "ty \<noteq> NoTask" and nt: "\<forall>x \<in># timers s - {#(ty, i)#}. fst x \<noteq> NoTask"
    using inv tm by (auto simp: mr_inv_def dest: in_diffD)
  show ?thesis
  proof (cases "ty = MapTask")
    case True
    note re = tasks_ok_recheck [OF M tm [unfolded True]]
    have R': "tasks_ok ReduceTask ?rs (reduceChan (coord s)) (timers s - {#(MapTask, i)#})" by (rule tasks_ok_minus [OF R]) simp
    show ?thesis
    proof (cases "IsCompleted (?ms ! i)")
      case c: True
      then have "CheckFinished i ty (coord s) = Some (coord s)" using True re(1) by (simp add: CheckFinished_def Let_def)
      then show ?thesis using inv re(2) R' c nt True by (simp add: mr_inv_def fired_def IsCompleted_def)
    next
      case c: False
      let ?c = "(coord s)\<lparr>mapsTaskList := ?ms[i := ChangeStatusToIdle (?ms ! i)], mapChan := mapChan (coord s) @ [i]\<rparr>"
      have "length (mapChan (coord s)) < mapCap" using re(3) c cap by (simp add: IsCompleted_def)
      then have "CheckFinished i ty (coord s) = Some ?c" using True re(1) c by (simp add: CheckFinished_def Let_def send_def)
      moreover have "\<not> IsCompleted (ChangeStatusToIdle (?ms ! i))" by (simp add: IsCompleted_def ChangeStatusToIdle_def)
      then have "finishedMaps (?ms[i := ChangeStatusToIdle (?ms ! i)]) = finishedMaps ?ms" using c by (simp add: finishedMaps_same)
      moreover have "\<not> isAllMapWorkerFinished (coord s)" using inv c re(1) by (auto simp: mr_inv_def list_all_length)
      ultimately show ?thesis using inv re(3) R' c nt True by (simp add: mr_inv_def fired_def IsCompleted_def files_ok_def)
    qed
  next
    case False
    then have ty: "ty = ReduceTask" using ne by (cases ty) auto
    note re = tasks_ok_recheck [OF R tm [unfolded ty]]
    have M': "tasks_ok MapTask ?ms (mapChan (coord s)) (timers s - {#(ReduceTask, i)#})" by (rule tasks_ok_minus [OF M]) simp
    show ?thesis
    proof (cases "IsCompleted (?rs ! i)")
      case c: True
      then have "CheckFinished i ty (coord s) = Some (coord s)" using ty re(1) by (simp add: CheckFinished_def Let_def)
      then show ?thesis using inv re(2) M' c nt ty by (simp add: mr_inv_def fired_def IsCompleted_def)
    next
      case c: False
      then show ?thesis using inv re(1,3) M' nt ty
        by (simp add: CheckFinished_def Let_def send_def mr_inv_def fired_def IsCompleted_def)
    qed
  qed
qed

lemma Done_inv: "mr_inv files nReduce s \<Longrightarrow> mr_inv files nReduce (s\<lparr>coord := snd (Done (coord s))\<rparr>)"
  by (simp add: Done_def mr_inv_def Let_def)

lemma mr_step_inv:
  assumes "mr_step nReduce s s'" "mr_inv files nReduce s"
  shows "mr_inv files nReduce s'"
  using assms
proof cases
  case (get reply c t)
  then show ?thesis using GetTask_inv [OF assms(2)] by (auto simp: got_def)
next
  case (finish args c)
  have h: "(wd_Type (args_Task args), wd_Id (args_Task args)) \<in> {MapTask} \<times> {..<length files} \<union> {ReduceTask} \<times> {..<nReduce}"
    using finish(2) assms(2) by (auto simp: mr_inv_def)
  show ?thesis
  proof (cases "wd_Type (args_Task args) = MapTask")
    case True
    then show ?thesis using FinishedTask_map [OF assms(2) True refl] finish h by auto
  next
    case False
    then show ?thesis using FinishedTask_reduce [OF assms(2) _ refl, of args] finish h by auto
  qed
next
  case (check ty i c)
  then show ?thesis using CheckFinished_inv [OF assms(2), of ty i] by (auto simp: fired_def)
next
  case poll
  then show ?thesis using Done_inv [OF assms(2)] by simp
qed

lemma mr_reach_inv: "mr_reach files nReduce s \<Longrightarrow> nReduce \<le> 2 ^ 63 \<Longrightarrow> mr_inv files nReduce s"
  by (induction rule: mr_reach.induct) (auto intro: mr_inv_init mr_step_inv)


text \<open>A job of one map and one reduce task, up to the barrier.\<close>

definition ex_mr :: "WorkerStatus \<Rightarrow> bool \<Rightarrow> MRSys" where
  "ex_mr st open = \<lparr>coord = \<lparr>mapsTaskList = [(mapTask 1 0 ''f'')\<lparr>wd_Status := st\<rparr>], reduceTaskList = [reduceTask 1 0],
       reduceChan = [0], mapChan = (if st = Idle then [0] else []), isAllMapWorkerFinished = open,
       interFiles = (if st = Completed then (\<lambda>r. if r < 1 then [interFile 0 r] else []) else (\<lambda>_. []))\<rparr>,
     timers = (if st = Idle then {#} else {#(MapTask, 0)#}), handed = (if st = Idle then {} else {(MapTask, 0)})\<rparr>"

lemma ex_mr_reach: "mr_reach [''f''] 1 (ex_mr Completed True)"
proof -
  have "mr_init [''f''] 1 = Some (ex_mr Idle False)"
    by (simp add: mr_init_def MakeCoordinator_def mapCap_def ex_mr_def mapTask_def)
  then have 0: "mr_reach [''f''] 1 (ex_mr Idle False)" by (rule mr_reach.init)
  let ?t = "(mapTask 1 0 ''f'')\<lparr>wd_Status := InProcess\<rparr>"
  have "GetTask (coord (ex_mr Idle False)) = Some (noReply\<lparr>reply_Task := ?t\<rparr>, coord (ex_mr InProcess False), Some (MapTask, 0))"
    by (simp add: GetTask_def ex_mr_def allTasksDone_def IsCompleted_def mapTask_def ChangeStatusToInProcess_def Let_def)
  from mr_step.get [OF this] have "mr_step 1 (ex_mr Idle False) (ex_mr InProcess False)" by (simp add: ex_mr_def)
  with 0 have 1: "mr_reach [''f''] 1 (ex_mr InProcess False)" by (rule mr_reach.step)
  let ?a = "\<lparr>args_Task = ?t, args_IntermidiateFiles = map (interFile 0) [0..<1], args_OutPutFileName = ''''\<rparr>"
  have "FinishedTask ?a (coord (ex_mr InProcess False)) = Some (coord (ex_mr Completed False))"
    by (simp add: Split_interFile Atoi_Itoa fun_eq_iff FinishedTask_def ex_mr_def mapTask_def IsInProcess_def ChangeStatusToCompleted_def Let_def)
  from mr_step.finish [OF _ _ this, of 1] have "mr_step 1 (ex_mr InProcess False) (ex_mr Completed False)"
    by (simp add: ex_mr_def mapTask_def)
  with 1 have 2: "mr_reach [''f''] 1 (ex_mr Completed False)" by (rule mr_reach.step)
  have "mr_step 1 (ex_mr Completed False) (ex_mr Completed True)"
    using mr_step.poll [of 1 "ex_mr Completed False"]
    by (simp add: ex_mr_def Done_def IsCompleted_def reduceTask_def mapTask_def Let_def)
  with 2 show ?thesis by (rule mr_reach.step)
qed


end
