(* ===== verification/MapReduce.thy ===== *)
theory MapReduce
  imports MRCoordinator Fnv "HOL-Library.Char_ord" "HOL-Library.List_Lexorder"
begin

text \<open>
  The MapReduce worker (src/src/mr/worker.go), the sequential program it must agree with
  (src/src/main/mrsequential.go) and the reduce functions of the word count and indexer
  applications (src/src/mrapps/wc.go, indexer.go).  The user's map and reduce functions are
  arguments.  Input files are a map from names to contents, intermediate files a map from names to
  the key/value pairs encoded in them; \<open>log.Fatalf\<close> is \<open>None\<close>.  \<open>sort.Slice\<close> and \<open>sort.Sort\<close> are not
  stable, so the sorting function is an argument of which only that it sorts is used.
\<close>

unbundle bit_operations_syntax

section \<open>The worker\<close>

record KeyValue =
  kva_Key :: string
  kva_Value :: string

type_synonym mapfun = "string \<Rightarrow> string \<Rightarrow> KeyValue list"
type_synonym reducefun = "string \<Rightarrow> string list \<Rightarrow> string"
type_synonym mrdisk = "string \<rightharpoonup> KeyValue list"

definition ihash :: "string \<Rightarrow> nat" where
  "ihash key = unat (Sum32 key AND 0x7fffffff)"

fun create_files :: "string list \<Rightarrow> mrdisk \<Rightarrow> mrdisk" where
  "create_files [] d = d"
| "create_files (name # names) d = create_files names (d(name \<mapsto> []))"

fun encode_pairs :: "nat \<Rightarrow> nat \<Rightarrow> KeyValue list \<Rightarrow> mrdisk \<Rightarrow> mrdisk" where
  "encode_pairs m nReduce [] d = d"
| "encode_pairs m nReduce (kv # kva) d =
     (let name = interFile m (ihash (kva_Key kv) mod nReduce)
      in encode_pairs m nReduce kva (d(name := map_option (\<lambda>kvs. kvs @ [kv]) (d name))))"

text \<open>With no reducer the remainder panics on the first pair.\<close>

definition MapWork ::
  "mapfun \<Rightarrow> (string \<rightharpoonup> string) \<Rightarrow> WorkerDetail \<Rightarrow> mrdisk \<Rightarrow> (string list \<times> mrdisk) option" where
  "MapWork mapf inputs task d = (case inputs (wd_FileName task) of
     None \<Rightarrow> None
   | Some content \<Rightarrow>
       (let kva = mapf (wd_FileName task) content;
            filenames = map (interFile (wd_Id task)) [0..<wd_NReduce task];
            d = create_files filenames d in
        if wd_NReduce task = 0 \<and> kva \<noteq> [] then None
        else Some (filenames, encode_pairs (wd_Id task) (wd_NReduce task) kva d)))"

fun read_files :: "string list \<Rightarrow> mrdisk \<Rightarrow> KeyValue list option" where
  "read_files [] d = Some []"
| "read_files (name # names) d = (case d name of
     None \<Rightarrow> None
   | Some kvs \<Rightarrow> map_option (\<lambda>rest. kvs @ rest) (read_files names d))"

definition line_of :: "string \<Rightarrow> string \<Rightarrow> string" where
  "line_of key output = key @ '' '' @ output @ [CHR 0x0A]"

text \<open>The loop over the groups of equal keys.\<close>

function reduce_lines :: "reducefun \<Rightarrow> KeyValue list \<Rightarrow> string list" where
  "reduce_lines reducef [] = []"
| "reduce_lines reducef (kv # rest) =
     (let same = takeWhile (\<lambda>x. kva_Key x = kva_Key kv) rest;
          others = dropWhile (\<lambda>x. kva_Key x = kva_Key kv) rest;
          output = reducef (kva_Key kv) (map kva_Value (kv # same))
      in line_of (kva_Key kv) output # reduce_lines reducef others)"
  by pat_completeness auto
termination
  by (relation "measure (\<lambda>(_, xs). length xs)") (auto simp: le_imp_less_Suc length_dropWhile_le)

definition ReduceWork ::
  "(KeyValue list \<Rightarrow> KeyValue list) \<Rightarrow> reducefun \<Rightarrow> WorkerDetail \<Rightarrow> mrdisk \<Rightarrow> (string \<times> string list) option" where
  "ReduceWork srt reducef task d = (case read_files (wd_FileNames task) d of
     None \<Rightarrow> None
   | Some intermediates \<Rightarrow>
       Some (''mr-out-'' @ Itoa (wd_Id task), reduce_lines reducef (srt intermediates)))"

text \<open>
  One iteration of \<open>Worker\<close>: the outcome of \<open>CallForGetTask\<close> is an argument.  The result is the
  report to send, or \<open>None\<close> when the loop returns or sleeps.
\<close>

definition CallForGetTask :: "Reply option \<Rightarrow> WorkerDetail option" where
  "CallForGetTask r = (case r of None \<Rightarrow> None
     | Some reply \<Rightarrow> if reply_IsFinished reply then None else Some (reply_Task reply))"

definition Worker ::
  "(KeyValue list \<Rightarrow> KeyValue list) \<Rightarrow> mapfun \<Rightarrow> reducefun \<Rightarrow> (string \<rightharpoonup> string) \<Rightarrow> Reply option \<Rightarrow> mrdisk
    \<Rightarrow> (Args option \<times> mrdisk) option" where
  "Worker srt mapf reducef inputs r d = (case CallForGetTask r of
     None \<Rightarrow> Some (None, d)
   | Some task \<Rightarrow>
       if wd_Type task = MapTask then do {
         (filenames, d) \<leftarrow> MapWork mapf inputs task d;
         Some (Some \<lparr>args_Task = task, args_IntermidiateFiles = filenames, args_OutPutFileName = ''''\<rparr>, d)
       }
       else if wd_Type task = ReduceTask then do {
         (filename, lines) \<leftarrow> ReduceWork srt reducef task d;
         Some (Some \<lparr>args_Task = task, args_IntermidiateFiles = [], args_OutPutFileName = filename\<rparr>, d)
       }
       else Some (None, d))"

section \<open>The sequential program\<close>

fun seq_maps :: "mapfun \<Rightarrow> (string \<rightharpoonup> string) \<Rightarrow> string list \<Rightarrow> KeyValue list option" where
  "seq_maps mapf inputs [] = Some []"
| "seq_maps mapf inputs (filename # files) = (case inputs filename of
     None \<Rightarrow> None
   | Some content \<Rightarrow> map_option (\<lambda>rest. mapf filename content @ rest) (seq_maps mapf inputs files))"

definition mrsequential ::
  "(KeyValue list \<Rightarrow> KeyValue list) \<Rightarrow> mapfun \<Rightarrow> reducefun \<Rightarrow> (string \<rightharpoonup> string) \<Rightarrow> string list \<Rightarrow> string list option" where
  "mrsequential srt mapf reducef inputs files =
     map_option (\<lambda>intermediate. reduce_lines reducef (srt intermediate)) (seq_maps mapf inputs files)"

section \<open>Applications\<close>

definition wc_Reduce :: reducefun where
  "wc_Reduce key values = Itoa (length values)"

fun Join_with :: "string \<Rightarrow> string list \<Rightarrow> string" where
  "Join_with sep [] = []"
| "Join_with sep [w] = w"
| "Join_with sep (w # ws) = w @ sep @ Join_with sep ws"

definition indexer_Reduce :: reducefun where
  "indexer_Reduce key values = Itoa (length values) @ '' '' @ Join_with '','' (sort values)"

section \<open>What the workers leave on disk\<close>

definition part :: "nat \<Rightarrow> nat \<Rightarrow> KeyValue list \<Rightarrow> KeyValue list" where
  "part nReduce r kva = filter (\<lambda>kv. ihash (kva_Key kv) mod nReduce = r) kva"

lemma create_files_lookup: "create_files names d n = (if n \<in> set names then Some [] else d n)"
  by (induction names arbitrary: d) auto

lemma encode_pairs_lookup:
  assumes "0 < nReduce" "\<And>r. r < nReduce \<Longrightarrow> d (interFile m r) = Some (g r)"
  shows "r < nReduce \<Longrightarrow> encode_pairs m nReduce kva d (interFile m r) = Some (g r @ part nReduce r kva)"
    and "n \<notin> interFile m ` {..<nReduce} \<Longrightarrow> encode_pairs m nReduce kva d n = d n"
proof -
  have "(\<forall>r < nReduce. encode_pairs m nReduce kva d (interFile m r) = Some (g r @ part nReduce r kva))
      \<and> (n \<notin> interFile m ` {..<nReduce} \<longrightarrow> encode_pairs m nReduce kva d n = d n)"
    using assms(2)
  proof (induction kva arbitrary: d g)
    case (Cons kv kva)
    define i where "i = ihash (kva_Key kv) mod nReduce"
    define d' where "d' = d(interFile m i := map_option (\<lambda>kvs. kvs @ [kv]) (d (interFile m i)))"
    let ?g = "\<lambda>r. if r = i then g r @ [kv] else g r"
    have i: "i < nReduce" using assms(1) by (simp add: i_def)
    have "d' (interFile m r) = Some (?g r)" if "r < nReduce" for r
      using Cons.prems that i by (simp add: d'_def interFile_inj)
    note IH = Cons.IH [of d' ?g, OF this]
    have "encode_pairs m nReduce (kv # kva) d = encode_pairs m nReduce kva d'"
      by (simp add: d'_def i_def Let_def fun_upd_def)
    moreover have "part nReduce r (kv # kva) = (if r = i then kv # part nReduce r kva else part nReduce r kva)" for r
      by (auto simp: part_def i_def)
    moreover have "n \<notin> interFile m ` {..<nReduce} \<Longrightarrow> d' n = d n" using i by (auto simp: d'_def)
    ultimately show ?case using IH by simp
  qed (simp add: part_def)
  then show "r < nReduce \<Longrightarrow> encode_pairs m nReduce kva d (interFile m r) = Some (g r @ part nReduce r kva)"
    and "n \<notin> interFile m ` {..<nReduce} \<Longrightarrow> encode_pairs m nReduce kva d n = d n" by auto
qed

lemma MapWork_disk:
  assumes "inputs file = Some content" "0 < nReduce"
  shows "\<exists>d'. MapWork mapf inputs (mapTask nReduce m file) d = Some (map (interFile m) [0..<nReduce], d')
    \<and> (\<forall>r < nReduce. d' (interFile m r) = Some (part nReduce r (mapf file content)))
    \<and> (\<forall>n. n \<notin> interFile m ` {..<nReduce} \<longrightarrow> d' n = d n)"
proof -
  let ?d = "create_files (map (interFile m) [0..<nReduce]) d"
  have g: "?d (interFile m r) = Some []" if "r < nReduce" for r using that by (simp add: create_files_lookup)
  have "encode_pairs m nReduce kva ?d (interFile m r) = Some (part nReduce r kva)" if "r < nReduce" for r kva
    using encode_pairs_lookup(1) [OF assms(2), of ?d m "\<lambda>_. []" r kva] g that by simp
  moreover have "encode_pairs m nReduce kva ?d n = ?d n" if "n \<notin> interFile m ` {..<nReduce}" for n kva
    using encode_pairs_lookup(2) [OF assms(2), of ?d m "\<lambda>_. []" n kva] g that by simp
  ultimately show ?thesis using assms by (auto simp: MapWork_def mapTask_def Let_def create_files_lookup)
qed

text \<open>The map tasks, each run at least once, in any order.\<close>

fun run_maps :: "mapfun \<Rightarrow> (string \<rightharpoonup> string) \<Rightarrow> nat \<Rightarrow> string list \<Rightarrow> nat list \<Rightarrow> mrdisk \<Rightarrow> mrdisk option" where
  "run_maps mapf inputs nReduce files [] d = Some d"
| "run_maps mapf inputs nReduce files (m # ms) d = do {
     (_, d) \<leftarrow> MapWork mapf inputs (mapTask nReduce m (files ! m)) d;
     run_maps mapf inputs nReduce files ms d
   }"

lemma run_maps_disk:
  assumes "0 < nReduce" "\<forall>f \<in> set files. inputs f \<noteq> None" "set ms \<subseteq> {..<length files}"
    "\<forall>m \<in> A. \<forall>r < nReduce. d (interFile m r) = Some (part nReduce r (mapf (files ! m) (the (inputs (files ! m)))))"
  shows "\<exists>d'. run_maps mapf inputs nReduce files ms d = Some d' \<and> (\<forall>m \<in> A \<union> set ms. \<forall>r < nReduce.
    d' (interFile m r) = Some (part nReduce r (mapf (files ! m) (the (inputs (files ! m))))))"
  using assms(3,4)
proof (induction ms arbitrary: d A)
  case (Cons m ms)
  have "inputs (files ! m) = Some (the (inputs (files ! m)))" using assms(2) Cons.prems(1) by auto
  with MapWork_disk [of inputs "files ! m" "the (inputs (files ! m))", OF _ assms(1), of mapf m d] obtain d' where
    d': "MapWork mapf inputs (mapTask nReduce m (files ! m)) d = Some (map (interFile m) [0..<nReduce], d')"
      "\<forall>r < nReduce. d' (interFile m r) = Some (part nReduce r (mapf (files ! m) (the (inputs (files ! m)))))"
      "\<forall>n. n \<notin> interFile m ` {..<nReduce} \<longrightarrow> d' n = d n" by blast
  have "d' (interFile k r) = Some (part nReduce r (mapf (files ! k) (the (inputs (files ! k)))))"
    if "k \<in> insert m A" "r < nReduce" for k r
  proof (cases "k = m")
    case False
    then have "interFile k r \<notin> interFile m ` {..<nReduce}" by (auto simp: interFile_inj)
    then show ?thesis using d'(3) Cons.prems(2) that False by simp
  qed (use d'(2) that in simp)
  then have "\<forall>k \<in> insert m A. \<forall>r < nReduce. d' (interFile k r) = Some (part nReduce r (mapf (files ! k) (the (inputs (files ! k)))))"
    by blast
  from Cons.IH [OF _ this] Cons.prems(1) d'(1) show ?case by simp
qed simp

section \<open>What a reducer writes\<close>

lemma read_files_ok: "\<forall>n \<in> set names. d n = Some (g n) \<Longrightarrow> read_files names d = Some (concat (map g names))"
  by (induction names) auto

definition vals :: "string \<Rightarrow> KeyValue list \<Rightarrow> string list" where
  "vals k xs = map kva_Value (filter (\<lambda>x. kva_Key x = k) xs)"

lemma sorted_group:
  assumes "sorted (map kva_Key (kv # rest))"
  defines "same \<equiv> takeWhile (\<lambda>x. kva_Key x = kva_Key kv) rest"
    and "others \<equiv> dropWhile (\<lambda>x. kva_Key x = kva_Key kv) rest"
  shows "sorted (map kva_Key others)" "kva_Key kv \<notin> kva_Key ` set others"
    "vals (kva_Key kv) (kv # rest) = map kva_Value (kv # same)"
    "\<And>k. k \<noteq> kva_Key kv \<Longrightarrow> vals k (kv # rest) = vals k others"
    "kva_Key ` set (kv # rest) = insert (kva_Key kv) (kva_Key ` set others)"
proof -
  have rest: "rest = same @ others" by (simp add: same_def others_def)
  have same: "\<forall>x \<in> set same. kva_Key x = kva_Key kv" by (auto simp: same_def dest: set_takeWhileD)
  have "sorted (kva_Key kv # map kva_Key same @ map kva_Key others)" using assms(1) rest by simp
  then have le: "\<forall>z \<in> set others. kva_Key kv \<le> kva_Key z" and srt: "sorted (map kva_Key others)"
    by (auto simp: sorted_append)
  from srt show "sorted (map kva_Key others)" .
  show no: "kva_Key kv \<notin> kva_Key ` set others"
  proof
    assume "kva_Key kv \<in> kva_Key ` set others"
    then obtain z where "kva_Key kv = kva_Key z" "z \<in> set others" by (rule imageE)
    then have z: "z \<in> set others" "kva_Key z = kva_Key kv" by simp_all
    then obtain y ys where y: "others = y # ys" by (cases others) auto
    then have "kva_Key y \<noteq> kva_Key kv"
      using hd_dropWhile [of "\<lambda>x. kva_Key x = kva_Key kv" rest, folded others_def] by simp
    moreover have "kva_Key y \<le> kva_Key z" using srt z(1) y by auto
    moreover have "kva_Key kv \<le> kva_Key y" using le y by simp
    ultimately show False using z(2) by (metis order.antisym)
  qed
  then have "filter (\<lambda>x. kva_Key x = kva_Key kv) others = []" by (auto simp: filter_empty_conv image_iff)
  then show "vals (kva_Key kv) (kv # rest) = map kva_Value (kv # same)"
    using same by (simp add: vals_def rest)
  show "vals k (kv # rest) = vals k others" if "k \<noteq> kva_Key kv" for k
  proof -
    have "filter (\<lambda>x. kva_Key x = k) same = []" using same that by (auto simp: filter_empty_conv)
    then show ?thesis using that by (simp add: vals_def rest)
  qed
  show "kva_Key ` set (kv # rest) = insert (kva_Key kv) (kva_Key ` set others)" using same by (auto simp: rest)
qed

lemma reduce_lines_groups:
  "sorted (map kva_Key xs) \<Longrightarrow> mset (reduce_lines reducef xs)
     = image_mset (\<lambda>k. line_of k (reducef k (vals k xs))) (mset_set (kva_Key ` set xs))"
proof (induction reducef xs rule: reduce_lines.induct)
  case (2 reducef kv rest)
  define others where "others = dropWhile (\<lambda>x. kva_Key x = kva_Key kv) rest"
  note g = sorted_group [OF 2(2), folded others_def]
  have IH: "mset (reduce_lines reducef others)
      = image_mset (\<lambda>k. line_of k (reducef k (vals k others))) (mset_set (kva_Key ` set others))"
    using 2(1) [OF refl] g(1) unfolding others_def by simp
  also have "\<dots> = image_mset (\<lambda>k. line_of k (reducef k (vals k (kv # rest)))) (mset_set (kva_Key ` set others))"
  proof (rule image_mset_cong)
    fix k assume "k \<in># mset_set (kva_Key ` set others)"
    then have "k \<in> kva_Key ` set others" by simp
    then have "k \<noteq> kva_Key kv" using g(2) by metis
    then show "line_of k (reducef k (vals k others)) = line_of k (reducef k (vals k (kv # rest)))" using g(4) [of k] by simp
  qed
  finally have "mset (reduce_lines reducef others)
      = image_mset (\<lambda>k. line_of k (reducef k (vals k (kv # rest)))) (mset_set (kva_Key ` set others))" .
  then show ?case unfolding g(5) reduce_lines.simps Let_def others_def [symmetric]
    using g(2,3) by simp
qed simp

definition is_sorter :: "(KeyValue list \<Rightarrow> KeyValue list) \<Rightarrow> bool" where
  "is_sorter srt \<longleftrightarrow> (\<forall>xs. mset (srt xs) = mset xs \<and> sorted (map kva_Key (srt xs)))"

definition order_free :: "reducefun \<Rightarrow> bool" where
  "order_free reducef \<longleftrightarrow> (\<forall>k vs vs'. mset vs = mset vs' \<longrightarrow> reducef k vs = reducef k vs')"

lemma order_freeD: "order_free reducef \<Longrightarrow> mset vs = mset vs' \<Longrightarrow> reducef k vs = reducef k vs'"
  unfolding order_free_def by blast

lemma order_free_apps: "order_free wc_Reduce" "order_free indexer_Reduce"
proof -
  show "order_free wc_Reduce" by (auto simp: order_free_def wc_Reduce_def dest: mset_eq_length)
  show "order_free indexer_Reduce"
    unfolding order_free_def indexer_Reduce_def by (metis mset_eq_length properties_for_sort sorted_sort mset_sort)
qed

lemma mset_vals: "mset (vals k xs) = image_mset kva_Value (filter_mset (\<lambda>x. kva_Key x = k) (mset xs))"
  by (simp add: vals_def mset_filter)

lemma reduce_part:
  assumes "is_sorter srt" "is_sorter srt'" "order_free reducef"
    and "mset xs = filter_mset (\<lambda>x. h (kva_Key x) = r) (mset ys)"
  shows "mset (reduce_lines reducef (srt xs)) = image_mset (\<lambda>k. line_of k (reducef k (vals k (srt' ys))))
     (mset_set {k \<in> kva_Key ` set ys. h k = r})"
proof -
  have s: "mset (srt xs) = mset xs" "sorted (map kva_Key (srt xs))" "mset (srt' ys) = mset ys"
    using assms(1,2) by (auto simp: is_sorter_def)
  have "set xs = {x \<in> set ys. h (kva_Key x) = r}" using arg_cong [OF assms(4), of set_mset] by simp
  then have "set (srt xs) = {x \<in> set ys. h (kva_Key x) = r}" using mset_eq_setD [OF s(1)] by simp
  then have keys: "kva_Key ` set (srt xs) = {k \<in> kva_Key ` set ys. h k = r}" by blast
  have "reducef k (vals k (srt xs)) = reducef k (vals k (srt' ys))" if "h k = r" for k
  proof -
    have "mset (vals k (srt xs)) = mset (vals k (srt' ys))"
    proof -
      have "filter_mset (\<lambda>x. kva_Key x = k) (filter_mset (\<lambda>x. h (kva_Key x) = r) (mset ys))
          = filter_mset (\<lambda>x. kva_Key x = k) (mset ys)"
        unfolding filter_filter_mset using that by (intro filter_mset_cong) auto
      then show ?thesis unfolding mset_vals s assms(4) by simp
    qed
    then show ?thesis by (rule order_freeD [OF assms(3)])
  qed
  then show ?thesis unfolding reduce_lines_groups [OF s(2)] keys by (intro image_mset_cong) auto
qed

section \<open>The job as a whole\<close>

lemma seq_maps_ok:
  "\<forall>f \<in> set files. inputs f \<noteq> None
    \<Longrightarrow> seq_maps mapf inputs files = Some (concat (map (\<lambda>f. mapf f (the (inputs f))) files))"
  by (induction files) auto

lemma sum_classes:
  "finite K \<Longrightarrow> sum_list (map (\<lambda>r. mset_set {k \<in> K. h k = r}) [0..<n]) = mset_set {k \<in> K. h k < (n :: nat)}"
proof (induction n)
  case (Suc n)
  have "{k \<in> K. h k < Suc n} = {k \<in> K. h k < n} \<union> {k \<in> K. h k = n}" by auto
  moreover have "mset_set ({k \<in> K. h k < n} \<union> {k \<in> K. h k = n}) = mset_set {k \<in> K. h k < n} + mset_set {k \<in> K. h k = n}"
    using Suc.prems by (intro mset_set_Union) auto
  ultimately show ?case using Suc by simp
qed simp

lemma mset_concat_classes:
  assumes "\<And>r. r < n \<Longrightarrow> mset (outs r) = image_mset f (mset_set {k \<in> K. h k = r})"
    and "finite K" "\<And>k. k \<in> K \<Longrightarrow> h k < (n :: nat)"
  shows "mset (concat (map outs [0..<n])) = image_mset f (mset_set K)"
proof -
  have "mset (concat (map outs [0..<n])) = sum_list (map (\<lambda>r. image_mset f (mset_set {k \<in> K. h k = r})) [0..<n])"
    unfolding mset_concat map_map by (intro arg_cong [of _ _ sum_list] map_cong) (simp_all add: assms(1))
  also have "\<dots> = image_mset f (sum_list (map (\<lambda>r. mset_set {k \<in> K. h k = r}) [0..<n]))"
    by (induction n) simp_all
  also have "\<dots> = image_mset f (mset_set {k \<in> K. h k < n})" by (simp only: sum_classes [OF assms(2)])
  also have "{k \<in> K. h k < n} = K" using assms(3) by auto
  finally show ?thesis .
qed

lemma read_part:
  assumes "mset names = mset (map (\<lambda>m. interFile m r) [0..<length files])"
    and "\<And>m. m < length files \<Longrightarrow> d (interFile m r) = Some (part nReduce r (F (files ! m)))"
  shows "\<exists>xs. read_files names d = Some xs
    \<and> mset xs = filter_mset (\<lambda>x. ihash (kva_Key x) mod nReduce = r) (mset (concat (map F files)))"
proof -
  let ?g = "\<lambda>n. the (d n)"
  have "set names = (\<lambda>m. interFile m r) ` {0..<length files}" using mset_eq_setD [OF assms(1)] by simp
  then have "\<forall>n \<in> set names. d n = Some (?g n)" using assms(2) by auto
  then have R: "read_files names d = Some (concat (map ?g names))" by (rule read_files_ok)
  have "mset (concat (map ?g names)) = sum_mset (image_mset (\<lambda>n. mset (?g n)) (mset names))"
    by (simp add: mset_concat comp_def flip: sum_mset_sum_list)
  also have "\<dots> = sum_list (map (\<lambda>m. mset (?g (interFile m r))) [0..<length files])"
    unfolding assms(1) by (simp only: mset_map [symmetric] sum_mset_sum_list map_map comp_def)
  also have "\<dots> = sum_list (map (\<lambda>m. mset (part nReduce r (F (files ! m)))) [0..<length files])"
    using assms(2) by (intro arg_cong [of _ _ sum_list] map_cong) auto
  also have "\<dots> = sum_list (map (\<lambda>f. mset (part nReduce r (F f))) (map ((!) files) [0..<length files]))"
    by (simp add: comp_def)
  also have "\<dots> = filter_mset (\<lambda>x. ihash (kva_Key x) mod nReduce = r) (mset (concat (map F files)))"
    unfolding map_nth by (induction files) (simp_all add: part_def mset_filter)
  finally show ?thesis using R by blast
qed


definition ex_map :: mapfun where
  "ex_map file content = map (\<lambda>c. \<lparr>kva_Key = [c], kva_Value = ''1''\<rparr>) content"


end
